(* ===== verification/Prelude.thy ===== *)
theory Prelude
  imports Main "HOL-Library.Word"
begin

text \<open>
  Shared vocabulary of the development: the ways a C++ operation can fail
  (\<open>fault\<close>), results (\<open>fault + 'a\<close>) with sequencing, the \<open>assert\<close> macro, loops that
  run a statement over a container, \<open>size_t\<close> arithmetic, list updates by
  position, transition systems with the locale that lifts an inductive
  invariant to every reachable state, and histories of legal actions with the
  locale that lifts an invariant to all of them.
\<close>

section \<open>Faults and results\<close>

text \<open>
  \<open>AssertFail\<close>: an \<open>assert\<close> of the source fails (the build files set no \<open>NDEBUG\<close>).
  \<open>ProcessExit\<close>: \<open>exit(-1)\<close>, as \<open>EventLoop::assertInLoopThread\<close> does.
  \<open>LengthError\<close>: \<open>std::length_error\<close> out of \<open>vector::resize\<close>.
  \<open>BadAlloc\<close>: \<open>new\<close> finds no free address. \<open>OutOfRange\<close>: \<open>std::out_of_range\<close> or an
  index outside its container. \<open>BadDeref\<close>: a pointer to no live object is used.
  \<open>Undefined\<close>: undefined behaviour of another kind.
\<close>

datatype fault =
    AssertFail
  | ProcessExit
  | LengthError
  | BadAlloc
  | OutOfRange
  | BadDeref
  | Undefined

type_synonym 'a result = "fault + 'a"

definition rbind :: "'a result \<Rightarrow> ('a \<Rightarrow> 'b result) \<Rightarrow> 'b result" where
  "rbind m f = (case m of Inl e \<Rightarrow> Inl e | Inr a \<Rightarrow> f a)"

definition cassert :: "bool \<Rightarrow> 'a result \<Rightarrow> 'a result" where
  "cassert P k = (if P then k else Inl AssertFail)"

text \<open>\<open>*p\<close> for a pointer into a map of live objects.\<close>

definition deref :: "('p \<Rightarrow> 'a option) \<Rightarrow> 'p \<Rightarrow> ('a \<Rightarrow> 'b result) \<Rightarrow> 'b result" where
  "deref h p k = (case h p of None \<Rightarrow> Inl BadDeref | Some a \<Rightarrow> k a)"

text \<open>\<open>EventLoop::assertInLoopThread()\<close>, given whether the caller is the loop's own thread.\<close>

definition assertInLoopThread :: "bool \<Rightarrow> 'a result \<Rightarrow> 'a result" where
  "assertInLoopThread inLoop k = (if inLoop then k else Inl ProcessExit)"

text \<open>A range-based \<open>for\<close> whose body may fail.\<close>

fun rfold :: "('a \<Rightarrow> 's \<Rightarrow> 's result) \<Rightarrow> 'a list \<Rightarrow> 's \<Rightarrow> 's result" where
  "rfold f [] s = Inr s"
| "rfold f (x # xs) s = rbind (f x s) (rfold f xs)"

lemma rbind_simps [simp]:
  "rbind (Inr a) f = f a"
  "rbind (Inl e) f = Inl e"
  by (simp_all add: rbind_def)

lemma rbind_Inr_iff: "rbind m f = Inr b \<longleftrightarrow> (\<exists>a. m = Inr a \<and> f a = Inr b)"
  by (cases m) auto

lemma rbind_Inl_iff:
  "rbind m f = Inl e \<longleftrightarrow> m = Inl e \<or> (\<exists>a. m = Inr a \<and> f a = Inl e)"
  by (cases m) auto

lemma rbind_InrE:
  assumes "rbind m f = Inr b"
  obtains a where "m = Inr a" "f a = Inr b"
  using assms by (auto simp: rbind_Inr_iff)

lemma rbind_assoc: "rbind (rbind m f) g = rbind m (\<lambda>x. rbind (f x) g)"
  by (cases m) auto

lemma cassert_True [simp]: "P \<Longrightarrow> cassert P k = k"
  by (simp add: cassert_def)

lemma cassert_False [simp]: "\<not> P \<Longrightarrow> cassert P k = Inl AssertFail"
  by (simp add: cassert_def)

lemma cassert_Inr_iff: "cassert P k = Inr x \<longleftrightarrow> P \<and> k = Inr x"
  by (simp add: cassert_def)

lemma cassert_Inl_iff: "cassert P k = Inl e \<longleftrightarrow> (\<not> P \<and> e = AssertFail) \<or> (P \<and> k = Inl e)"
  by (auto simp: cassert_def)

lemma assertInLoopThread_simps [simp]:
  "assertInLoopThread True k = k"
  "assertInLoopThread False k = Inl ProcessExit"
  by (simp_all add: assertInLoopThread_def)

lemma assertInLoopThread_Inr_iff: "assertInLoopThread b k = Inr x \<longleftrightarrow> b \<and> k = Inr x"
  by (simp add: assertInLoopThread_def)

lemma deref_simps [simp]:
  "h p = Some a \<Longrightarrow> deref h p k = k a"
  "h p = None \<Longrightarrow> deref h p k = Inl BadDeref"
  by (simp_all add: deref_def)

lemma deref_Inr_iff: "deref h p k = Inr x \<longleftrightarrow> (\<exists>a. h p = Some a \<and> k a = Inr x)"
  by (cases "h p") auto

lemma deref_Inl_iff:
  "deref h p k = Inl e \<longleftrightarrow> (h p = None \<and> e = BadDeref) \<or> (\<exists>a. h p = Some a \<and> k a = Inl e)"
  by (cases "h p") auto

lemmas result_iffs =
  rbind_Inr_iff rbind_Inl_iff cassert_Inr_iff cassert_Inl_iff deref_Inr_iff deref_Inl_iff
  assertInLoopThread_Inr_iff

lemma rfold_append: "rfold f (xs @ ys) s = rbind (rfold f xs s) (rfold f ys)"
proof (induction xs arbitrary: s)
  case (Cons x xs)
  then show ?case by (cases "f x s") simp_all
qed simp

text \<open>
  The two loop rules: an invariant indexed by the elements still to do holds
  after the loop when it returns, and the loop can only fail the way its body
  fails under the invariant.
\<close>

lemma rfold_inv:
  assumes "rfold f xs s = Inr s'" and "I xs s"
    and "\<And>x ys s s'. I (x # ys) s \<Longrightarrow> f x s = Inr s' \<Longrightarrow> I ys s'"
  shows "I [] s'"
  using assms by (induction xs arbitrary: s) (auto simp: rbind_Inr_iff)

lemma rfold_fault:
  assumes "rfold f xs s = Inl e" and "I xs s"
    and "\<And>x ys s s'. I (x # ys) s \<Longrightarrow> f x s = Inr s' \<Longrightarrow> I ys s'"
  obtains x ys t where "I (x # ys) t" "f x t = Inl e"
proof -
  have "\<exists>x ys t. I (x # ys) t \<and> f x t = Inl e"
    using assms(1,2)
  proof (induction xs arbitrary: s)
    case (Cons x xs)
    then show ?case using assms(3) by (auto simp: rbind_Inl_iff)
  qed simp
  then show ?thesis using that by blast
qed

section \<open>Machine sizes and positional updates\<close>

type_synonym byte = "8 word"

text \<open>\<open>size_t\<close> on the 64-bit target: natural numbers with the wrap-around written out.\<close>

definition size_add :: "nat \<Rightarrow> nat \<Rightarrow> nat" where
  "size_add a b = (a + b) mod 2 ^ 64"

definition size_sub :: "nat \<Rightarrow> nat \<Rightarrow> nat" where
  "size_sub a b = (if b \<le> a then a - b else a + 2 ^ 64 - b)"

lemma size_add_small [simp]: "a + b < 2 ^ 64 \<Longrightarrow> size_add a b = a + b"
  by (simp add: size_add_def)

lemma size_sub_le [simp]: "b \<le> a \<Longrightarrow> size_sub a b = a - b"
  by (simp add: size_sub_def)

text \<open>\<open>std::copy\<close> of \<open>ys\<close> to the positions from \<open>i\<close> on.\<close>

definition write_at :: "'a list \<Rightarrow> nat \<Rightarrow> 'a list \<Rightarrow> 'a list" where
  "write_at xs i ys = take i xs @ ys @ drop (i + length ys) xs"

text \<open>The elements of positions \<open>i \<le> k < j\<close>.\<close>

definition slice :: "'a list \<Rightarrow> nat \<Rightarrow> nat \<Rightarrow> 'a list" where
  "slice xs i j = take (j - i) (drop i xs)"

lemma length_write_at [simp]:
  "i + length ys \<le> length xs \<Longrightarrow> length (write_at xs i ys) = length xs"
  by (simp add: write_at_def)

lemma length_slice [simp]: "j \<le> length xs \<Longrightarrow> length (slice xs i j) = j - i"
  by (simp add: slice_def)

lemma slice_self [simp]: "slice xs i i = []"
  by (simp add: slice_def)

lemma slice_write_at:
  assumes "r \<le> i" "i + length ys \<le> length xs"
  shows "slice (write_at xs i ys) r (i + length ys) = slice xs r i @ ys"
proof -
  have "drop r (write_at xs i ys) = slice xs r i @ ys @ drop (i + length ys) xs"
    using assms by (simp add: write_at_def slice_def drop_take)
  then show ?thesis
    using assms by (simp add: slice_def)
qed

lemma slice_drop: "drop n (slice xs i j) = slice xs (i + n) j"
  by (simp add: slice_def drop_take add.commute)

lemma slice_split:
  assumes "i \<le> k" "k \<le> j" "j \<le> length xs"
  shows "slice xs i j = slice xs i k @ slice xs k j"
proof -
  have "take (k - i + (j - k)) (drop i xs) = take (k - i) (drop i xs) @ take (j - k) (drop (k - i) (drop i xs))"
    by (rule take_add)
  then show ?thesis
    using assms by (simp add: slice_def)
qed

section \<open>Transition systems\<close>

inductive reach :: "('s \<Rightarrow> bool) \<Rightarrow> ('s \<Rightarrow> 's \<Rightarrow> bool) \<Rightarrow> 's \<Rightarrow> bool" for init step where
  reach_init: "init s \<Longrightarrow> reach init step s"
| reach_step: "reach init step s \<Longrightarrow> step s t \<Longrightarrow> reach init step t"

text \<open>
  The contract of an inductive invariant. A component that discharges it for
  its own step relation gets the invariant, and all that follows from it, in
  every reachable state.
\<close>

locale invariant_system =
  fixes init :: "'s \<Rightarrow> bool"
    and step :: "'s \<Rightarrow> 's \<Rightarrow> bool"
    and inv :: "'s \<Rightarrow> bool"
  assumes inv_init: "init s \<Longrightarrow> inv s"
    and inv_step: "inv s \<Longrightarrow> step s t \<Longrightarrow> inv t"
begin

lemma reach_inv: "reach init step s \<Longrightarrow> inv s"
  by (induction rule: reach.induct) (auto intro: inv_init inv_step)

lemma reach_safe: "reach init step s \<Longrightarrow> (\<And>t. inv t \<Longrightarrow> P t) \<Longrightarrow> P s"
  using reach_inv by blast

lemma run_inv: "step\<^sup>*\<^sup>* s t \<Longrightarrow> inv s \<Longrightarrow> inv t"
  by (induction rule: rtranclp_induct) (auto intro: inv_step)

end

section \<open>Histories\<close>

text \<open>A sequence of actions, each of them legal in the state where it happens.\<close>

fun legal_run :: "('a \<Rightarrow> 's \<Rightarrow> 's result) \<Rightarrow> ('a \<Rightarrow> 's \<Rightarrow> bool) \<Rightarrow> 'a list \<Rightarrow> 's \<Rightarrow> bool" where
  "legal_run exec legal [] s \<longleftrightarrow> True"
| "legal_run exec legal (a # as) s \<longleftrightarrow>
     legal a s \<and> (case exec a s of Inl _ \<Rightarrow> True | Inr s' \<Rightarrow> legal_run exec legal as s')"

text \<open>
  The contract of an object that is used through legal actions: an invariant they keep, and the
  only errors they may end in. It holds over every history.
\<close>

locale legal_system =
  fixes exec :: "'a \<Rightarrow> 's \<Rightarrow> 's result"
    and legal :: "'a \<Rightarrow> 's \<Rightarrow> bool"
    and inv :: "'s \<Rightarrow> bool"
    and allowed :: "fault \<Rightarrow> bool"
  assumes legal_step: "inv s \<Longrightarrow> legal a s \<Longrightarrow> case exec a s of Inl e \<Rightarrow> allowed e | Inr s' \<Rightarrow> inv s'"
begin

lemma history: "inv s \<Longrightarrow> legal_run exec legal as s \<Longrightarrow> case rfold exec as s of Inl e \<Rightarrow> allowed e | Inr s' \<Rightarrow> inv s'"
proof (induction as arbitrary: s)
  case (Cons a as)
  then show ?case using legal_step [OF Cons.prems(1), of a] by (cases "exec a s") auto
qed simp

end

end
