(* ===== verification/Net_Buffer.thy ===== *)
theory Net_Buffer
  imports Prelude
begin

text \<open>
  \<open>net/Buffer.h\<close> and \<open>net/Buffer.cpp\<close>: the growable byte buffer between a socket and
  the application. \<open>readFd\<close> takes the answer of \<open>readv\<close> as an argument. The abstract
  view of a buffer is its readable content, a queue of bytes; the locale
  \<open>byte_fifo\<close> is the contract its clients rely on.
\<close>

section \<open>State\<close>

text \<open>\<open>buffer_\<close>, \<open>readerIdx_\<close> and \<open>writerIdx_\<close>; the vector is a list of bytes.\<close>

record buffer =
  buf :: "byte list"
  readerIdx :: nat
  writerIdx :: nat

definition kCheapPrepend :: nat where "kCheapPrepend = 0"
definition KInitSize :: nat where "KInitSize = 1024"
definition ExtraBufSize :: nat where "ExtraBufSize = 65535"

text \<open>\<open>std::vector<char>::max_size()\<close> of the 64-bit library.\<close>

definition vec_max_size :: nat where "vec_max_size = 2 ^ 63 - 1"

definition buffer_new :: "nat \<Rightarrow> buffer" where
  "buffer_new initSize =
     \<lparr>buf = replicate initSize 0, readerIdx = kCheapPrepend, writerIdx = kCheapPrepend\<rparr>"

section \<open>Operations\<close>

definition readableBytes :: "buffer \<Rightarrow> nat" where
  "readableBytes b = size_sub (writerIdx b) (readerIdx b)"

definition writableBytes :: "buffer \<Rightarrow> nat" where
  "writableBytes b = size_sub (length (buf b)) (writerIdx b)"

definition prependableBytes :: "buffer \<Rightarrow> nat" where
  "prependableBytes b = readerIdx b"

definition hasWritten :: "nat \<Rightarrow> buffer \<Rightarrow> buffer result" where
  "hasWritten len b =
     cassert (len \<le> writableBytes b) (Inr (b\<lparr>writerIdx := size_add (writerIdx b) len\<rparr>))"

definition vec_resize :: "byte list \<Rightarrow> nat \<Rightarrow> byte list result" where
  "vec_resize xs n =
     (if vec_max_size < n then Inl LengthError
      else Inr (if n \<le> length xs then take n xs else xs @ replicate (n - length xs) 0))"

text \<open>\<open>std::copy\<close> inside one vector, element by element from the front.\<close>

function copy_forward :: "'a list \<Rightarrow> nat \<Rightarrow> nat \<Rightarrow> nat \<Rightarrow> 'a list" where
  "copy_forward xs i j d =
     (if i < j then copy_forward (xs[d := xs ! i]) (Suc i) j (Suc d) else xs)"
  by pat_completeness auto
termination
  by (relation "measure (\<lambda>(xs, i, j, d). j - i)") auto

declare copy_forward.simps [simp del]

definition makeSpace :: "nat \<Rightarrow> buffer \<Rightarrow> buffer result" where
  "makeSpace len b =
     (let remainLen = size_add (writableBytes b) (prependableBytes b) in
      if remainLen < size_add len kCheapPrepend
      then rbind (vec_resize (buf b) (size_add (writerIdx b) len))
             (\<lambda>v. Inr (b\<lparr>buf := v\<rparr>))
      else cassert (kCheapPrepend < readerIdx b)
        (let readable = readableBytes b;
             b' = b\<lparr>buf := copy_forward (buf b) (readerIdx b) (writerIdx b) kCheapPrepend,
                    readerIdx := kCheapPrepend,
                    writerIdx := size_add kCheapPrepend readable\<rparr>
         in cassert (readable = readableBytes b') (Inr b')))"

definition ensureWritableBytes :: "nat \<Rightarrow> buffer \<Rightarrow> buffer result" where
  "ensureWritableBytes len b =
     rbind (if writableBytes b < len then makeSpace len b else Inr b)
       (\<lambda>b'. cassert (len \<le> writableBytes b') (Inr b'))"

definition append :: "byte list \<Rightarrow> buffer \<Rightarrow> buffer result" where
  "append data b =
     rbind (ensureWritableBytes (length data) b)
       (\<lambda>b'. hasWritten (length data) (b'\<lparr>buf := write_at (buf b') (writerIdx b') data\<rparr>))"

text \<open>The bytes from \<open>peek()\<close> on, \<open>len\<close> of them.\<close>

definition peek :: "nat \<Rightarrow> buffer \<Rightarrow> byte list" where
  "peek len b = take len (drop (readerIdx b) (buf b))"

definition retrieveAll :: "buffer \<Rightarrow> buffer" where
  "retrieveAll b = b\<lparr>readerIdx := kCheapPrepend, writerIdx := kCheapPrepend\<rparr>"

definition retrieve :: "nat \<Rightarrow> buffer \<Rightarrow> buffer result" where
  "retrieve len b =
     (let readableBytesNum = readableBytes b in
      cassert (len \<le> readableBytesNum)
        (if len < readableBytesNum then Inr (b\<lparr>readerIdx := size_add (readerIdx b) len\<rparr>)
         else if len = readableBytesNum then Inr (retrieveAll b)
         else Inr b))"

definition retrieveAsString :: "nat \<Rightarrow> buffer \<Rightarrow> (byte list \<times> buffer) result" where
  "retrieveAsString len b =
     cassert (len \<le> readableBytes b)
       (let str = peek len b in rbind (retrieve len b) (\<lambda>b'. Inr (str, b')))"

definition retrieveAllAsString :: "buffer \<Rightarrow> (byte list \<times> buffer) result" where
  "retrieveAllAsString b = retrieveAsString (readableBytes b) b"

text \<open>
  The answer of \<open>readv\<close>: an error, or the bytes it stored across the two parts of
  the \<open>iovec\<close>. \<open>readv_room\<close> is the space \<open>readFd\<close> offers: \<open>extraBuf\<close> counts only when
  the buffer itself has less room than \<open>extraBuf\<close>. An answer that exceeds the
  offered room would be memory corruption, which \<open>readv\<close> does not do.
\<close>

datatype sysread = ReadErr | ReadOk "byte list"

definition readv_room :: "buffer \<Rightarrow> nat" where
  "readv_room b =
     (let writableSz = writableBytes b in
      if writableSz < ExtraBufSize then writableSz + ExtraBufSize else writableSz)"

definition readFd :: "sysread \<Rightarrow> buffer \<Rightarrow> (int \<times> buffer) result" where
  "readFd rv b =
     (let writableSz = writableBytes b in
      case rv of
        ReadErr \<Rightarrow> Inr (-1, b)
      | ReadOk bytes \<Rightarrow>
          (let n = length bytes;
               inBuf = take writableSz bytes;
               extraBuf = drop writableSz bytes;
               b1 = b\<lparr>buf := write_at (buf b) (writerIdx b) inBuf\<rparr>
           in if readv_room b < n then Inl Undefined
              else if n \<le> writableSz
              then Inr (int n, b1\<lparr>writerIdx := size_add (writerIdx b1) n\<rparr>)
              else rbind (append extraBuf (b1\<lparr>writerIdx := length (buf b1)\<rparr>))
                     (\<lambda>b2. Inr (int n, b2))))"

section \<open>Invariant and abstract content\<close>

text \<open>The picture of \<open>Buffer.h\<close>: \<open>0 <= readerIndex <= writerIndex <= size\<close>.\<close>

definition wf_buffer :: "buffer \<Rightarrow> bool" where
  "wf_buffer b \<longleftrightarrow>
     readerIdx b \<le> writerIdx b \<and> writerIdx b \<le> length (buf b) \<and> length (buf b) \<le> vec_max_size"

definition content :: "buffer \<Rightarrow> byte list" where
  "content b = slice (buf b) (readerIdx b) (writerIdx b)"

lemma wf_bufferD:
  assumes "wf_buffer b"
  shows "readerIdx b \<le> writerIdx b" "writerIdx b \<le> length (buf b)"
    "length (buf b) \<le> vec_max_size" "length (buf b) < 2 ^ 63"
  using assms by (auto simp: wf_buffer_def vec_max_size_def)

lemma readable_content [simp]: "wf_buffer b \<Longrightarrow> readableBytes b = length (content b)"
  by (simp add: readableBytes_def content_def wf_bufferD)

lemma length_content: "wf_buffer b \<Longrightarrow> length (content b) = writerIdx b - readerIdx b"
  by (simp add: content_def wf_bufferD)

lemma writable_wf: "wf_buffer b \<Longrightarrow> writableBytes b = length (buf b) - writerIdx b"
  by (simp add: writableBytes_def wf_bufferD)

lemma wf_buffer_new: "n \<le> vec_max_size \<Longrightarrow> wf_buffer (buffer_new n)"
  by (simp add: wf_buffer_def buffer_new_def kCheapPrepend_def)

lemma content_buffer_new [simp]: "content (buffer_new n) = []"
  by (simp add: content_def buffer_new_def)

lemma copy_forward_slice:
  "i \<le> j \<Longrightarrow> j \<le> length xs \<Longrightarrow> d \<le> i \<Longrightarrow>
     copy_forward xs i j d = take d xs @ slice xs i j @ drop (d + (j - i)) xs"
proof (induction xs i j d rule: copy_forward.induct)
  case (1 xs i j d)
  show ?case
  proof (cases "i < j")
    case False
    with "1.prems" show ?thesis by (simp add: copy_forward.simps [of xs j j d])
  next
    case True
    let ?ys = "xs[d := xs ! i]"
    have "copy_forward xs i j d = copy_forward ?ys (Suc i) j (Suc d)"
      using True by (simp add: copy_forward.simps [of xs i j d])
    also have "\<dots> = take (Suc d) ?ys @ slice ?ys (Suc i) j @ drop (Suc d + (j - Suc i)) ?ys"
      using True "1.prems" by (intro "1.IH") auto
    also have "take (Suc d) ?ys = take d xs @ [xs ! i]"
      using True "1.prems" by (simp add: take_Suc_conv_app_nth)
    also have "slice ?ys (Suc i) j = slice xs (Suc i) j"
      using "1.prems" by (simp add: slice_def)
    also have "drop (Suc d + (j - Suc i)) ?ys = drop (d + (j - i)) xs"
      using True by (simp add: Suc_diff_Suc)
    finally show ?thesis
      using True "1.prems" slice_split [of i "Suc i" j xs]
      by (simp add: slice_def take_Suc_conv_app_nth Cons_nth_drop_Suc [symmetric])
  qed
qed

section \<open>Making room and appending\<close>

lemma makeSpace_spec:
  assumes wf: "wf_buffer b" and less: "writableBytes b < len" and len: "len \<le> vec_max_size"
  shows "case makeSpace len b of
      Inl e \<Rightarrow> e = LengthError \<and> vec_max_size < writerIdx b + len
    | Inr b' \<Rightarrow> wf_buffer b' \<and> content b' = content b \<and> len \<le> writableBytes b' \<and>
        length (buf b') = (if writableBytes b + prependableBytes b < len
                           then writerIdx b + len else length (buf b))"
proof -
  note bnd = wf_bufferD [OF wf]
  have sums: "writableBytes b + prependableBytes b < 2 ^ 64" "len + kCheapPrepend < 2 ^ 64"
    "writerIdx b + len < 2 ^ 64"
    using bnd len by (auto simp: writable_wf [OF wf] prependableBytes_def kCheapPrepend_def vec_max_size_def)
  show ?thesis
  proof (cases "writableBytes b + prependableBytes b < len")
    case True
    then show ?thesis
      using sums bnd less by (auto simp: makeSpace_def Let_def kCheapPrepend_def vec_resize_def
          wf_buffer_def content_def slice_def writable_wf [OF wf] writableBytes_def)
  next
    case False
    define b' where "b' = b\<lparr>buf := copy_forward (buf b) (readerIdx b) (writerIdx b) 0,
                            readerIdx := 0, writerIdx := length (content b)\<rparr>"
    have cp: "buf b' = content b @ drop (length (content b)) (buf b)"
      using bnd by (simp add: b'_def copy_forward_slice content_def)
    have lc: "length (content b) = writerIdx b - readerIdx b"
      by (rule length_content [OF wf])
    have idx: "readerIdx b' = 0" "writerIdx b' = length (content b)"
      by (simp_all add: b'_def)
    have wf': "wf_buffer b'" and ct: "content b' = content b"
      using bnd lc by (simp_all add: wf_buffer_def content_def [of b'] slice_def cp idx)
    have "readerIdx b > 0"
      using False less by (simp add: prependableBytes_def)
    moreover have "makeSpace len b = cassert (0 < readerIdx b) (cassert (length (content b) = readableBytes b') (Inr b'))"
      using False sums bnd lc wf unfolding makeSpace_def Let_def b'_def
      by (simp add: kCheapPrepend_def)
    moreover have "len \<le> writableBytes b'"
      using False bnd lc wf' by (auto simp: writable_wf [OF wf'] writable_wf [OF wf] prependableBytes_def cp)
         (auto simp: b'_def)
    ultimately show ?thesis
      using wf' ct False lc bnd by (simp add: cp)
  qed
qed

lemma append_spec:
  assumes wf: "wf_buffer b" and len: "length data \<le> vec_max_size"
  shows "case append data b of
      Inl e \<Rightarrow> e = LengthError \<and> vec_max_size < writerIdx b + length data
    | Inr b' \<Rightarrow> wf_buffer b' \<and> content b' = content b @ data \<and>
        length (buf b') = (if writableBytes b + prependableBytes b < length data
                           then writerIdx b + length data else length (buf b))"
proof -
  have step: "case hasWritten (length data) (c\<lparr>buf := write_at (buf c) (writerIdx c) data\<rparr>) of
      Inl e \<Rightarrow> False
    | Inr b' \<Rightarrow> wf_buffer b' \<and> content b' = content c @ data \<and> length (buf b') = length (buf c)"
    if c: "wf_buffer c" "length data \<le> writableBytes c" for c
  proof -
    note bnd = wf_bufferD [OF c(1)]
    have "writerIdx c + length data \<le> length (buf c)"
      using c bnd by (simp add: writable_wf)
    then show ?thesis
      using bnd by (simp add: hasWritten_def writableBytes_def wf_buffer_def content_def slice_write_at)
  qed
  show ?thesis
  proof (cases "writableBytes b < length data")
    case False
    then show ?thesis
      using step [OF wf] wf by (simp add: append_def ensureWritableBytes_def split: sum.splits)
  next
    case True
    show ?thesis
    proof (cases "makeSpace (length data) b")
      case (Inl e)
      then show ?thesis
        using makeSpace_spec [OF wf True len] True by (simp add: append_def ensureWritableBytes_def)
    next
      case (Inr c)
      then show ?thesis
        using makeSpace_spec [OF wf True len] True step [of c]
        by (auto simp: append_def ensureWritableBytes_def split: sum.splits)
    qed
  qed
qed

lemma append_Inr:
  assumes "append data b = Inr b'" "wf_buffer b" "length data \<le> vec_max_size"
  shows "wf_buffer b'" "content b' = content b @ data"
  using append_spec [OF assms(2,3)] assms(1) by auto

section \<open>Consuming\<close>

lemma wf_retrieveAll: "wf_buffer b \<Longrightarrow> wf_buffer (retrieveAll b)"
  by (simp add: wf_buffer_def retrieveAll_def kCheapPrepend_def)

lemma content_retrieveAll [simp]: "content (retrieveAll b) = []"
  by (simp add: content_def retrieveAll_def)

lemma retrieve_spec:
  assumes wf: "wf_buffer b"
  shows "case retrieve len b of
      Inl e \<Rightarrow> e = AssertFail \<and> length (content b) < len
    | Inr b' \<Rightarrow> len \<le> length (content b) \<and> wf_buffer b' \<and> content b' = drop len (content b) \<and>
        buf b' = buf b"
proof (cases "len < length (content b)")
  case True
  note bnd = wf_bufferD [OF wf]
  have "readerIdx b + len < writerIdx b"
    using True by (simp add: length_content [OF wf])
  then show ?thesis
    using True wf bnd
    by (simp add: retrieve_def Let_def wf_buffer_def content_def slice_drop)
next
  case False
  then show ?thesis
    using wf by (auto simp: retrieve_def Let_def wf_retrieveAll cassert_def) (simp add: retrieveAll_def)
qed

lemma peek_content: "wf_buffer b \<Longrightarrow> n \<le> length (content b) \<Longrightarrow> peek n b = take n (content b)"
  by (simp add: peek_def content_def slice_def wf_bufferD min_absorb1)

lemma retrieveAsString_spec:
  assumes wf: "wf_buffer b"
  shows "case retrieveAsString n b of
      Inl e \<Rightarrow> e = AssertFail \<and> length (content b) < n
    | Inr (s, b') \<Rightarrow> n \<le> length (content b) \<and> wf_buffer b' \<and>
        s = take n (content b) \<and> content b' = drop n (content b)"
  using retrieve_spec [OF wf, of n] wf
  by (cases "retrieve n b") (auto simp: retrieveAsString_def Let_def peek_content cassert_def)

section \<open>The contract of a byte queue\<close>

text \<open>
  What a client of the buffer relies on, without the vector and the two indices:
  bytes put in come out once, in order. \<open>room\<close> bounds the size of one chunk.
\<close>

datatype fifo_op = Put "byte list" | Take nat

fun fifo_run ::
    "(byte list \<Rightarrow> 'b \<Rightarrow> 'b result) \<Rightarrow> (nat \<Rightarrow> 'b \<Rightarrow> (byte list \<times> 'b) result) \<Rightarrow>
     fifo_op list \<Rightarrow> 'b \<Rightarrow> (byte list \<times> 'b) result" where
  "fifo_run put get [] b = Inr ([], b)"
| "fifo_run put get (Put xs # ops) b = rbind (put xs b) (fifo_run put get ops)"
| "fifo_run put get (Take n # ops) b =
     rbind (get n b) (\<lambda>(ys, b'). rbind (fifo_run put get ops b') (\<lambda>(zs, b''). Inr (ys @ zs, b'')))"

fun fifo_input :: "fifo_op list \<Rightarrow> byte list" where
  "fifo_input [] = []"
| "fifo_input (Put xs # ops) = xs @ fifo_input ops"
| "fifo_input (Take n # ops) = fifo_input ops"

fun chunks_le :: "nat \<Rightarrow> fifo_op list \<Rightarrow> bool" where
  "chunks_le m [] = True"
| "chunks_le m (Put xs # ops) = (length xs \<le> m \<and> chunks_le m ops)"
| "chunks_le m (Take n # ops) = chunks_le m ops"

text \<open>The queue itself: a list of bytes. Taking more than there is has no result.\<close>

fun fifo_spec :: "fifo_op list \<Rightarrow> byte list \<Rightarrow> (byte list \<times> byte list) option" where
  "fifo_spec [] xs = Some ([], xs)"
| "fifo_spec (Put ys # ops) xs = fifo_spec ops (xs @ ys)"
| "fifo_spec (Take n # ops) xs =
     (if n \<le> length xs then map_option (\<lambda>(out, rest). (take n xs @ out, rest)) (fifo_spec ops (drop n xs)) else None)"

lemma fifo_spec_stream: "fifo_spec ops xs = Some (out, rest) \<Longrightarrow> out @ rest = xs @ fifo_input ops"
proof (induction ops xs arbitrary: out rule: fifo_spec.induct)
  case (3 n ops xs)
  then obtain out' where "n \<le> length xs" "fifo_spec ops (drop n xs) = Some (out', rest)" "out = take n xs @ out'"
    by (auto split: if_splits)
  then show ?case using "3.IH" by (metis append.assoc append_take_drop_id fifo_input.simps(3))
qed auto

locale byte_fifo =
  fixes good :: "'b \<Rightarrow> bool"
    and bytes :: "'b \<Rightarrow> byte list"
    and used :: "'b \<Rightarrow> nat"
    and put :: "byte list \<Rightarrow> 'b \<Rightarrow> 'b result"
    and get :: "nat \<Rightarrow> 'b \<Rightarrow> (byte list \<times> 'b) result"
    and room :: nat
  assumes put_ok: "good b \<Longrightarrow> length xs \<le> room \<Longrightarrow> case put xs b of
        Inl e \<Rightarrow> e = LengthError \<and> room < used b + length xs
      | Inr b' \<Rightarrow> good b' \<and> bytes b' = bytes b @ xs \<and> used b' \<le> used b + length xs"
    and get_ok: "good b \<Longrightarrow> case get n b of
        Inl e \<Rightarrow> e = AssertFail \<and> length (bytes b) < n
      | Inr (ys, b') \<Rightarrow> n \<le> length (bytes b) \<and> good b' \<and> ys = take n (bytes b) \<and> bytes b' = drop n (bytes b) \<and> used b' \<le> used b"
begin

lemma run_refines:
  "good b \<Longrightarrow> chunks_le room ops \<Longrightarrow>
     case fifo_run put get ops b of
       Inl e \<Rightarrow> e = LengthError \<and> room < used b + length (fifo_input ops) \<or> e = AssertFail \<and> fifo_spec ops (bytes b) = None
     | Inr (out, b') \<Rightarrow> good b' \<and> fifo_spec ops (bytes b) = Some (out, bytes b')"
proof (induction ops arbitrary: b)
  case (Cons x ops)
  show ?case
  proof (cases x)
    case (Put xs)
    then have xs: "length xs \<le> room" "chunks_le room ops" using Cons.prems(2) by simp_all
    show ?thesis
    proof (cases "put xs b")
      case (Inl e)
      then show ?thesis using put_ok [OF Cons.prems(1) xs(1)] Put by simp
    next
      case (Inr b1)
      then have b1: "good b1" "bytes b1 = bytes b @ xs" "used b1 \<le> used b + length xs"
        using put_ok [OF Cons.prems(1) xs(1)] by simp_all
      show ?thesis using Cons.IH [OF b1(1) xs(2)] Put Inr b1(2,3) by (auto split: sum.splits)
    qed
  next
    case (Take n)
    show ?thesis
    proof (cases "get n b")
      case (Inl e)
      then show ?thesis using get_ok [OF Cons.prems(1), of n] Take by simp
    next
      case (Inr r)
      obtain ys b1 where r: "r = (ys, b1)" by (cases r)
      have b1: "n \<le> length (bytes b)" "good b1" "ys = take n (bytes b)" "bytes b1 = drop n (bytes b)" "used b1 \<le> used b"
        using get_ok [OF Cons.prems(1), of n] Inr r by simp_all
      have ops: "chunks_le room ops" using Cons.prems(2) Take by simp
      show ?thesis
        using Cons.IH [OF b1(2) ops] Take Inr r b1
        by (cases "fifo_run put get ops b1") auto
    qed
  qed
qed simp

end

interpretation nb: byte_fifo wf_buffer content "\<lambda>b. length (buf b)" append retrieveAsString vec_max_size
proof
  show "case append xs b of
      Inl e \<Rightarrow> e = LengthError \<and> vec_max_size < length (buf b) + length xs
    | Inr b' \<Rightarrow> wf_buffer b' \<and> content b' = content b @ xs \<and> length (buf b') \<le> length (buf b) + length xs"
    if "wf_buffer b" "length xs \<le> vec_max_size" for b xs
    using append_spec [OF that] wf_bufferD [OF that(1)] by (cases "append xs b") auto
  show "case retrieveAsString n b of
      Inl e \<Rightarrow> e = AssertFail \<and> length (content b) < n
    | Inr (ys, b') \<Rightarrow> n \<le> length (content b) \<and> wf_buffer b' \<and> ys = take n (content b) \<and>
        content b' = drop n (content b) \<and> length (buf b') \<le> length (buf b)"
    if "wf_buffer b" for b n
    using retrieve_spec [OF that, of n] that
    by (cases "retrieve n b") (auto simp: retrieveAsString_def Let_def peek_content cassert_def)
qed

section \<open>Reading from a descriptor\<close>

lemma readFd_spec:
  assumes wf: "wf_buffer b" and room: "length bytes \<le> readv_room b"
  shows "case readFd (ReadOk bytes) b of
      Inl e \<Rightarrow> e = LengthError \<and> vec_max_size < length (buf b) + (length bytes - writableBytes b)
    | Inr (n, b') \<Rightarrow> n = int (length bytes) \<and> wf_buffer b' \<and> content b' = content b @ bytes"
proof -
  note bnd = wf_bufferD [OF wf]
  define w where "w = length (buf b) - writerIdx b"
  have w: "writableBytes b = w" "writerIdx b + w = length (buf b)"
    using wf bnd by (simp_all add: w_def writable_wf)
  define b1 where "b1 = b\<lparr>buf := write_at (buf b) (writerIdx b) (take w bytes)\<rparr>"
  have sl: "slice (buf b1) (readerIdx b) (writerIdx b + length (take w bytes)) = content b @ take w bytes"
    using slice_write_at [of "readerIdx b" "writerIdx b" "take w bytes" "buf b"] bnd w
    by (simp add: b1_def content_def)
  have lb1: "length (buf b1) = length (buf b)"
    using bnd w by (simp add: b1_def)
  show ?thesis
  proof (cases "length bytes \<le> w")
    case True
    then show ?thesis
      using room bnd w sl lb1 unfolding readFd_def Let_def
      by (simp add: b1_def [symmetric]) (simp add: b1_def wf_buffer_def content_def)
  next
    case False
    define b2 where "b2 = b1\<lparr>writerIdx := length (buf b1)\<rparr>"
    have wf2: "wf_buffer b2"
      using bnd by (simp add: b2_def wf_buffer_def lb1) (simp add: b1_def)
    have c2: "content b2 = content b @ take w bytes"
      using sl False w by (simp add: b2_def content_def lb1) (simp add: b1_def)
    have fd: "readFd (ReadOk bytes) b = rbind (append (drop w bytes) b2) (\<lambda>b3. Inr (int (length bytes), b3))"
      using False room w by (simp add: readFd_def Let_def b1_def [symmetric] b2_def)
    have "length (drop w bytes) \<le> vec_max_size"
      using room False w bnd by (simp add: readv_room_def Let_def ExtraBufSize_def vec_max_size_def split: if_splits)
    from append_spec [OF wf2 this] show ?thesis
      unfolding fd using c2 lb1 w
      by (cases "append (drop w bytes) b2") (simp_all add: b2_def)
  qed
qed

section \<open>Properties\<close>

text \<open>Every public operation of the buffer, as its callers may use it: they retrieve what is there and hand over
  what fits an object.\<close>

datatype buffer_op =
    BAppend "byte list" | BEnsureWritable nat | BHasWritten nat | BReadFd sysread
  | BRetrieve nat | BRetrieveAll | BRetrieveAsString nat | BRetrieveAllAsString

fun buffer_exec :: "buffer_op \<Rightarrow> buffer \<Rightarrow> buffer result" where
  "buffer_exec (BAppend data) b = append data b"
| "buffer_exec (BEnsureWritable len) b = ensureWritableBytes len b"
| "buffer_exec (BHasWritten len) b = hasWritten len b"
| "buffer_exec (BReadFd rv) b = rbind (readFd rv b) (\<lambda>(n, b'). Inr b')"
| "buffer_exec (BRetrieve len) b = retrieve len b"
| "buffer_exec BRetrieveAll b = Inr (retrieveAll b)"
| "buffer_exec (BRetrieveAsString len) b = rbind (retrieveAsString len b) (\<lambda>(s, b'). Inr b')"
| "buffer_exec BRetrieveAllAsString b = rbind (retrieveAllAsString b) (\<lambda>(s, b'). Inr b')"

fun buffer_allowed :: "buffer_op \<Rightarrow> buffer \<Rightarrow> bool" where
  "buffer_allowed (BAppend data) b \<longleftrightarrow> length data \<le> vec_max_size"
| "buffer_allowed (BEnsureWritable len) b \<longleftrightarrow> len \<le> vec_max_size"
| "buffer_allowed (BHasWritten len) b \<longleftrightarrow> len \<le> writableBytes b"
| "buffer_allowed (BReadFd rv) b \<longleftrightarrow> (case rv of ReadErr \<Rightarrow> True | ReadOk bytes \<Rightarrow> length bytes \<le> readv_room b)"
| "buffer_allowed (BRetrieve len) b \<longleftrightarrow> len \<le> readableBytes b"
| "buffer_allowed (BRetrieveAsString len) b \<longleftrightarrow> len \<le> readableBytes b"
| "buffer_allowed _ b \<longleftrightarrow> True"

lemma ensureWritable_wf:
  assumes "wf_buffer b" "len \<le> vec_max_size"
  shows "case ensureWritableBytes len b of Inl e \<Rightarrow> e = LengthError | Inr b' \<Rightarrow> wf_buffer b'"
proof (cases "writableBytes b < len")
  case True
  then show ?thesis
    using makeSpace_spec [OF assms(1) True assms(2)] by (cases "makeSpace len b") (simp_all add: ensureWritableBytes_def)
qed (use assms in \<open>simp add: ensureWritableBytes_def\<close>)

lemma hasWritten_wf:
  assumes "wf_buffer b" "len \<le> writableBytes b"
  shows "\<exists>b'. hasWritten len b = Inr b' \<and> wf_buffer b'"
proof -
  have "writerIdx b + len \<le> length (buf b)" using assms wf_bufferD [OF assms(1)] by (simp add: writable_wf)
  moreover from this have "size_add (writerIdx b) len = writerIdx b + len"
    using wf_bufferD(4) [OF assms(1)] by (intro size_add_small) simp
  ultimately show ?thesis using assms wf_bufferD [OF assms(1)] by (simp add: hasWritten_def wf_buffer_def)
qed

interpretation bo: legal_system buffer_exec buffer_allowed wf_buffer "\<lambda>e. e = LengthError"
proof
  fix x b
  assume wf: "wf_buffer b" and ok: "buffer_allowed x b"
  show "case buffer_exec x b of Inl e \<Rightarrow> e = LengthError | Inr b' \<Rightarrow> wf_buffer b'"
  proof (cases x)
    case (BAppend data)
    then show ?thesis using append_spec [OF wf, of data] ok by (cases "append data b") simp_all
  next
    case (BEnsureWritable len)
    then show ?thesis using ensureWritable_wf [OF wf] ok by simp
  next
    case (BHasWritten len)
    then show ?thesis using hasWritten_wf [OF wf, of len] ok by auto
  next
    case (BReadFd rv)
    show ?thesis
    proof (cases rv)
      case (ReadOk bytes)
      then show ?thesis
        using readFd_spec [OF wf, of bytes] ok BReadFd by (cases "readFd rv b") auto
    qed (use wf BReadFd in \<open>simp add: readFd_def Let_def\<close>)
  next
    case (BRetrieve len)
    then show ?thesis using retrieve_spec [OF wf, of len] wf ok by (cases "retrieve len b") simp_all
  next
    case (BRetrieveAsString len)
    then show ?thesis using retrieveAsString_spec [OF wf, of len] wf ok by (cases "retrieveAsString len b") auto
  next
    case BRetrieveAllAsString
    then show ?thesis
      using retrieveAsString_spec [OF wf, of "length (content b)"] wf
      by (cases "retrieveAsString (length (content b)) b") (auto simp: retrieveAllAsString_def)
  qed (use wf_retrieveAll wf in simp)
qed

text \<open>C32: the type of a buffer, as the picture in \<open>Buffer.h\<close> draws it. Whatever sequence of its public
  operations is run on a new buffer, the indices stay in order inside the vector, and the prependable, readable
  and writable bytes are exactly the vector; no index wraps around. Only \<open>std::length_error\<close> can end it.\<close>

theorem buffer_indices:
  assumes "n \<le> vec_max_size" and "legal_run buffer_exec buffer_allowed ops (buffer_new n)"
  shows "case rfold buffer_exec ops (buffer_new n) of
      Inl e \<Rightarrow> e = LengthError
    | Inr b \<Rightarrow> kCheapPrepend \<le> readerIdx b \<and> readerIdx b \<le> writerIdx b \<and> writerIdx b \<le> length (buf b) \<and>
        length (buf b) \<le> vec_max_size \<and> prependableBytes b + readableBytes b + writableBytes b = length (buf b)"
proof (cases "rfold buffer_exec ops (buffer_new n)")
  case (Inr b)
  then have wf: "wf_buffer b" using bo.history [OF wf_buffer_new [OF assms(1)] assms(2)] by simp
  then show ?thesis
    using Inr wf_bufferD [OF wf] by (simp add: kCheapPrepend_def prependableBytes_def writable_wf length_content)
qed (use bo.history [OF wf_buffer_new [OF assms(1)] assms(2)] in simp)

theorem buffer_indices_witness:
  "\<exists>b. rfold buffer_exec [BAppend [1, 2, 3], BRetrieve 1, BAppend [4]] (buffer_new 4) = Inr b \<and>
     prependableBytes b + readableBytes b + writableBytes b = length (buf b) \<and> length (buf b) = 4"
proof -
  let ?ops = "[BAppend [1, 2, 3], BRetrieve 1, BAppend [4 :: byte]]"
  have four: "replicate 4 (0 :: byte) = [0, 0, 0, 0]" by (simp add: eval_nat_numeral)
  note run = four append_def ensureWritableBytes_def hasWritten_def writableBytes_def readableBytes_def retrieve_def buffer_new_def
    kCheapPrepend_def write_at_def vec_max_size_def
  have legal: "legal_run buffer_exec buffer_allowed ?ops (buffer_new 4)" by (simp add: run)
  have "\<exists>b. rfold buffer_exec ?ops (buffer_new 4) = Inr b \<and> length (buf b) = 4" by (simp add: run)
  then obtain b where b: "rfold buffer_exec ?ops (buffer_new 4) = Inr b" "length (buf b) = 4" by blast
  from buffer_indices [OF _ legal] b show ?thesis by (simp add: vec_max_size_def)
qed

text \<open>\<open>readFd\<close> on every branch: an error leaves the buffer alone and
  returns -1; otherwise the bytes \<open>readv\<close> scattered over the buffer and the stack
  array become the new end of the readable bytes, in order and without loss.\<close>

theorem buffer_readFd_stream:
  assumes "wf_buffer b" and "\<And>bytes. rv = ReadOk bytes \<Longrightarrow> length bytes \<le> readv_room b"
  shows "case rv of
      ReadErr \<Rightarrow> readFd rv b = Inr (-1, b)
    | ReadOk bytes \<Rightarrow>
        (case readFd rv b of
           Inl e \<Rightarrow> e = LengthError \<and>
             vec_max_size < length (buf b) + (length bytes - writableBytes b)
         | Inr (n, b') \<Rightarrow> n = int (length bytes) \<and> wf_buffer b' \<and> content b' = content b @ bytes)"
proof (cases rv)
  case ReadErr
  then show ?thesis by (simp add: readFd_def)
next
  case (ReadOk bytes)
  then show ?thesis using readFd_spec [OF assms(1,2)] by simp
qed

theorem buffer_readFd_stream_witness:
  "\<exists>b'. readFd (ReadOk [1, 2, 3]) (buffer_new 2) = Inr (3, b') \<and> content b' = [1, 2, 3]"
proof -
  have *: "wf_buffer (buffer_new 2)"
    by (simp add: wf_buffer_new vec_max_size_def)
  have r: "length [1, 2, 3 :: byte] \<le> readv_room (buffer_new 2)"
    by (simp add: readv_room_def Let_def ExtraBufSize_def writableBytes_def buffer_new_def kCheapPrepend_def)
  show ?thesis
    using buffer_readFd_stream [OF *, of "ReadOk [1, 2, 3]"] r
    by (cases "readFd (ReadOk [1, 2, 3]) (buffer_new 2)")
      (auto simp: buffer_new_def vec_max_size_def kCheapPrepend_def content_def slice_def)
qed

text \<open>C25: the buffer refines a queue of bytes: over any sequence of appends and retrievals it returns the bytes
  the queue does and is left with those it has, so that what was taken out followed by what is readable is what was readable
  at first followed by what was put in. It fails only where the queue has too few bytes, or when the
  vector it needs is over \<open>max_size\<close>.\<close>

theorem buffer_fifo:
  assumes "wf_buffer b" and "chunks_le vec_max_size ops"
  shows "case fifo_run append retrieveAsString ops b of
      Inl e \<Rightarrow> e = LengthError \<and> vec_max_size < length (buf b) + length (fifo_input ops) \<or>
        e = AssertFail \<and> fifo_spec ops (content b) = None
    | Inr (out, b') \<Rightarrow> wf_buffer b' \<and> fifo_spec ops (content b) = Some (out, content b') \<and>
        out @ content b' = content b @ fifo_input ops"
  using nb.run_refines [OF assms]
  by (cases "fifo_run append retrieveAsString ops b") (auto dest: fifo_spec_stream)

theorem buffer_fifo_witness:
  "\<exists>out b'. fifo_run append retrieveAsString [Put [1, 2, 3], Take 2, Put [4, 5]] (buffer_new 4)
       = Inr (out, b') \<and> out = [1, 2] \<and> content b' = [3, 4, 5]"
proof -
  let ?ops = "[Put [1, 2, 3], Take 2, Put [4, 5 :: byte]]"
  have *: "wf_buffer (buffer_new 4)" "chunks_le vec_max_size ?ops"
    by (simp_all add: wf_buffer_new vec_max_size_def)
  have "length (buf (buffer_new 4)) = 4" by (simp add: buffer_new_def kCheapPrepend_def)
  then show ?thesis
    using buffer_fifo [OF *]
    by (cases "fifo_run append retrieveAsString ?ops (buffer_new 4)") (auto simp: vec_max_size_def)
qed

text \<open>one \<open>readFd\<close> with the extra stack array reads at most
  65534 + 65535 = 131069 bytes. The comment in \<open>Buffer.cpp\<close> promises "128k-1 bytes at
  most" (131071), which is what an \<open>extraBuf\<close> of 65536 bytes would give.\<close>

theorem buffer_readFd_room:
  assumes "wf_buffer b"
  shows "readv_room b = writableBytes b + (if writableBytes b < 65535 then 65535 else 0) \<and>
    (writableBytes b < 65535 \<longrightarrow> readv_room b \<le> 131069) \<and> 131069 < 128 * 1024 - (1 :: nat)"
  by (simp add: readv_room_def Let_def ExtraBufSize_def)

theorem buffer_readFd_room_witness:
  "readv_room (buffer_new 65534) = 131069"
  using buffer_readFd_room [OF wf_buffer_new [of 65534]]
  by (simp add: vec_max_size_def writableBytes_def buffer_new_def kCheapPrepend_def)

end
