(* ===== verification/Decimal.thy ===== *)
theory Decimal
  imports Prelude
begin

text \<open>
  Decimal printing as the program uses it: \<open>std::to_string\<close> for connection names,
  and the \<open>printf\<close> conversions of \<open>Timestamp::toString\<close>. Reading a printed
  number gives it back, so printing is injective.
\<close>

definition digit_char :: "nat \<Rightarrow> char" where
  "digit_char d = char_of (48 + d)"

definition char_digit :: "char \<Rightarrow> nat" where
  "char_digit c = of_char c - 48"

fun dec_nat :: "nat \<Rightarrow> string" where
  "dec_nat n = (if n < 10 then [digit_char n] else dec_nat (n div 10) @ [digit_char (n mod 10)])"

declare dec_nat.simps [simp del]

text \<open>\<open>std::to_string\<close> and \<open>%ld\<close>.\<close>

definition to_string :: "int \<Rightarrow> string" where
  "to_string i = (if i < 0 then ''-'' @ dec_nat (nat (- i)) else dec_nat (nat i))"

text \<open>\<open>%0wld\<close>: zeros between the sign and the digits up to the width.\<close>

definition zero_padded :: "nat \<Rightarrow> int \<Rightarrow> string" where
  "zero_padded w i =
     (let sign = (if i < 0 then ''-'' else ''''); ds = dec_nat (nat \<bar>i\<bar>)
      in sign @ replicate (w - length sign - length ds) (digit_char 0) @ ds)"

definition read_dec :: "string \<Rightarrow> nat" where
  "read_dec s = foldl (\<lambda>a c. a * 10 + char_digit c) 0 s"

lemma char_digit_char [simp]: "d < 10 \<Longrightarrow> char_digit (digit_char d) = d"
  by (simp add: char_digit_def digit_char_def)

lemma read_dec_dec_nat [simp]: "read_dec (dec_nat n) = n"
proof (induction n rule: dec_nat.induct)
  case (1 n)
  show ?case
  proof (cases "n < 10")
    case True
    then show ?thesis by (simp add: dec_nat.simps [of n] read_dec_def)
  next
    case False
    then have "read_dec (dec_nat n) = read_dec (dec_nat (n div 10)) * 10 + n mod 10"
      by (simp add: dec_nat.simps [of n] read_dec_def)
    with "1.IH" False show ?thesis by simp
  qed
qed

lemma dec_nat_inj: "dec_nat m = dec_nat n \<longleftrightarrow> m = n"
  by (metis read_dec_dec_nat)

lemma dec_nat_digits: "c \<in> set (dec_nat n) \<Longrightarrow> \<exists>d < 10. c = digit_char d"
proof (induction n rule: dec_nat.induct)
  case (1 n)
  show ?case
  proof (cases "n < 10")
    case True
    with "1.prems" show ?thesis by (auto simp: dec_nat.simps [of n])
  next
    case False
    with "1.prems" consider "c \<in> set (dec_nat (n div 10))" | "c = digit_char (n mod 10)"
      by (auto simp: dec_nat.simps [of n])
    then show ?thesis
      using "1.IH" False by cases (auto intro: exI [of _ "n mod 10"])
  qed
qed

lemma digit_char_not_minus: "d < 10 \<Longrightarrow> digit_char d \<noteq> CHR ''-''"
proof
  assume d: "d < 10" and "digit_char d = CHR ''-''"
  then have "of_char (digit_char d) = (of_char (CHR ''-'') :: nat)" by simp
  then show False using d by (simp add: digit_char_def of_char_of)
qed

lemma dec_nat_no_minus: "CHR ''-'' \<notin> set (dec_nat n)"
  using dec_nat_digits digit_char_not_minus by metis

lemma length_dec_nat: "n < 10 ^ Suc k \<Longrightarrow> length (dec_nat n) \<le> Suc k"
proof (induction k arbitrary: n)
  case 0
  then show ?case by (simp add: dec_nat.simps [of n])
next
  case (Suc k)
  show ?case
  proof (cases "n < 10")
    case True
    then show ?thesis by (simp add: dec_nat.simps [of n])
  next
    case False
    have "n div 10 < 10 ^ Suc k"
      using Suc.prems by (simp add: less_mult_imp_div_less mult.commute)
    from Suc.IH [OF this] show ?thesis
      using False by (simp add: dec_nat.simps [of n])
  qed
qed

lemma to_string_inj: "to_string i = to_string j \<longleftrightarrow> i = j"
proof -
  have no: "dec_nat m \<noteq> CHR ''-'' # s" for m s
    using dec_nat_no_minus [of m] by (metis list.set_intros(1))
  show ?thesis
    by (auto simp: to_string_def dec_nat_inj no no [symmetric] split: if_splits)
qed

lemma read_dec_zeros: "read_dec (replicate k (digit_char 0) @ s) = read_dec s"
proof -
  have "foldl (\<lambda>a c. a * 10 + char_digit c) 0 (replicate k (digit_char 0)) = 0"
    by (induction k) simp_all
  then show ?thesis by (simp add: read_dec_def)
qed

end
