(* ===== verification/Timestamp.thy ===== *)
theory Timestamp
  imports Decimal "HOL-Library.Signed_Division"
begin

text \<open>
  \<open>net/utils/Timestamp.h\<close>, \<open>net/utils/Timestamp.cpp\<close> and the clock arithmetic of
  \<open>net/TimerQueue.cpp\<close> (\<open>howMuchTimeFromNow\<close>). A \<open>Timestamp\<close> is its \<open>int64_t\<close> count of
  microseconds. \<open>getNow\<close> multiplies two 32-bit \<open>int\<close>s; the product is written with
  the width it has. A \<open>double\<close> is the dyadic number it stands for, and the product
  of a \<open>double\<close> with 1000000 is rounded to 53 bits, ties to even.
\<close>

section \<open>Doubles\<close>

text \<open>\<open>Dbl m e\<close> is \<open>m * 2 ^ e\<close>; the finite, normal values with 53 bits of mantissa.\<close>

datatype dbl = Dbl (mantissa: int) (exponent: int)

definition dbl_ok :: "dbl \<Rightarrow> bool" where
  "dbl_ok d \<longleftrightarrow> \<bar>mantissa d\<bar> < 2 ^ 53"

definition dbl_positive :: "dbl \<Rightarrow> bool" where
  "dbl_positive d \<longleftrightarrow> 0 < mantissa d"

fun bit_count :: "nat \<Rightarrow> nat" where
  "bit_count n = (if n = 0 then 0 else Suc (bit_count (n div 2)))"

declare bit_count.simps [simp del]

text \<open>The nearest multiple of \<open>2 ^ k\<close>, where \<open>k\<close> is how many bits exceed 53.\<close>

definition round53 :: "int \<Rightarrow> int" where
  "round53 m =
     (let a = nat \<bar>m\<bar>; k = bit_count a - 53; q = a div 2 ^ k; r = a mod 2 ^ k;
          q' = (if 2 ^ k < 2 * r \<or> (2 ^ k = 2 * r \<and> odd q) then q + 1 else q)
      in if k = 0 then m else sgn m * int (q' * 2 ^ k))"

definition dbl_times_int :: "dbl \<Rightarrow> int \<Rightarrow> dbl" where
  "dbl_times_int d n = Dbl (round53 (mantissa d * n)) (exponent d)"

text \<open>\<open>static_cast<int64_t>\<close>: towards zero.\<close>

definition dbl_to_int :: "dbl \<Rightarrow> int" where
  "dbl_to_int d =
     (if 0 \<le> exponent d then mantissa d * 2 ^ nat (exponent d)
      else mantissa d sdiv 2 ^ nat (- exponent d))"

section \<open>Timestamps\<close>

type_synonym timestamp = int

definition kMicroSecondsPerSecond :: int where
  "kMicroSecondsPerSecond = 1000 * 1000"

definition is_int64 :: "int \<Rightarrow> bool" where
  "is_int64 x \<longleftrightarrow> - (2 ^ 63) \<le> x \<and> x < 2 ^ 63"

definition is_int32 :: "int \<Rightarrow> bool" where
  "is_int32 x \<longleftrightarrow> - (2 ^ 31) \<le> x \<and> x < 2 ^ 31"

text \<open>The value of a 32-bit two's complement register.\<close>

definition to_int32 :: "int \<Rightarrow> int" where
  "to_int32 x = sint (word_of_int x :: 32 word)"

definition getInvalid :: timestamp where
  "getInvalid = 0"

definition isValid :: "timestamp \<Rightarrow> bool" where
  "isValid t \<longleftrightarrow> 0 < t"

definition secondsSinceEpoch :: "timestamp \<Rightarrow> int" where
  "secondsSinceEpoch t = t sdiv kMicroSecondsPerSecond"

definition less_timestamp :: "timestamp \<Rightarrow> timestamp \<Rightarrow> bool" where
  "less_timestamp lhs rhs \<longleftrightarrow> lhs < rhs"

definition addTime :: "timestamp \<Rightarrow> dbl \<Rightarrow> timestamp" where
  "addTime t seconds = t + dbl_to_int (dbl_times_int seconds kMicroSecondsPerSecond)"

text \<open>
  \<open>getNow\<close> from the \<open>timeval\<close> of \<open>gettimeofday\<close>: \<open>int seconds = tv.tv_sec\<close> narrows, and
  \<open>seconds * kMicroSecondsPerSecond\<close> is a product of two \<open>int\<close>s, undefined when it
  does not fit (\<open>getNow_defined\<close>) and the low 32 bits on the target.
\<close>

definition getNow_defined :: "int \<Rightarrow> bool" where
  "getNow_defined tv_sec \<longleftrightarrow> is_int32 (to_int32 tv_sec * kMicroSecondsPerSecond)"

definition getNow :: "int \<Rightarrow> int \<Rightarrow> timestamp" where
  "getNow tv_sec tv_usec =
     (let seconds = to_int32 tv_sec in to_int32 (seconds * kMicroSecondsPerSecond) + tv_usec)"

text \<open>\<open>snprintf(buf, 32, ...)\<close> keeps at most 31 characters.\<close>

definition toString :: "timestamp \<Rightarrow> string" where
  "toString t =
     (let seconds = t sdiv kMicroSecondsPerSecond; microseconds = t smod kMicroSecondsPerSecond
      in take 31 (to_string seconds @ ''.'' @ zero_padded 6 microseconds))"

text \<open>\<open>howMuchTimeFromNow\<close>: the pair \<open>(tv_sec, tv_nsec)\<close>.\<close>

definition howMuchTimeFromNow :: "timestamp \<Rightarrow> timestamp \<Rightarrow> int \<times> int" where
  "howMuchTimeFromNow now when =
     (let microseconds = when - now;
          microseconds = (if microseconds < 100 then 100 else microseconds)
      in (microseconds sdiv kMicroSecondsPerSecond,
          (microseconds smod kMicroSecondsPerSecond) * 1000))"

section \<open>Clock lemmas\<close>

lemma bit_count_le: "a < 2 ^ k \<Longrightarrow> bit_count a \<le> k"
proof (induction k arbitrary: a)
  case 0
  then show ?case by (simp add: bit_count.simps)
next
  case (Suc k)
  then have "bit_count (a div 2) \<le> k" by (intro Suc.IH) auto
  then show ?case by (simp add: bit_count.simps [of a])
qed

lemma round53_exact: "\<bar>m\<bar> < 2 ^ 53 \<Longrightarrow> round53 m = m"
  using bit_count_le [of "nat \<bar>m\<bar>" 53] by (simp add: round53_def Let_def nat_less_iff)

lemma round53_nonneg: "0 \<le> m \<Longrightarrow> 0 \<le> round53 m"
  by (auto simp: round53_def Let_def sgn_if)

lemma sdiv_nonneg [simp]: "0 \<le> t \<Longrightarrow> 0 < k \<Longrightarrow> (t :: int) sdiv k = t div k"
  by (cases "t = 0") (simp_all add: signed_divide_int_def)

lemma smod_nonneg [simp]: "0 \<le> t \<Longrightarrow> 0 < k \<Longrightarrow> (t :: int) smod k = t mod k"
  by (cases "t = 0") (simp_all add: signed_modulo_int_def)

lemma dbl_to_int_nonneg: "0 \<le> mantissa d \<Longrightarrow> 0 \<le> dbl_to_int d"
  by (simp add: dbl_to_int_def pos_imp_zdiv_nonneg_iff)

lemma addTime_ge: "dbl_positive d \<Longrightarrow> t \<le> addTime t d"
  by (simp add: addTime_def dbl_positive_def dbl_times_int_def dbl_to_int_nonneg round53_nonneg
      kMicroSecondsPerSecond_def)

lemma addTime_exact:
  "\<bar>mantissa d * 1000000\<bar> < 2 ^ 53 \<Longrightarrow>
     addTime t d = t + dbl_to_int (Dbl (mantissa d * 1000000) (exponent d))"
  by (simp add: addTime_def dbl_times_int_def round53_exact kMicroSecondsPerSecond_def)

lemma to_int32_small: "is_int32 x \<Longrightarrow> to_int32 x = x"
  by (simp add: to_int32_def is_int32_def signed_of_int signed_take_bit_int_eq_self)

lemma to_int32_range: "is_int32 (to_int32 x)"
  using sint_greater_eq [of "word_of_int x :: 32 word"] sint_lt [of "word_of_int x :: 32 word"]
  by (simp add: to_int32_def is_int32_def)

lemma to_int32_wraps:
  assumes "2 ^ 31 \<le> x"
  shows "to_int32 x < x"
proof -
  have "to_int32 x < 2 ^ 31"
    using to_int32_range [of x] by (simp add: is_int32_def)
  with assms show ?thesis by simp
qed

lemma micro_not_neg [simp]: "\<not> (t :: int) mod 1000000 < 0"
  by (simp add: not_less)

text \<open>The parts of \<open>toString\<close> for a time after the epoch, and their lengths.\<close>

lemma toString_parts:
  assumes "0 \<le> t" "is_int64 t"
  shows "toString t = to_string (t div 1000000) @ ''.'' @ zero_padded 6 (t mod 1000000)"
    and "length (zero_padded 6 (t mod 1000000)) = 6"
proof -
  have "length (dec_nat (nat (t mod 1000000))) \<le> 6"
    using length_dec_nat [of "nat (t mod 1000000)" 5] by (simp add: nat_less_iff)
  then show pad: "length (zero_padded 6 (t mod 1000000)) = 6"
    by (simp add: zero_padded_def Let_def)
  have "t div 1000000 < 10 ^ 13"
    using assms by (simp add: is_int64_def)
  then have "length (to_string (t div 1000000)) \<le> 13"
    using length_dec_nat [of "nat (t div 1000000)" 12] assms(1)
    by (simp add: to_string_def nat_less_iff pos_imp_zdiv_neg_iff)
  with pad show "toString t = to_string (t div 1000000) @ ''.'' @ zero_padded 6 (t mod 1000000)"
    using assms(1) by (simp add: toString_def Let_def kMicroSecondsPerSecond_def)
qed

section \<open>Properties\<close>

text \<open>C39: \<open>getNow\<close> returns the wall clock exactly during the first 2147 seconds
  after the epoch and at no later time: \<open>seconds * kMicroSecondsPerSecond\<close> is a
  product of two 32-bit \<open>int\<close>s, which overflows from second 2148 on.\<close>

theorem getNow_exact_iff:
  assumes "0 \<le> tv_sec" and "tv_sec < 2 ^ 31"
  shows "(getNow tv_sec tv_usec = tv_sec * 1000000 + tv_usec \<longleftrightarrow> tv_sec \<le> 2147) \<and>
    (getNow_defined tv_sec \<longleftrightarrow> tv_sec \<le> 2147)"
proof -
  have sec: "to_int32 tv_sec = tv_sec"
    using assms by (intro to_int32_small) (simp add: is_int32_def)
  show ?thesis
  proof (cases "tv_sec \<le> 2147")
    case True
    then have "is_int32 (tv_sec * 1000000)"
      using assms by (simp add: is_int32_def)
    then show ?thesis
      using True by (simp add: getNow_def getNow_defined_def sec kMicroSecondsPerSecond_def to_int32_small)
  next
    case False
    then have "2 ^ 31 \<le> tv_sec * 1000000" by simp
    from to_int32_wraps [OF this] this show ?thesis
      using False by (simp add: getNow_def getNow_defined_def sec kMicroSecondsPerSecond_def is_int32_def)
  qed
qed

theorem getNow_exact_iff_witness:
  "getNow 1700000000 0 \<noteq> 1700000000 * 1000000 \<and> getNow 2147 999999 = 2147999999"
  using getNow_exact_iff [of 1700000000 0] getNow_exact_iff [of 2147 999999] by simp

text \<open>one second after the last exact reading the clock is negative, so it runs
  backwards and its timestamps are not even valid ones.\<close>

theorem getNow_not_monotone:
  "getNow 2148 0 < getNow 2147 0 \<and> \<not> isValid (getNow 2148 0) \<and> isValid (getNow 2147 0)"
  by (simp add: getNow_def to_int32_def kMicroSecondsPerSecond_def isValid_def signed_of_int
      signed_take_bit_eq_if_positive signed_take_bit_rec take_bit_rec)

text \<open>the timeout programmed for a deadline is never zero (which would disarm
  the \<open>timerfd\<close>), is at least 100 microseconds, is exact otherwise, and its
  nanosecond part is in the range \<open>timerfd_settime\<close> accepts.\<close>

theorem howMuchTimeFromNow_timespec:
  "case howMuchTimeFromNow now when of (sec, nsec) \<Rightarrow>
     0 \<le> sec \<and> 0 \<le> nsec \<and> nsec < 1000000000 \<and> (sec, nsec) \<noteq> (0, 0) \<and>
     sec * 1000000000 + nsec = max 100 (when - now) * 1000"
proof -
  define us where "us = max 100 (when - now)"
  have "howMuchTimeFromNow now when = (us div 1000000, (us mod 1000000) * 1000)"
    by (simp add: howMuchTimeFromNow_def Let_def us_def kMicroSecondsPerSecond_def max_def)
  moreover have "100 \<le> us" by (simp add: us_def)
  moreover have "us mod 1000000 < 1000000" "0 \<le> us mod 1000000" "0 \<le> us div 1000000"
    using \<open>100 \<le> us\<close> by (simp_all add: pos_imp_zdiv_nonneg_iff)
  moreover have "us div 1000000 * 1000000 + us mod 1000000 = us"
    by simp
  ultimately show ?thesis
    by (simp add: us_def [symmetric]) arith
qed

text \<open>\<open>toString\<close> of a time after the epoch is never cut short by the 32-byte
  buffer, has exactly six digits after the point, and reads back as the same time.\<close>

theorem toString_roundtrip:
  assumes "0 \<le> t" and "is_int64 t"
  shows "\<exists>s u. toString t = s @ ''.'' @ u \<and> length u = 6 \<and> length (toString t) \<le> 20 \<and>
    int (read_dec s) * 1000000 + int (read_dec u) = t"
proof -
  let ?s = "to_string (t div 1000000)" and ?u = "zero_padded 6 (t mod 1000000)"
  have "read_dec ?s = nat (t div 1000000)"
    using assms(1) by (simp add: to_string_def pos_imp_zdiv_neg_iff)
  moreover have "read_dec ?u = nat (t mod 1000000)"
    by (simp add: zero_padded_def Let_def read_dec_zeros)
  moreover have "t div 1000000 < 10 ^ 13"
    using assms by (simp add: is_int64_def)
  then have "length ?s \<le> 13"
    using length_dec_nat [of "nat (t div 1000000)" 12] assms(1)
    by (simp add: to_string_def nat_less_iff pos_imp_zdiv_neg_iff)
  ultimately show ?thesis
    using toString_parts [OF assms] assms(1)
    by (intro exI [of _ ?s] exI [of _ ?u]) (simp add: pos_imp_zdiv_nonneg_iff)
qed

theorem toString_roundtrip_witness:
  "\<exists>s u. toString 1500042 = s @ ''.'' @ u \<and> length u = 6 \<and>
     int (read_dec s) * 1000000 + int (read_dec u) = 1500042"
  using toString_roundtrip [of 1500042] by (auto simp: is_int64_def)

end
