(* ===== verification/Ord_Set.thy ===== *)
theory Ord_Set
  imports Prelude "HOL-Library.Product_Lexorder"
begin

text \<open>
  \<open>std::set\<close> as the program uses it: a strictly increasing list of keys, with
  \<open>insert\<close> (which reports whether the key was new), \<open>erase\<close> by key (which reports
  how many keys went), \<open>find\<close> and \<open>lower_bound\<close>. Pairs are ordered
  lexicographically, as \<open>operator<\<close> of \<open>std::pair\<close> orders them. The locale
  \<open>std_set\<close> is the contract the timer queue relies on.
\<close>

fun oset_insert :: "'a::linorder \<Rightarrow> 'a list \<Rightarrow> 'a list \<times> bool" where
  "oset_insert x [] = ([x], True)"
| "oset_insert x (y # ys) =
     (if x < y then (x # y # ys, True)
      else if y < x then (case oset_insert x ys of (zs, b) \<Rightarrow> (y # zs, b))
      else (y # ys, False))"

fun oset_erase :: "'a::linorder \<Rightarrow> 'a list \<Rightarrow> 'a list \<times> nat" where
  "oset_erase x [] = ([], 0)"
| "oset_erase x (y # ys) =
     (if x = y then (ys, 1) else (case oset_erase x ys of (zs, n) \<Rightarrow> (y # zs, n)))"

definition oset_find :: "'a::linorder \<Rightarrow> 'a list \<Rightarrow> bool" where
  "oset_find x xs = List.member xs x"

text \<open>The position \<open>lower_bound\<close> points at: how many keys are smaller.\<close>

definition oset_lower_bound :: "'a::linorder \<Rightarrow> 'a list \<Rightarrow> nat" where
  "oset_lower_bound x xs = length (takeWhile (\<lambda>y. y < x) xs)"

definition oset_ok :: "'a::linorder list \<Rightarrow> bool" where
  "oset_ok xs \<longleftrightarrow> sorted_wrt (<) xs"

lemma oset_ok_Nil [simp]: "oset_ok []"
  by (simp add: oset_ok_def)

lemma oset_ok_Cons [simp]: "oset_ok (x # xs) \<longleftrightarrow> (\<forall>y \<in> set xs. x < y) \<and> oset_ok xs"
  by (simp add: oset_ok_def)

lemma oset_find_iff [simp]: "oset_find x xs \<longleftrightarrow> x \<in> set xs"
  by (simp add: oset_find_def)

lemma oset_ok_distinct: "oset_ok xs \<Longrightarrow> distinct xs"
  by (induction xs) auto

lemma oset_insert_set: "set (fst (oset_insert x xs)) = insert x (set xs)"
proof (induction x xs rule: oset_insert.induct)
  case (2 x y ys)
  then show ?case
    by (cases x y rule: linorder_cases) (simp_all add: case_prod_beta insert_commute)
qed simp

lemma oset_insert_new: "oset_ok xs \<Longrightarrow> snd (oset_insert x xs) \<longleftrightarrow> x \<notin> set xs"
proof (induction x xs rule: oset_insert.induct)
  case (2 x y ys)
  consider "x < y" | "y < x" | "x = y" by fastforce
  then show ?case
  proof cases
    case 1
    then have "x \<notin> set ys" using "2.prems" by (meson dual_order.asym oset_ok_Cons)
    with 1 show ?thesis by simp
  next
    case 2
    then have "\<not> x < y" "x \<noteq> y" by auto
    then show ?thesis using 2 "2.IH" "2.prems" by (simp add: case_prod_beta)
  qed simp
qed simp

lemma oset_insert_ok: "oset_ok xs \<Longrightarrow> oset_ok (fst (oset_insert x xs))"
proof (induction x xs rule: oset_insert.induct)
  case (2 x y ys)
  then show ?case
    using oset_insert_set [of x ys] by (auto split: prod.splits)
qed simp

lemma oset_erase_set: "oset_ok xs \<Longrightarrow> set (fst (oset_erase x xs)) = set xs - {x}"
  by (induction x xs rule: oset_erase.induct) (auto split: prod.splits)

lemma oset_erase_count: "snd (oset_erase x xs) = (if x \<in> set xs then 1 else 0)"
  by (induction x xs rule: oset_erase.induct) (auto split: prod.splits)

lemma oset_erase_ok: "oset_ok xs \<Longrightarrow> oset_ok (fst (oset_erase x xs))"
proof (induction x xs rule: oset_erase.induct)
  case (2 x y ys)
  then show ?case
    using oset_erase_set [of ys x] by (auto split: prod.splits)
qed simp

text \<open>\<open>lower_bound\<close> splits an ordered set into the smaller and the other keys.\<close>

lemma takeWhile_filter_ok: "oset_ok xs \<Longrightarrow> takeWhile (\<lambda>y. y < x) xs = filter (\<lambda>y. y < x) xs"
proof (induction xs)
  case (Cons a xs)
  then have "\<not> a < x \<Longrightarrow> filter (\<lambda>y. y < x) xs = []"
    by (fastforce simp: filter_empty_conv)
  with Cons show ?case by simp
qed simp

lemma dropWhile_filter_ok: "oset_ok xs \<Longrightarrow> dropWhile (\<lambda>y. y < x) xs = filter (\<lambda>y. \<not> y < x) xs"
proof (induction xs)
  case (Cons a xs)
  then have "\<not> a < x \<Longrightarrow> filter (\<lambda>y. \<not> y < x) xs = xs"
    by (fastforce simp: filter_id_conv)
  with Cons show ?case by simp
qed simp

lemma oset_take_lower: "oset_ok xs \<Longrightarrow> take (oset_lower_bound x xs) xs = filter (\<lambda>y. y < x) xs"
  using takeWhile_eq_take [of "\<lambda>y. y < x" xs] by (simp add: oset_lower_bound_def takeWhile_filter_ok)

lemma oset_drop_lower: "oset_ok xs \<Longrightarrow> drop (oset_lower_bound x xs) xs = filter (\<lambda>y. \<not> y < x) xs"
  using dropWhile_eq_drop [of "\<lambda>y. y < x" xs] by (simp add: oset_lower_bound_def dropWhile_filter_ok)

lemma oset_ok_filter: "oset_ok xs \<Longrightarrow> oset_ok (filter P xs)"
  by (simp add: oset_ok_def sorted_wrt_filter)

locale std_set =
  fixes ok :: "'c \<Rightarrow> bool"
    and elems :: "'c \<Rightarrow> 'a set"
    and size_of :: "'c \<Rightarrow> nat"
    and ins :: "'a \<Rightarrow> 'c \<Rightarrow> 'c \<times> bool"
    and del :: "'a \<Rightarrow> 'c \<Rightarrow> 'c \<times> nat"
  assumes finite_elems: "finite (elems c)"
    and size_card: "ok c \<Longrightarrow> size_of c = card (elems c)"
    and ins_ok: "ok c \<Longrightarrow> ok (fst (ins x c))"
    and ins_elems: "ok c \<Longrightarrow> elems (fst (ins x c)) = insert x (elems c)"
    and ins_new: "ok c \<Longrightarrow> snd (ins x c) \<longleftrightarrow> x \<notin> elems c"
    and del_ok: "ok c \<Longrightarrow> ok (fst (del x c))"
    and del_elems: "ok c \<Longrightarrow> elems (fst (del x c)) = elems c - {x}"
    and del_count: "ok c \<Longrightarrow> snd (del x c) = (if x \<in> elems c then 1 else 0)"
begin

lemmas laws = ins_ok ins_elems ins_new del_ok del_elems del_count

lemma size_ins: "ok c \<Longrightarrow> x \<notin> elems c \<Longrightarrow> size_of (fst (ins x c)) = Suc (size_of c)"
  by (simp add: size_card ins_ok ins_elems finite_elems)

lemma size_del: "ok c \<Longrightarrow> x \<in> elems c \<Longrightarrow> size_of (fst (del x c)) = size_of c - 1"
  by (simp add: size_card del_ok del_elems finite_elems)

lemma del_ins: "ok c \<Longrightarrow> x \<notin> elems c \<Longrightarrow> elems (fst (del x (fst (ins x c)))) = elems c"
  by (simp add: ins_ok ins_elems del_elems)

end

interpretation os: std_set oset_ok set length oset_insert oset_erase
  by unfold_locales
    (auto simp: oset_ok_distinct distinct_card oset_insert_ok oset_insert_set oset_insert_new
      oset_erase_ok oset_erase_set oset_erase_count)

text \<open>Two ordered sets whose keys correspond one to one have equal sizes.\<close>

lemma oset_size_bij:
  assumes "oset_ok c" "oset_ok d" "bij_betw f (set c) (set d)"
  shows "length c = length d"
  using bij_betw_same_card [OF assms(3)] os.size_card [OF assms(1)] os.size_card [OF assms(2)] by simp

end
