(* ===== verification/Timer_Queue.thy ===== *)
theory Timer_Queue
  imports Timestamp Ord_Set
begin

text \<open>
  \<open>net/Timer.h\<close>, \<open>net/Timer.cpp\<close>, \<open>net/TimerId.h\<close>, \<open>net/TimerQueue.h\<close> and
  \<open>net/TimerQueue.cpp\<close>. \<open>Timer\<close> objects live in a heap that maps addresses to
  timers; \<open>timers_\<close>, \<open>activeTimers_\<close> and \<open>cancelingTimers_\<close> are ordered sets of
  pairs as in the source. The callbacks run by \<open>handelRead\<close> are a parameter, a
  state transformer; the locale \<open>timer_client\<close> states what the queue relies on
  from them, and callbacks that call \<open>addTimer\<close> and \<open>cancle\<close> meet it. Each clock
  reading is an argument.
\<close>

section \<open>Timers\<close>

record 'cb timer =
  callback :: 'cb
  expiration :: timestamp
  interval :: dbl
  repeat :: bool
  sequence :: int

text \<open>The constructor; the second component is \<open>seqTotal\<close> afterwards.\<close>

definition Timer :: "'cb \<Rightarrow> timestamp \<Rightarrow> dbl \<Rightarrow> int \<Rightarrow> 'cb timer \<times> int" where
  "Timer cb expir iv sq =
     (\<lparr>callback = cb, expiration = expir, interval = iv, repeat = dbl_positive iv, sequence = sq\<rparr>,
      sq + 1)"

definition restart :: "timestamp \<Rightarrow> 'cb timer \<Rightarrow> 'cb timer" where
  "restart t tm =
     (if repeat tm then tm\<lparr>expiration := addTime t (interval tm)\<rparr>
      else tm\<lparr>expiration := getInvalid\<rparr>)"

section \<open>The queue\<close>

text \<open>
  \<open>armed\<close> is the last \<open>timerfd_settime\<close>: the clock reading it was computed from and
  the relative \<open>timespec\<close>. A \<open>TimerId\<close> is a pair of an address and a sequence
  number, as \<open>ActiveTimer\<close> is.
\<close>

type_synonym timer_id = "nat \<times> int"

record 'cb tqueue =
  timer_heap :: "nat \<rightharpoonup> 'cb timer"
  seqTotal :: int
  timers :: "(timestamp \<times> nat) list"
  activeTimers :: "timer_id list"
  callingExpiredTimers :: bool
  cancelingTimers :: "timer_id list"
  armed :: "(timestamp \<times> int \<times> int) option"

definition UINTPTR_MAX :: nat where
  "UINTPTR_MAX = 2 ^ 64 - 1"

definition resetTimerFd :: "timestamp \<Rightarrow> timestamp \<Rightarrow> ('cb, 'z) tqueue_scheme \<Rightarrow> ('cb, 'z) tqueue_scheme" where
  "resetTimerFd clk expir q = q\<lparr>armed := Some (clk, howMuchTimeFromNow clk expir)\<rparr>"

definition tq_insert :: "bool \<Rightarrow> nat \<Rightarrow> ('cb, 'z) tqueue_scheme \<Rightarrow> (bool \<times> ('cb, 'z) tqueue_scheme) result" where
  "tq_insert inLoop p q =
     assertInLoopThread inLoop
       (cassert (length (timers q) = length (activeTimers q))
         (deref (timer_heap q) p (\<lambda>tm.
            let expir = expiration tm;
                earliestChanged = (case timers q of [] \<Rightarrow> True | e # _ \<Rightarrow> less_timestamp expir (fst e));
                (ts, inserted1) = oset_insert (expir, p) (timers q);
                (as, inserted2) = oset_insert (p, sequence tm) (activeTimers q)
            in cassert inserted1 (cassert inserted2 (cassert (length ts = length as)
                 (Inr (earliestChanged, q\<lparr>timers := ts, activeTimers := as\<rparr>)))))))"

text \<open>\<open>new Timer\<close> at the address the allocator answers; an answer that is not a free,
  representable address stands for \<open>std::bad_alloc\<close>.\<close>

definition new_timer ::
    "nat \<Rightarrow> 'cb \<Rightarrow> timestamp \<Rightarrow> dbl \<Rightarrow> ('cb, 'z) tqueue_scheme \<Rightarrow> ('cb, 'z) tqueue_scheme result" where
  "new_timer p cb expir iv q =
     (if timer_heap q p \<noteq> None \<or> p = 0 \<or> UINTPTR_MAX \<le> p then Inl BadAlloc
      else (case Timer cb expir iv (seqTotal q) of (tm, st) \<Rightarrow>
              Inr (q\<lparr>timer_heap := (timer_heap q)(p \<mapsto> tm), seqTotal := st\<rparr>)))"

definition addTimerInLoop ::
    "bool \<Rightarrow> timestamp \<Rightarrow> nat \<Rightarrow> ('cb, 'z) tqueue_scheme \<Rightarrow> ('cb, 'z) tqueue_scheme result" where
  "addTimerInLoop inLoop clk p q =
     assertInLoopThread inLoop
       (rbind (tq_insert inLoop p q) (\<lambda>(earliestChanged, q').
          if earliestChanged
          then deref (timer_heap q') p (\<lambda>tm. Inr (resetTimerFd clk (expiration tm) q'))
          else Inr q'))"

text \<open>\<open>addTimer\<close> called in the loop thread, where \<open>runInLoop\<close> calls its functor at once.\<close>

definition addTimer ::
    "timestamp \<Rightarrow> nat \<Rightarrow> 'cb \<Rightarrow> timestamp \<Rightarrow> dbl \<Rightarrow> ('cb, 'z) tqueue_scheme \<Rightarrow>
     (timer_id \<times> ('cb, 'z) tqueue_scheme) result" where
  "addTimer clk p cb expir iv q =
     rbind (new_timer p cb expir iv q) (\<lambda>q1.
       rbind (addTimerInLoop True clk p q1) (\<lambda>q2.
         deref (timer_heap q2) p (\<lambda>tm. Inr ((p, sequence tm), q2))))"

definition cancelInLoop ::
    "bool \<Rightarrow> timer_id \<Rightarrow> ('cb, 'z) tqueue_scheme \<Rightarrow> ('cb, 'z) tqueue_scheme result" where
  "cancelInLoop inLoop timer q =
     assertInLoopThread inLoop
       (cassert (length (timers q) = length (activeTimers q))
         (rbind
           (if oset_find timer (activeTimers q)
            then deref (timer_heap q) (fst timer) (\<lambda>tm.
                   case oset_erase (expiration tm, fst timer) (timers q) of (ts, n) \<Rightarrow>
                     cassert (n = 1)
                       (Inr (q\<lparr>timers := ts,
                               timer_heap := (timer_heap q)(fst timer := None),
                               activeTimers := fst (oset_erase timer (activeTimers q))\<rparr>)))
            else if callingExpiredTimers q
            then Inr (q\<lparr>cancelingTimers := fst (oset_insert timer (cancelingTimers q))\<rparr>)
            else Inr q)
           (\<lambda>q'. cassert (length (timers q') = length (activeTimers q')) (Inr q'))))"

text \<open>The loop of \<open>getExpired\<close> that takes the expired timers out of \<open>activeTimers_\<close>.\<close>

definition deactivate :: "timestamp \<times> nat \<Rightarrow> ('cb, 'z) tqueue_scheme \<Rightarrow> ('cb, 'z) tqueue_scheme result" where
  "deactivate e q =
     deref (timer_heap q) (snd e) (\<lambda>tm.
       case oset_erase (snd e, sequence tm) (activeTimers q) of (as, n) \<Rightarrow>
         cassert (n = 1) (Inr (q\<lparr>activeTimers := as\<rparr>)))"

definition getExpired ::
    "timestamp \<Rightarrow> ('cb, 'z) tqueue_scheme \<Rightarrow> ((timestamp \<times> nat) list \<times> ('cb, 'z) tqueue_scheme) result" where
  "getExpired now q =
     cassert (length (timers q) = length (activeTimers q))
       (let nowEntry = (now, UINTPTR_MAX);
            fin = oset_lower_bound nowEntry (timers q);
            expired = take fin (timers q)
        in cassert (fin = length (timers q) \<or> less_timestamp now (fst (timers q ! fin)))
             (rbind (rfold deactivate expired (q\<lparr>timers := drop fin (timers q)\<rparr>)) (\<lambda>q'.
                cassert (length (timers q') = length (activeTimers q')) (Inr (expired, q')))))"

definition reset_one ::
    "bool \<Rightarrow> timestamp \<Rightarrow> timestamp \<times> nat \<Rightarrow> ('cb, 'z) tqueue_scheme \<Rightarrow> ('cb, 'z) tqueue_scheme result" where
  "reset_one inLoop now e q =
     deref (timer_heap q) (snd e) (\<lambda>tm.
       if repeat tm \<and> \<not> oset_find (snd e, sequence tm) (cancelingTimers q)
       then rbind (tq_insert inLoop (snd e)
                     (q\<lparr>timer_heap := (timer_heap q)(snd e \<mapsto> restart now tm)\<rparr>)) (\<lambda>(_, q'). Inr q')
       else Inr (q\<lparr>timer_heap := (timer_heap q)(snd e := None)\<rparr>))"

definition tq_reset ::
    "bool \<Rightarrow> timestamp \<Rightarrow> (timestamp \<times> nat) list \<Rightarrow> timestamp \<Rightarrow> ('cb, 'z) tqueue_scheme \<Rightarrow>
     ('cb, 'z) tqueue_scheme result" where
  "tq_reset inLoop clk expired now q =
     rbind (rfold (reset_one inLoop now) expired q) (\<lambda>q'.
       case timers q' of
         [] \<Rightarrow> Inr q'
       | e # _ \<Rightarrow> deref (timer_heap q') (snd e) (\<lambda>tm.
           let nextExpire = expiration tm
           in Inr (if isValid nextExpire then resetTimerFd clk nextExpire q' else q')))"

text \<open>
  \<open>handelRead\<close>, with the clock readings at its start (\<open>now\<close>) and in the last
  \<open>resetTimerFd\<close> (\<open>clk\<close>). Reading the \<open>timerfd\<close> changes no state of the queue.
\<close>

definition handelRead ::
    "bool \<Rightarrow> ('cb \<Rightarrow> ('cb, 'z) tqueue_scheme \<Rightarrow> ('cb, 'z) tqueue_scheme result) \<Rightarrow> timestamp \<Rightarrow>
     timestamp \<Rightarrow> ('cb, 'z) tqueue_scheme \<Rightarrow> ('cb, 'z) tqueue_scheme result" where
  "handelRead inLoop run now clk q =
     assertInLoopThread inLoop
       (rbind (getExpired now q) (\<lambda>(expired, q1).
          rbind (rfold (\<lambda>e s. deref (timer_heap s) (snd e) (\<lambda>tm. run (callback tm) s)) expired
                   (q1\<lparr>callingExpiredTimers := True, cancelingTimers := []\<rparr>)) (\<lambda>q2.
            tq_reset inLoop clk expired now (q2\<lparr>callingExpiredTimers := False\<rparr>))))"

text \<open>Callbacks that use the queue: a callback makes some calls of \<open>addTimer\<close> and \<open>cancle\<close>.\<close>

datatype 'cb timer_call =
    CallAdd timestamp nat 'cb timestamp dbl
  | CallCancel timer_id

fun exec_call :: "'cb timer_call \<Rightarrow> ('cb, 'z) tqueue_scheme \<Rightarrow> ('cb, 'z) tqueue_scheme result" where
  "exec_call (CallAdd clk p cb expir iv) q = rbind (addTimer clk p cb expir iv q) (\<lambda>(_, q'). Inr q')"
| "exec_call (CallCancel tid) q = cancelInLoop True tid q"

definition run_calls ::
    "('cb \<Rightarrow> 'cb timer_call list) \<Rightarrow> 'cb \<Rightarrow> ('cb, 'z) tqueue_scheme \<Rightarrow> ('cb, 'z) tqueue_scheme result" where
  "run_calls calls cb = rfold exec_call (calls cb)"

definition tqueue_new :: "'cb tqueue" where
  "tqueue_new = \<lparr>timer_heap = Map.empty, seqTotal = 0, timers = [], activeTimers = [],
     callingExpiredTimers = False, cancelingTimers = [], armed = None\<rparr>"

section \<open>The invariant\<close>

text \<open>
  \<open>E\<close> is the set of timers in flight: allocated, but in neither set. Between two
  calls of the loop it is empty; while \<open>handelRead\<close> works it holds the expired ones.
  A timer that is not in flight is scheduled under its own expiration, exactly once,
  and its \<open>ActiveTimer\<close> entry carries its own sequence number: nothing leaks and
  nothing dangles. Sequence numbers identify timers.
\<close>

definition tq_ok ::
    "nat set \<Rightarrow> (nat \<rightharpoonup> 'cb timer) \<Rightarrow> int \<Rightarrow> (timestamp \<times> nat) list \<Rightarrow> timer_id list \<Rightarrow> bool" where
  "tq_ok E h st ts as \<longleftrightarrow>
     oset_ok ts \<and> oset_ok as \<and> E \<subseteq> dom h \<and>
     (\<forall>t p. (t, p) \<in> set ts \<longleftrightarrow> p \<notin> E \<and> (\<exists>tm. h p = Some tm \<and> expiration tm = t)) \<and>
     (\<forall>p s. (p, s) \<in> set as \<longleftrightarrow> p \<notin> E \<and> (\<exists>tm. h p = Some tm \<and> sequence tm = s)) \<and>
     (\<forall>p tm. h p = Some tm \<longrightarrow> 0 < p \<and> p < UINTPTR_MAX \<and> sequence tm < st) \<and>
     (\<forall>p p' tm tm'. h p = Some tm \<longrightarrow> h p' = Some tm' \<longrightarrow> sequence tm = sequence tm' \<longrightarrow> p = p')"

definition tq_inv :: "nat set \<Rightarrow> ('cb, 'z) tqueue_scheme \<Rightarrow> bool" where
  "tq_inv E q \<longleftrightarrow>
     tq_ok E (timer_heap q) (seqTotal q) (timers q) (activeTimers q) \<and> oset_ok (cancelingTimers q)"

lemma tq_inv_new: "tq_inv {} tqueue_new"
  by (simp add: tq_inv_def tq_ok_def tqueue_new_def)

lemma tq_ok_sets:
  assumes "tq_ok E h st ts as"
  shows "oset_ok ts" "oset_ok as" "E \<subseteq> dom h"
    and "(t, p) \<in> set ts \<longleftrightarrow> p \<notin> E \<and> (\<exists>tm. h p = Some tm \<and> expiration tm = t)"
    and "(p, s) \<in> set as \<longleftrightarrow> p \<notin> E \<and> (\<exists>tm. h p = Some tm \<and> sequence tm = s)"
    and "h p = Some tm \<Longrightarrow> p < UINTPTR_MAX"
    and "h p = Some tm \<Longrightarrow> sequence tm < st"
  using assms unfolding tq_ok_def by simp_all

lemma tq_ok_sizes:
  assumes ok: "tq_ok E h st ts as"
  shows "length ts = length as"
proof (rule oset_size_bij)
  note sets = tq_ok_sets [OF ok]
  show "oset_ok ts" "oset_ok as" by (rule sets(1), rule sets(2))
  show "bij_betw (\<lambda>(t, p). (p, sequence (the (h p)))) (set ts) (set as)"
  proof (rule bij_betw_imageI)
    show "inj_on (\<lambda>(t, p). (p, sequence (the (h p)))) (set ts)"
      by (auto simp: inj_on_def sets(4))
    have "(p, s) \<in> (\<lambda>(t, p). (p, sequence (the (h p)))) ` set ts \<longleftrightarrow>
        (\<exists>t. (t, p) \<in> set ts \<and> s = sequence (the (h p)))" for p s
      by force
    then show "(\<lambda>(t, p). (p, sequence (the (h p)))) ` set ts = set as"
      by (auto simp: sets(4,5))
  qed
qed

lemma tq_inv_sizes: "tq_inv E q \<Longrightarrow> length (timers q) = length (activeTimers q)"
  by (auto simp: tq_inv_def dest: tq_ok_sizes)

section \<open>Inserting and removing\<close>

lemma tq_ok_schedule:
  assumes ok: "tq_ok E h st ts as" and p: "p \<in> E" "h p = Some tm"
  shows "tq_ok (E - {p}) h st (fst (oset_insert (expiration tm, p) ts))
           (fst (oset_insert (p, sequence tm) as))"
    and "(expiration tm, p) \<notin> set ts" "(p, sequence tm) \<notin> set as"
proof -
  note sets = ok [unfolded tq_ok_def]
  show "(expiration tm, p) \<notin> set ts" "(p, sequence tm) \<notin> set as"
    using p by (simp_all add: tq_ok_sets [OF ok])
  show "tq_ok (E - {p}) h st (fst (oset_insert (expiration tm, p) ts))
           (fst (oset_insert (p, sequence tm) as))"
    using p sets unfolding tq_ok_def by (auto simp: os.laws)
qed

definition scheduled :: "nat \<Rightarrow> 'cb timer \<Rightarrow> ('cb, 'z) tqueue_scheme \<Rightarrow> ('cb, 'z) tqueue_scheme" where
  "scheduled p tm q =
     q\<lparr>timers := fst (oset_insert (expiration tm, p) (timers q)),
       activeTimers := fst (oset_insert (p, sequence tm) (activeTimers q))\<rparr>"

lemma tq_insert_eq:
  assumes inv: "tq_inv E q" and p: "p \<in> E" "timer_heap q p = Some tm"
  shows "tq_insert True p q =
      Inr (timers q = [] \<or> expiration tm < fst (hd (timers q)), scheduled p tm q)"
    and "tq_inv (E - {p}) (scheduled p tm q)"
proof -
  have ok: "tq_ok E (timer_heap q) (seqTotal q) (timers q) (activeTimers q)"
    using inv by (simp add: tq_inv_def)
  note sch = tq_ok_schedule [OF ok p]
  show "tq_inv (E - {p}) (scheduled p tm q)"
    using sch(1) inv by (simp add: tq_inv_def scheduled_def)
  show "tq_insert True p q =
      Inr (timers q = [] \<or> expiration tm < fst (hd (timers q)), scheduled p tm q)"
    using p sch(2,3) tq_ok_sizes [OF ok] tq_ok_sizes [OF sch(1)] tq_ok_sets(1,2) [OF ok]
    by (simp add: tq_insert_def case_prod_beta Let_def os.laws scheduled_def less_timestamp_def
        split: list.splits)
qed

lemma tq_ok_allocate:
  assumes ok: "tq_ok E h st ts as" and p: "h p = None" "0 < p" "p < UINTPTR_MAX" and "sequence tm = st"
  shows "tq_ok (insert p E) (h(p \<mapsto> tm)) (st + 1) ts as"
proof -
  have "(t, p) \<notin> set ts" "(p, s) \<notin> set as" for t s
    using p(1) by (simp_all add: tq_ok_sets [OF ok])
  moreover have "sequence x < st + 1" "st = sequence x \<Longrightarrow> False" if "h p' = Some x" for p' x
    using tq_ok_sets(7) [OF ok that] by simp_all
  ultimately show ?thesis
    using assms unfolding tq_ok_def by auto (metis order_less_irrefl)
qed

lemma new_timer_Inr:
  assumes "new_timer p cb expir iv q = Inr q'" "tq_inv E q"
  shows "tq_inv (insert p E) q'" "timer_heap q p = None"
    "q' = q\<lparr>timer_heap := (timer_heap q)(p \<mapsto> fst (Timer cb expir iv (seqTotal q))),
            seqTotal := seqTotal q + 1\<rparr>"
proof -
  show q': "timer_heap q p = None"
      "q' = q\<lparr>timer_heap := (timer_heap q)(p \<mapsto> fst (Timer cb expir iv (seqTotal q))),
             seqTotal := seqTotal q + 1\<rparr>"
    using assms(1) by (auto simp: new_timer_def Timer_def split: if_splits)
  have "0 < p" "p < UINTPTR_MAX"
    using assms(1) by (auto simp: new_timer_def split: if_splits)
  then show "tq_inv (insert p E) q'"
    using assms(2) tq_ok_allocate [where p = p and h = "timer_heap q"] q'(1)
    by (simp add: q'(2) tq_inv_def Timer_def)
qed

lemma new_timer_Inl: "new_timer p cb expir iv q = Inl e \<Longrightarrow> e = BadAlloc"
  by (auto simp: new_timer_def Timer_def split: if_splits)

lemma addTimerInLoop_eq:
  assumes "tq_inv E q" "p \<in> E" "timer_heap q p = Some tm"
  shows "addTimerInLoop True clk p q =
    Inr (if timers q = [] \<or> expiration tm < fst (hd (timers q))
         then resetTimerFd clk (expiration tm) (scheduled p tm q) else scheduled p tm q)"
  using assms by (simp add: addTimerInLoop_def tq_insert_eq(1)) (simp add: scheduled_def)

lemma tq_inv_resetTimerFd [simp]: "tq_inv E (resetTimerFd clk t q) = tq_inv E q"
  by (simp add: tq_inv_def resetTimerFd_def)

text \<open>\<open>addTimer\<close> either has no memory or allocates, schedules and returns the identity
  of the new timer, touching no other timer.\<close>

lemma addTimer_spec:
  assumes inv: "tq_inv E q"
  shows "case addTimer clk p cb expir iv q of
      Inl e \<Rightarrow> e = BadAlloc
    | Inr (tid, q') \<Rightarrow> tq_inv E q' \<and> p \<notin> E \<and> timer_heap q p = None \<and> tid = (p, seqTotal q) \<and>
        timer_heap q' = (timer_heap q)(p \<mapsto> fst (Timer cb expir iv (seqTotal q))) \<and>
        seqTotal q' = seqTotal q + 1 \<and> cancelingTimers q' = cancelingTimers q \<and>
        callingExpiredTimers q' = callingExpiredTimers q \<and>
        timers q' = fst (oset_insert (expir, p) (timers q)) \<and>
        armed q' = (if timers q = [] \<or> expir < fst (hd (timers q))
                    then Some (clk, howMuchTimeFromNow clk expir) else armed q)"
proof (cases "new_timer p cb expir iv q")
  case (Inl e)
  then show ?thesis by (simp add: addTimer_def new_timer_Inl)
next
  case (Inr q1)
  note n = new_timer_Inr [OF Inr inv]
  let ?tm = "fst (Timer cb expir iv (seqTotal q))"
  have "p \<notin> E"
    using n(2) inv by (auto simp: tq_inv_def dest: tq_ok_sets(3))
  moreover have h: "timer_heap q1 p = Some ?tm" by (simp add: n(3))
  moreover have "tq_inv (insert p E - {p}) (scheduled p ?tm q1)"
    using tq_insert_eq(2) [OF n(1) _ h] by simp
  ultimately show ?thesis
    using addTimerInLoop_eq [OF n(1) _ h, of clk] n(2)
    by (auto simp: addTimer_def Inr n(3) scheduled_def resetTimerFd_def Timer_def tq_inv_def)
qed

lemma tq_ok_unschedule:
  assumes ok: "tq_ok E h st ts as" and p: "p \<notin> E" "h p = Some tm"
  shows "tq_ok E (h(p := None)) st (fst (oset_erase (expiration tm, p) ts))
           (fst (oset_erase (p, sequence tm) as))"
    and "(expiration tm, p) \<in> set ts"
proof -
  note sets = ok [unfolded tq_ok_def]
  show "tq_ok E (h(p := None)) st (fst (oset_erase (expiration tm, p) ts))
           (fst (oset_erase (p, sequence tm) as))"
    using p sets unfolding tq_ok_def by (auto simp: os.laws)
  show "(expiration tm, p) \<in> set ts"
    using p by (simp add: tq_ok_sets(4) [OF ok])
qed

text \<open>\<open>cancle\<close> on every branch: it never fails, removes and frees exactly the timer its
  \<open>TimerId\<close> names if that is scheduled, else only notes the name, and only while
  expired timers are being run.\<close>

definition names_scheduled :: "nat set \<Rightarrow> timer_id \<Rightarrow> ('cb, 'z) tqueue_scheme \<Rightarrow> bool" where
  "names_scheduled E tid q \<longleftrightarrow>
     fst tid \<notin> E \<and> (case timer_heap q (fst tid) of None \<Rightarrow> False | Some tm \<Rightarrow> sequence tm = snd tid)"

definition cancelled :: "nat set \<Rightarrow> timer_id \<Rightarrow> ('cb, 'z) tqueue_scheme \<Rightarrow> ('cb, 'z) tqueue_scheme" where
  "cancelled E tid q =
     (if names_scheduled E tid q
      then q\<lparr>timers := fst (oset_erase (expiration (the (timer_heap q (fst tid))), fst tid) (timers q)),
             timer_heap := (timer_heap q)(fst tid := None),
             activeTimers := fst (oset_erase tid (activeTimers q))\<rparr>
      else if callingExpiredTimers q
      then q\<lparr>cancelingTimers := fst (oset_insert tid (cancelingTimers q))\<rparr>
      else q)"

lemma names_scheduled_iff:
  assumes "tq_inv E q"
  shows "names_scheduled E tid q \<longleftrightarrow> tid \<in> set (activeTimers q)"
proof -
  have ok: "tq_ok E (timer_heap q) (seqTotal q) (timers q) (activeTimers q)"
    using assms by (simp add: tq_inv_def)
  show ?thesis
    using tq_ok_sets(5) [OF ok, of "fst tid" "snd tid"]
    by (auto simp: names_scheduled_def split: option.splits)
qed

lemma tq_inv_cancelled: "tq_inv E q \<Longrightarrow> tq_inv E (cancelled E tid q)"
  by (auto simp: tq_inv_def cancelled_def names_scheduled_def os.laws
      split: option.splits dest: tq_ok_unschedule(1))

lemma cancelInLoop_eq:
  assumes inv: "tq_inv E q"
  shows "cancelInLoop True tid q = Inr (cancelled E tid q)"
proof -
  have ok: "tq_ok E (timer_heap q) (seqTotal q) (timers q) (activeTimers q)"
    using inv by (simp add: tq_inv_def)
  note sizes = tq_inv_sizes [OF inv] tq_inv_sizes [OF tq_inv_cancelled [OF inv, of tid]]
  show ?thesis
  proof (cases "names_scheduled E tid q")
    case True
    then obtain tm where tm: "fst tid \<notin> E" "timer_heap q (fst tid) = Some tm" "sequence tm = snd tid"
      by (auto simp: names_scheduled_def split: option.splits)
    then show ?thesis
      using True sizes tq_ok_unschedule(2) [OF ok tm(1,2)] names_scheduled_iff [OF inv, of tid]
      by (simp add: cancelInLoop_def case_prod_beta oset_erase_count cancelled_def)
  next
    case False
    then show ?thesis
      using sizes names_scheduled_iff [OF inv, of tid]
      by (simp add: cancelInLoop_def cancelled_def)
  qed
qed

section \<open>Taking out the expired timers\<close>

lemma deactivate_all:
  assumes "oset_ok (activeTimers q)" "distinct (map snd es)"
    and "\<And>e. e \<in> set es \<Longrightarrow> \<exists>tm. timer_heap q (snd e) = Some tm \<and> (snd e, sequence tm) \<in> set (activeTimers q)"
  shows "\<exists>as. rfold deactivate es q = Inr (q\<lparr>activeTimers := as\<rparr>) \<and> oset_ok as \<and>
    set as = {x \<in> set (activeTimers q). \<forall>e \<in> set es. \<forall>tm. timer_heap q (snd e) = Some tm \<longrightarrow>
                 x \<noteq> (snd e, sequence tm)}"
  using assms
proof (induction es arbitrary: q)
  case Nil
  then show ?case by (intro exI [of _ "activeTimers q"]) simp
next
  case (Cons e es)
  obtain tm where tm: "timer_heap q (snd e) = Some tm" "(snd e, sequence tm) \<in> set (activeTimers q)"
    using Cons.prems(3) [of e] by auto
  let ?q1 = "q\<lparr>activeTimers := fst (oset_erase (snd e, sequence tm) (activeTimers q))\<rparr>"
  have step: "deactivate e q = Inr ?q1"
    using tm by (simp add: deactivate_def case_prod_beta oset_erase_count)
  have "\<exists>tm'. timer_heap ?q1 (snd e') = Some tm' \<and> (snd e', sequence tm') \<in> set (activeTimers ?q1)"
    if "e' \<in> set es" for e'
  proof -
    have "snd e' \<noteq> snd e"
    proof
      assume "snd e' = snd e"
      then have "snd e \<in> snd ` set es" using that by (metis imageI)
      with Cons.prems(2) show False by simp
    qed
    then show ?thesis using Cons.prems(1,3) that by (simp add: os.laws)
  qed
  then obtain as where as: "rfold deactivate es ?q1 = Inr (?q1\<lparr>activeTimers := as\<rparr>)" "oset_ok as"
    "set as = {x \<in> set (activeTimers ?q1). \<forall>e \<in> set es. \<forall>tm. timer_heap ?q1 (snd e) = Some tm \<longrightarrow>
                 x \<noteq> (snd e, sequence tm)}"
    using Cons.IH [of ?q1] Cons.prems(1,2) by (auto simp: os.laws)
  have "set as = {x \<in> set (activeTimers q). \<forall>e' \<in> set (e # es). \<forall>tm. timer_heap q (snd e') = Some tm \<longrightarrow>
                 x \<noteq> (snd e', sequence tm)}"
    using tm(1) Cons.prems(1) unfolding as(3) by (auto simp: os.laws)
  then show ?case
    using step as(1,2) by (intro exI [of _ as]) simp
qed

lemma tq_ok_expire:
  assumes ok: "tq_ok F h st ts as" and P: "set es = {e \<in> set ts. P e}"
    and as': "oset_ok as'" "set as' = {x \<in> set as. \<forall>e \<in> set es. \<forall>tm. h (snd e) = Some tm \<longrightarrow>
                 x \<noteq> (snd e, sequence tm)}"
  shows "tq_ok (F \<union> snd ` set es) h st (filter (\<lambda>e. \<not> P e) ts) as'"
proof -
  note sets = ok [unfolded tq_ok_def]
  have sched: "(t, p) \<in> set ts \<longleftrightarrow> p \<notin> F \<and> (\<exists>tm. h p = Some tm \<and> expiration tm = t)"
    and act: "(p, s) \<in> set as \<longleftrightarrow> p \<notin> F \<and> (\<exists>tm. h p = Some tm \<and> sequence tm = s)" for t p s
    using sets by simp_all
  have inE: "p \<in> snd ` set es \<longleftrightarrow> p \<notin> F \<and> (\<exists>tm. h p = Some tm \<and> P (expiration tm, p))" for p
    by (auto simp: P sched image_iff)
  have "snd ` set es \<subseteq> dom h"
    using inE by blast
  then have "F \<union> snd ` set es \<subseteq> dom h"
    using tq_ok_sets(3) [OF ok] by simp
  moreover have "(t, p) \<in> set (filter (\<lambda>e. \<not> P e) ts) \<longleftrightarrow>
      p \<notin> F \<union> snd ` set es \<and> (\<exists>tm. h p = Some tm \<and> expiration tm = t)" for t p
    unfolding Un_iff inE by (auto simp: sched)
  moreover have "(p, s) \<in> set as' \<longleftrightarrow> p \<notin> F \<union> snd ` set es \<and> (\<exists>tm. h p = Some tm \<and> sequence tm = s)" for p s
  proof -
    have "(p, s) \<in> set as' \<longleftrightarrow> (p, s) \<in> set as \<and> (\<forall>tm. h p = Some tm \<longrightarrow> sequence tm = s \<longrightarrow> p \<notin> snd ` set es)"
      unfolding as'(2) by (auto simp: image_iff)
    then show ?thesis by (auto simp: act)
  qed
  ultimately show ?thesis
    using sets as'(1) unfolding tq_ok_def by (simp add: oset_ok_filter)
qed

definition expired_at :: "timestamp \<Rightarrow> ('cb, 'z) tqueue_scheme \<Rightarrow> (timestamp \<times> nat) list" where
  "expired_at now q = filter (\<lambda>e. fst e \<le> now) (timers q)"

lemma tq_inv_distinct_ptrs:
  assumes "tq_inv E q"
  shows "distinct (map snd (timers q))"
proof -
  have ok: "tq_ok E (timer_heap q) (seqTotal q) (timers q) (activeTimers q)"
    using assms by (simp add: tq_inv_def)
  have "inj_on snd (set (timers q))"
    by (auto simp: inj_on_def tq_ok_sets(4) [OF ok])
  then show ?thesis
    by (simp add: distinct_map oset_ok_distinct tq_ok_sets(1) [OF ok])
qed

text \<open>\<open>getExpired\<close> takes out exactly the timers due at \<open>now\<close>, in the order of their
  deadlines, and none of its assertions fails.\<close>

lemma getExpired_eq:
  assumes inv: "tq_inv F q"
  shows "\<exists>as. getExpired now q =
      Inr (expired_at now q, q\<lparr>timers := filter (\<lambda>e. \<not> fst e \<le> now) (timers q), activeTimers := as\<rparr>) \<and>
    tq_inv (F \<union> snd ` set (expired_at now q))
      (q\<lparr>timers := filter (\<lambda>e. \<not> fst e \<le> now) (timers q), activeTimers := as\<rparr>)"
proof -
  have ok: "tq_ok F (timer_heap q) (seqTotal q) (timers q) (activeTimers q)"
    using inv by (simp add: tq_inv_def)
  note sets = ok [unfolded tq_ok_def]
  let ?n = "oset_lower_bound (now, UINTPTR_MAX) (timers q)"
  have lt: "e < (now, UINTPTR_MAX) \<longleftrightarrow> fst e \<le> now" if "e \<in> set (timers q)" for e
  proof -
    have "(fst e, snd e) \<in> set (timers q)" using that by simp
    then have "snd e < UINTPTR_MAX"
      using sets by blast
    then show ?thesis by (cases e) (auto simp: less_prod_def)
  qed
  have take: "take ?n (timers q) = expired_at now q"
    using sets lt by (simp add: oset_take_lower expired_at_def cong: filter_cong)
  have drop: "drop ?n (timers q) = filter (\<lambda>e. \<not> fst e \<le> now) (timers q)"
    using sets lt by (simp add: oset_drop_lower cong: filter_cong)
  have guard: "?n = length (timers q) \<or> now < fst (timers q ! ?n)"
  proof (cases "?n < length (timers q)")
    case True
    then have "timers q ! ?n \<in> set (drop ?n (timers q))"
      by (metis Cons_nth_drop_Suc list.set_intros(1))
    then show ?thesis by (simp add: drop)
  next
    case False
    then show ?thesis
      using length_takeWhile_le [of "\<lambda>y. y < (now, UINTPTR_MAX)" "timers q"]
      by (simp add: oset_lower_bound_def)
  qed
  have dist: "distinct (map snd (expired_at now q))"
    using tq_inv_distinct_ptrs [OF inv] unfolding take [symmetric] take_map [symmetric]
    by (rule distinct_take)
  have "\<exists>tm. timer_heap q (snd e) = Some tm \<and> (snd e, sequence tm) \<in> set (activeTimers q)"
    if "e \<in> set (expired_at now q)" for e
  proof -
    have "(fst e, snd e) \<in> set (timers q)" using that by (simp add: expired_at_def)
    then obtain tm where "timer_heap q (snd e) = Some tm" "snd e \<notin> F" using sets by blast
    then show ?thesis by (simp add: tq_ok_sets(5) [OF ok])
  qed
  then obtain as where as:
    "rfold deactivate (expired_at now q) (q\<lparr>timers := drop ?n (timers q)\<rparr>) =
       Inr (q\<lparr>timers := drop ?n (timers q), activeTimers := as\<rparr>)"
    "oset_ok as"
    "set as = {x \<in> set (activeTimers q). \<forall>e \<in> set (expired_at now q). \<forall>tm.
        timer_heap q (snd e) = Some tm \<longrightarrow> x \<noteq> (snd e, sequence tm)}"
    using deactivate_all [of "q\<lparr>timers := drop ?n (timers q)\<rparr>" "expired_at now q"] dist sets by auto
  have "tq_ok (F \<union> snd ` set (expired_at now q)) (timer_heap q) (seqTotal q)
          (filter (\<lambda>e. \<not> fst e \<le> now) (timers q)) as"
    by (rule tq_ok_expire [OF ok _ as(2,3)]) (auto simp: expired_at_def)
  then have "tq_inv (F \<union> snd ` set (expired_at now q))
      (q\<lparr>timers := filter (\<lambda>e. \<not> fst e \<le> now) (timers q), activeTimers := as\<rparr>)"
    using inv by (simp add: tq_inv_def)
  moreover from tq_inv_sizes [OF this]
  have "getExpired now q =
      Inr (expired_at now q, q\<lparr>timers := filter (\<lambda>e. \<not> fst e \<le> now) (timers q), activeTimers := as\<rparr>)"
    using tq_inv_sizes [OF inv] guard take drop as(1)
    by (simp add: getExpired_def Let_def less_timestamp_def)
  ultimately show ?thesis by blast
qed

lemma expired_not_in_flight:
  assumes "tq_inv F q"
  shows "F \<inter> snd ` set (expired_at now q) = {}"
proof -
  have ok: "tq_ok F (timer_heap q) (seqTotal q) (timers q) (activeTimers q)"
    using assms by (simp add: tq_inv_def)
  show ?thesis
    by (auto simp: expired_at_def tq_ok_sets(4) [OF ok])
qed

section \<open>Putting the expired timers back\<close>

definition after_reset :: "timestamp \<Rightarrow> timer_id list \<Rightarrow> nat \<Rightarrow> 'cb timer \<Rightarrow> 'cb timer option" where
  "after_reset now cs p tm =
     (if repeat tm \<and> (p, sequence tm) \<notin> set cs then Some (restart now tm) else None)"

lemma sequence_restart [simp]: "sequence (restart now tm) = sequence tm"
  by (simp add: restart_def)

lemma tq_ok_in_flight:
  assumes ok: "tq_ok E h st ts as" and p: "p \<in> E" "h p = Some tm"
  shows "sequence tm' = sequence tm \<Longrightarrow> tq_ok E (h(p \<mapsto> tm')) st ts as"
    and "tq_ok (E - {p}) (h(p := None)) st ts as"
proof -
  note sets = ok [unfolded tq_ok_def]
  have free: "(t, p) \<notin> set ts" "(p, s) \<notin> set as" for t s
    using p by (simp_all add: tq_ok_sets [OF ok])
  show "tq_ok (E - {p}) (h(p := None)) st ts as"
    using sets p free unfolding tq_ok_def by auto
  show "tq_ok E (h(p \<mapsto> tm')) st ts as" if "sequence tm' = sequence tm"
    using sets p free that unfolding tq_ok_def by auto
qed

lemma reset_one_eq:
  assumes inv: "tq_inv E q" and p: "snd e \<in> E" "timer_heap q (snd e) = Some tm"
  shows "\<exists>q'. reset_one True now e q = Inr q' \<and> tq_inv (E - {snd e}) q' \<and>
    timer_heap q' = (timer_heap q)(snd e := after_reset now (cancelingTimers q) (snd e) tm) \<and>
    cancelingTimers q' = cancelingTimers q \<and> armed q' = armed q \<and>
    callingExpiredTimers q' = callingExpiredTimers q \<and> seqTotal q' = seqTotal q"
proof (cases "repeat tm \<and> (snd e, sequence tm) \<notin> set (cancelingTimers q)")
  case True
  let ?q = "q\<lparr>timer_heap := (timer_heap q)(snd e \<mapsto> restart now tm)\<rparr>"
  have "tq_inv E ?q"
    using inv tq_ok_in_flight(1) [where h = "timer_heap q" and p = "snd e" and tm = tm
        and tm' = "restart now tm"] p by (simp add: tq_inv_def)
  from tq_insert_eq [OF this p(1), of "restart now tm"] show ?thesis
    using True p by (simp add: reset_one_def after_reset_def) (simp add: scheduled_def)
next
  case False
  then show ?thesis
    using inv p tq_ok_in_flight(2) [where h = "timer_heap q" and p = "snd e" and tm = tm]
    by (auto simp: reset_one_def after_reset_def tq_inv_def)
qed

lemma reset_all_eq:
  assumes "tq_inv (F \<union> snd ` set es) q" "distinct (map snd es)" "F \<inter> snd ` set es = {}"
  shows "\<exists>q'. rfold (reset_one True now) es q = Inr q' \<and> tq_inv F q' \<and>
    timer_heap q' = (\<lambda>p. if p \<in> snd ` set es
                         then Option.bind (timer_heap q p) (after_reset now (cancelingTimers q) p)
                         else timer_heap q p) \<and>
    cancelingTimers q' = cancelingTimers q \<and> armed q' = armed q \<and>
    callingExpiredTimers q' = callingExpiredTimers q \<and> seqTotal q' = seqTotal q"
  using assms
proof (induction es arbitrary: q)
  case (Cons e es)
  obtain tm where tm: "timer_heap q (snd e) = Some tm"
    using Cons.prems(1) by (auto simp: tq_inv_def dest!: tq_ok_sets(3))
  obtain q1 where q1: "reset_one True now e q = Inr q1" "tq_inv (F \<union> snd ` set (e # es) - {snd e}) q1"
    "timer_heap q1 = (timer_heap q)(snd e := after_reset now (cancelingTimers q) (snd e) tm)"
    "cancelingTimers q1 = cancelingTimers q" "armed q1 = armed q"
    "callingExpiredTimers q1 = callingExpiredTimers q" "seqTotal q1 = seqTotal q"
    using reset_one_eq [OF Cons.prems(1) _ tm, of now] by auto
  have notin: "snd e \<notin> snd ` set es"
    using Cons.prems(2) by simp
  then have "F \<union> snd ` set (e # es) - {snd e} = F \<union> snd ` set es" using Cons.prems(3) by auto
  with q1(2) have "tq_inv (F \<union> snd ` set es) q1" by simp
  from Cons.IH [OF this] Cons.prems(2,3) obtain q' where
    "rfold (reset_one True now) es q1 = Inr q'" "tq_inv F q'"
    "timer_heap q' = (\<lambda>p. if p \<in> snd ` set es
        then Option.bind (timer_heap q1 p) (after_reset now (cancelingTimers q1) p) else timer_heap q1 p)"
    "cancelingTimers q' = cancelingTimers q1" "armed q' = armed q1"
    "callingExpiredTimers q' = callingExpiredTimers q1" "seqTotal q' = seqTotal q1"
    by auto
  then show ?case
    using q1 notin tm by (intro exI [of _ q']) (auto simp: fun_eq_iff)
qed simp

lemma tq_inv_head:
  assumes "tq_inv F q" "timers q = e # es"
  shows "\<exists>tm. timer_heap q (snd e) = Some tm \<and> expiration tm = fst e"
proof -
  have "(fst e, snd e) \<in> set (timers q)" using assms(2) by simp
  moreover have "tq_ok F (timer_heap q) (seqTotal q) (timers q) (activeTimers q)"
    using assms(1) by (simp add: tq_inv_def)
  ultimately show ?thesis using tq_ok_sets(4) by fastforce
qed

definition rearmed ::
    "timestamp \<Rightarrow> (timestamp \<times> nat) list \<Rightarrow> (timestamp \<times> int \<times> int) option \<Rightarrow> (timestamp \<times> int \<times> int) option" where
  "rearmed clk ts old =
     (case ts of [] \<Rightarrow> old
      | e # _ \<Rightarrow> if isValid (fst e) then Some (clk, howMuchTimeFromNow clk (fst e)) else old)"

lemma tq_reset_eq:
  assumes "tq_inv (F \<union> snd ` set es) q" "distinct (map snd es)" "F \<inter> snd ` set es = {}"
  shows "\<exists>q'. tq_reset True clk es now q = Inr q' \<and> tq_inv F q' \<and>
    timer_heap q' = (\<lambda>p. if p \<in> snd ` set es
                         then Option.bind (timer_heap q p) (after_reset now (cancelingTimers q) p)
                         else timer_heap q p) \<and>
    cancelingTimers q' = cancelingTimers q \<and> callingExpiredTimers q' = callingExpiredTimers q \<and>
    armed q' = rearmed clk (timers q') (armed q)"
proof -
  obtain q1 where q1: "rfold (reset_one True now) es q = Inr q1" "tq_inv F q1"
    "timer_heap q1 = (\<lambda>p. if p \<in> snd ` set es
        then Option.bind (timer_heap q p) (after_reset now (cancelingTimers q) p) else timer_heap q p)"
    "cancelingTimers q1 = cancelingTimers q" "armed q1 = armed q"
    "callingExpiredTimers q1 = callingExpiredTimers q"
    using reset_all_eq [OF assms, of now] by blast
  show ?thesis
  proof (cases "timers q1")
    case Nil
    then show ?thesis using q1 by (simp add: tq_reset_def rearmed_def)
  next
    case (Cons e r)
    then obtain tm where "timer_heap q1 (snd e) = Some tm" "expiration tm = fst e"
      using tq_inv_head [OF q1(2)] by blast
    then show ?thesis
      using q1 Cons by (auto simp: tq_reset_def rearmed_def Let_def resetTimerFd_def tq_inv_def)
  qed
qed

section \<open>Running callbacks\<close>

text \<open>
  The contract of the callbacks \<open>handelRead\<close> runs: they may use the queue through its
  operations, so they keep the invariant, leave the timers in flight alone, and fail
  only for lack of memory.
\<close>

locale timer_client =
  fixes run :: "'cb \<Rightarrow> ('cb, 'z) tqueue_scheme \<Rightarrow> ('cb, 'z) tqueue_scheme result"
  assumes run_inv: "tq_inv E q \<Longrightarrow> callingExpiredTimers q \<Longrightarrow> run cb q = Inr q' \<Longrightarrow>
      tq_inv E q' \<and> callingExpiredTimers q' \<and> (\<forall>p \<in> E. timer_heap q' p = timer_heap q p)"
    and run_fault: "tq_inv E q \<Longrightarrow> callingExpiredTimers q \<Longrightarrow> run cb q = Inl e \<Longrightarrow> e = BadAlloc"
begin

lemma run_expired:
  assumes "tq_inv E q" "callingExpiredTimers q" "snd ` set es \<subseteq> E"
  shows "case rfold (\<lambda>e s. deref (timer_heap s) (snd e) (\<lambda>tm. run (callback tm) s)) es q of
      Inl e \<Rightarrow> e = BadAlloc
    | Inr q' \<Rightarrow> tq_inv E q' \<and> callingExpiredTimers q' \<and> (\<forall>p \<in> E. timer_heap q' p = timer_heap q p)"
  using assms
proof (induction es arbitrary: q)
  case (Cons e es)
  obtain tm where tm: "timer_heap q (snd e) = Some tm"
    using Cons.prems(1,3) by (auto simp: tq_inv_def dest!: tq_ok_sets(3))
  show ?case
  proof (cases "run (callback tm) q")
    case (Inl x)
    then show ?thesis using tm run_fault [OF Cons.prems(1,2)] by simp
  next
    case (Inr q1)
    from run_inv [OF Cons.prems(1,2) Inr] Cons.IH [of q1] Cons.prems(3) show ?thesis
      using tm Inr by (auto split: sum.splits)
  qed
qed simp

lemma handelRead_spec:
  assumes inv: "tq_inv F q"
  shows "case handelRead True run now clk q of
      Inl e \<Rightarrow> e = BadAlloc
    | Inr q' \<Rightarrow> tq_inv F q' \<and> \<not> callingExpiredTimers q' \<and> (\<forall>p \<in> F. timer_heap q' p = timer_heap q p) \<and>
        (\<forall>e \<in> set (expired_at now q). timer_heap q' (snd e) =
           Option.bind (timer_heap q (snd e)) (after_reset now (cancelingTimers q') (snd e))) \<and>
        (timers q' \<noteq> [] \<longrightarrow> isValid (fst (hd (timers q'))) \<longrightarrow>
           armed q' = Some (clk, howMuchTimeFromNow clk (fst (hd (timers q')))))"
proof -
  let ?E = "F \<union> snd ` set (expired_at now q)"
  obtain as where g: "getExpired now q =
      Inr (expired_at now q, q\<lparr>timers := filter (\<lambda>e. \<not> fst e \<le> now) (timers q), activeTimers := as\<rparr>)"
    "tq_inv ?E (q\<lparr>timers := filter (\<lambda>e. \<not> fst e \<le> now) (timers q), activeTimers := as\<rparr>)"
    using getExpired_eq [OF inv, of now] by blast
  define q1 where "q1 = q\<lparr>timers := filter (\<lambda>e. \<not> fst e \<le> now) (timers q), activeTimers := as,
      callingExpiredTimers := True, cancelingTimers := []\<rparr>"
  have inv1: "tq_inv ?E q1" "callingExpiredTimers q1"
    using g(2) by (simp_all add: q1_def tq_inv_def)
  have dist: "distinct (map snd (expired_at now q))"
    unfolding expired_at_def using tq_inv_distinct_ptrs [OF inv] by (rule distinct_map_filter)
  have disj: "F \<inter> snd ` set (expired_at now q) = {}"
    by (rule expired_not_in_flight [OF inv])
  have hr: "handelRead True run now clk q =
      rbind (rfold (\<lambda>e s. deref (timer_heap s) (snd e) (\<lambda>tm. run (callback tm) s)) (expired_at now q) q1)
        (\<lambda>q2. tq_reset True clk (expired_at now q) now (q2\<lparr>callingExpiredTimers := False\<rparr>))"
    by (simp add: handelRead_def g(1) q1_def)
  show ?thesis
  proof (cases "rfold (\<lambda>e s. deref (timer_heap s) (snd e) (\<lambda>tm. run (callback tm) s)) (expired_at now q) q1")
    case (Inl e)
    then show ?thesis
      using run_expired [OF inv1, of "expired_at now q"] by (simp add: hr)
  next
    case (Inr q2)
    then have q2: "tq_inv ?E (q2\<lparr>callingExpiredTimers := False\<rparr>)" "\<forall>p \<in> ?E. timer_heap q2 p = timer_heap q p"
      using run_expired [OF inv1, of "expired_at now q"] by (simp_all add: tq_inv_def) (simp add: q1_def)
    let ?q3 = "q2\<lparr>callingExpiredTimers := False\<rparr>"
    obtain q' where q': "tq_reset True clk (expired_at now q) now ?q3 = Inr q'"
      "tq_inv F q'" "\<not> callingExpiredTimers q'" "cancelingTimers q' = cancelingTimers ?q3"
      "timer_heap q' = (\<lambda>p. if p \<in> snd ` set (expired_at now q)
         then Option.bind (timer_heap ?q3 p) (after_reset now (cancelingTimers ?q3) p) else timer_heap ?q3 p)"
      "armed q' = rearmed clk (timers q') (armed ?q3)"
      using tq_reset_eq [OF q2(1) dist disj, of clk now] by (elim exE conjE) simp
    have "handelRead True run now clk q = Inr q'"
      by (simp add: hr Inr q'(1))
    moreover have "timer_heap q' (snd e) =
        Option.bind (timer_heap q (snd e)) (after_reset now (cancelingTimers q') (snd e))"
      if "e \<in> set (expired_at now q)" for e
      using q2(2) that q'(4,5) by auto
    moreover have "timer_heap q' p = timer_heap q p" if "p \<in> F" for p
      using q2(2) that q'(5) disj by auto
    moreover have "armed q' = Some (clk, howMuchTimeFromNow clk (fst (hd (timers q'))))"
      if "timers q' \<noteq> []" "isValid (fst (hd (timers q')))"
      using that q'(6) by (cases "timers q'") (simp_all add: rearmed_def)
    ultimately show ?thesis
      using q'(2,3) by simp
  qed
qed

end

lemma exec_call_spec:
  assumes "tq_inv E q" "callingExpiredTimers q"
  shows "case exec_call c q of
      Inl e \<Rightarrow> e = BadAlloc
    | Inr q' \<Rightarrow> tq_inv E q' \<and> callingExpiredTimers q' \<and> (\<forall>p \<in> E. timer_heap q' p = timer_heap q p)"
proof (cases c)
  case (CallAdd clk p cb expir iv)
  then show ?thesis
    using addTimer_spec [OF assms(1), where clk = clk and p = p and cb = cb and expir = expir and iv = iv]
      assms(2)
    by (cases "addTimer clk p cb expir iv q") auto
next
  case (CallCancel tid)
  have "\<forall>p \<in> E. timer_heap (cancelled E tid q) p = timer_heap q p"
    "callingExpiredTimers (cancelled E tid q)"
    using assms(2) by (auto simp: cancelled_def names_scheduled_def)
  then show ?thesis
    using CallCancel by (simp add: cancelInLoop_eq [OF assms(1)] tq_inv_cancelled [OF assms(1)])
qed

lemma exec_calls_spec:
  assumes "tq_inv E q" "callingExpiredTimers q"
  shows "case rfold exec_call cs q of
      Inl e \<Rightarrow> e = BadAlloc
    | Inr q' \<Rightarrow> tq_inv E q' \<and> callingExpiredTimers q' \<and> (\<forall>p \<in> E. timer_heap q' p = timer_heap q p)"
  using assms
proof (induction cs arbitrary: q)
  case (Cons c cs)
  show ?case
  proof (cases "exec_call c q")
    case (Inl e)
    then show ?thesis using exec_call_spec [OF Cons.prems, of c] by simp
  next
    case (Inr q1)
    then show ?thesis
      using exec_call_spec [OF Cons.prems, of c] Cons.IH [of q1] by (auto split: sum.splits)
  qed
qed simp

interpretation tc: timer_client "run_calls calls :: 'cb \<Rightarrow> ('cb, 'z) tqueue_scheme \<Rightarrow> ('cb, 'z) tqueue_scheme result"
  for calls :: "'cb \<Rightarrow> 'cb timer_call list"
proof
  fix E :: "nat set" and q q' :: "('cb, 'z) tqueue_scheme" and cb :: 'cb and e
  assume *: "tq_inv E q" "callingExpiredTimers q"
  show "tq_inv E q' \<and> callingExpiredTimers q' \<and> (\<forall>p \<in> E. timer_heap q' p = timer_heap q p)"
    if "run_calls calls cb q = Inr q'"
    using exec_calls_spec [OF *, of "calls cb"] that by (simp add: run_calls_def)
  show "e = BadAlloc" if "run_calls calls cb q = Inl e"
    using exec_calls_spec [OF *, of "calls cb"] that by (simp add: run_calls_def)
qed

section \<open>Frames\<close>

text \<open>The operations of the queue leave alone whatever the state holds besides the queue.\<close>

lemma tq_insert_more: "tq_insert b p q = Inr (x, q') \<Longrightarrow> tqueue.more q' = tqueue.more q"
  by (auto simp: tq_insert_def Let_def result_iffs case_prod_beta)

lemma addTimerInLoop_more: "addTimerInLoop b clk p q = Inr q' \<Longrightarrow> tqueue.more q' = tqueue.more q"
  by (auto simp: addTimerInLoop_def resetTimerFd_def result_iffs case_prod_beta
      dest!: tq_insert_more split: if_splits)

lemma new_timer_more: "new_timer p cb expir iv q = Inr q' \<Longrightarrow> tqueue.more q' = tqueue.more q"
  by (auto simp: new_timer_def case_prod_beta split: if_splits)

lemma addTimer_more: "addTimer clk p cb expir iv q = Inr (x, q') \<Longrightarrow> tqueue.more q' = tqueue.more q"
  by (auto simp: addTimer_def result_iffs dest!: new_timer_more addTimerInLoop_more)

lemma cancelInLoop_more: "cancelInLoop b tid q = Inr q' \<Longrightarrow> tqueue.more q' = tqueue.more q"
  by (auto simp: cancelInLoop_def result_iffs case_prod_beta split: if_splits)

lemma exec_call_more: "exec_call c q = Inr q' \<Longrightarrow> tqueue.more q' = tqueue.more q"
  by (cases c) (auto simp: result_iffs dest: cancelInLoop_more addTimer_more)

lemma rfold_same:
  assumes "\<And>x s s'. f x s = Inr s' \<Longrightarrow> m s' = m s"
  shows "rfold f xs s = Inr s' \<Longrightarrow> m s' = m s"
proof (induction xs arbitrary: s)
  case (Cons x xs)
  then obtain s1 where "f x s = Inr s1" "rfold f xs s1 = Inr s'"
    by (auto simp: rbind_Inr_iff)
  with Cons.IH [of s1] assms [of x s s1] show ?case by simp
qed simp

lemma reset_one_more: "reset_one b now e q = Inr q' \<Longrightarrow> tqueue.more q' = tqueue.more q"
  by (auto simp: reset_one_def result_iffs case_prod_beta dest!: tq_insert_more split: if_splits)

lemma tq_reset_more:
  assumes "tq_reset b clk es now q = Inr q'"
  shows "tqueue.more q' = tqueue.more q"
proof -
  obtain r where r: "rfold (reset_one b now) es q = Inr r"
    using assms by (auto simp: tq_reset_def rbind_Inr_iff)
  have "tqueue.more q' = tqueue.more r"
    using assms r
    by (cases "timers r") (auto simp: tq_reset_def result_iffs Let_def resetTimerFd_def split: if_splits)
  with rfold_same [where m = tqueue.more, OF reset_one_more r] show ?thesis by simp
qed

lemma deactivate_more: "deactivate e q = Inr q' \<Longrightarrow> tqueue.more q' = tqueue.more q"
  by (auto simp: deactivate_def result_iffs case_prod_beta)

lemma getExpired_more:
  assumes "getExpired now q = Inr (es, q')"
  shows "tqueue.more q' = tqueue.more q"
proof -
  have "rfold deactivate xs r = Inr q' \<Longrightarrow> tqueue.more q' = tqueue.more r" for xs r
    by (rule rfold_same [where m = tqueue.more, OF deactivate_more])
  then show ?thesis
    using assms by (fastforce simp: getExpired_def Let_def result_iffs)
qed

text \<open>An alarm changes of the rest of the state what the callbacks change.\<close>

lemma handelRead_frame:
  assumes run: "\<And>cb s s'. run cb s = Inr s' \<Longrightarrow> m (tqueue.more s') = m (tqueue.more s)"
    and "handelRead b run now clk q = Inr q'"
  shows "m (tqueue.more q') = m (tqueue.more q)"
proof -
  let ?f = "\<lambda>(e :: timestamp \<times> nat) s. deref (timer_heap s) (snd e) (\<lambda>tm. run (callback tm) s)"
  obtain es q1 q2 where q: "getExpired now q = Inr (es, q1)"
    "rfold ?f es (q1\<lparr>callingExpiredTimers := True, cancelingTimers := []\<rparr>) = Inr q2"
    "tq_reset b clk es now (q2\<lparr>callingExpiredTimers := False\<rparr>) = Inr q'"
    using assms(2) by (auto simp: handelRead_def result_iffs)
  have "m (tqueue.more q2) = m (tqueue.more q1)"
    using rfold_same [where f = ?f and m = "\<lambda>s. m (tqueue.more s)", OF _ q(2)] run
    by (auto simp: deref_Inr_iff)
  then show ?thesis
    using getExpired_more [OF q(1)] tq_reset_more [OF q(3)] by simp
qed

section \<open>What fires, in which order\<close>

text \<open>A queue with a record of the callbacks it ran.\<close>

record 'cb logged_tqueue = "'cb tqueue" +
  fired :: "'cb list"

definition run_logged ::
    "('cb \<Rightarrow> 'cb timer_call list) \<Rightarrow> 'cb \<Rightarrow> 'cb logged_tqueue \<Rightarrow> 'cb logged_tqueue result" where
  "run_logged calls cb q = run_calls calls cb (q\<lparr>fired := fired q @ [cb]\<rparr>)"

lemma fired_more: "tqueue.more q' = tqueue.more q \<Longrightarrow> fired q' = fired q"
  for q q' :: "'cb logged_tqueue"
  by (cases q rule: logged_tqueue.cases, cases q' rule: logged_tqueue.cases) simp

lemma exec_call_fired: "exec_call c q = Inr q' \<Longrightarrow> fired q' = fired q"
  for q :: "'cb logged_tqueue"
  by (rule fired_more) (rule exec_call_more)

lemma run_logged_fired:
  assumes "run_logged calls cb q = Inr q'"
  shows "fired q' = fired q @ [cb]"
proof -
  have "rfold exec_call cs r = Inr r' \<Longrightarrow> fired r' = fired r" for cs and r r' :: "'a logged_tqueue"
    by (induction cs arbitrary: r) (auto simp: rbind_Inr_iff dest: exec_call_fired)
  from this [of "calls cb"] assms show ?thesis
    by (fastforce simp: run_logged_def run_calls_def)
qed

lemma reset_fired: "tq_reset b clk es now q = Inr q' \<Longrightarrow> fired q' = fired q"
  for q :: "'cb logged_tqueue"
  by (rule fired_more) (rule tq_reset_more)

interpretation lc: timer_client "run_logged calls" for calls :: "'cb \<Rightarrow> 'cb timer_call list"
proof
  fix E :: "nat set" and q q' :: "'cb logged_tqueue" and cb :: 'cb and e
  assume *: "tq_inv E q" "callingExpiredTimers q"
  then have *: "tq_inv E (q\<lparr>fired := fired q @ [cb]\<rparr>)" "callingExpiredTimers (q\<lparr>fired := fired q @ [cb]\<rparr>)"
    by (simp_all add: tq_inv_def)
  show "tq_inv E q' \<and> callingExpiredTimers q' \<and> (\<forall>p \<in> E. timer_heap q' p = timer_heap q p)"
    if "run_logged calls cb q = Inr q'"
    using tc.run_inv [OF *, of calls cb q'] that by (simp add: run_logged_def)
  show "e = BadAlloc" if "run_logged calls cb q = Inl e"
    using tc.run_fault [OF *, of calls cb e] that by (simp add: run_logged_def)
qed

lemma run_expired_fired:
  assumes "tq_inv E q" "callingExpiredTimers q" "snd ` set es \<subseteq> E"
    and "rfold (\<lambda>e s. deref (timer_heap s) (snd e) (\<lambda>tm. run_logged calls (callback tm) s)) es q = Inr q'"
  shows "fired q' = fired q @ map (\<lambda>e. callback (the (timer_heap q (snd e)))) es"
  using assms
proof (induction es arbitrary: q)
  case (Cons e es)
  then obtain tm q1 where tm: "timer_heap q (snd e) = Some tm" "run_logged calls (callback tm) q = Inr q1"
    "rfold (\<lambda>e s. deref (timer_heap s) (snd e) (\<lambda>tm. run_logged calls (callback tm) s)) es q1 = Inr q'"
    by (auto simp: result_iffs)
  have q1: "tq_inv E q1" "callingExpiredTimers q1" "\<forall>p \<in> E. timer_heap q1 p = timer_heap q p"
    using lc.run_inv [OF Cons.prems(1,2) tm(2)] by simp_all
  have "map (\<lambda>e. callback (the (timer_heap q1 (snd e)))) es =
      map (\<lambda>e. callback (the (timer_heap q (snd e)))) es"
    using q1(3) Cons.prems(3) by (intro map_cong) auto
  with Cons.IH [OF q1(1,2) _ tm(3)] run_logged_fired [OF tm(2)] tm(1) Cons.prems(3) show ?case
    by simp
qed simp

section \<open>Keeping the descriptor armed\<close>

text \<open>The \<open>timerfd\<close> goes off no later than the earliest deadline calls for.\<close>

definition armed_ok :: "('cb, 'z) tqueue_scheme \<Rightarrow> bool" where
  "armed_ok q \<longleftrightarrow> timers q \<noteq> [] \<longrightarrow>
     (\<exists>clk t. armed q = Some (clk, howMuchTimeFromNow clk t) \<and> t \<le> fst (hd (timers q)))"

lemma hd_oset_insert:
  "hd (fst (oset_insert x ts)) = (if ts = [] \<or> x < hd ts then x else hd ts)" "fst (oset_insert x ts) \<noteq> []"
  by (cases ts; auto simp: case_prod_beta)+

lemma hd_le_oset_ok: "oset_ok ts \<Longrightarrow> y \<in> set ts \<Longrightarrow> hd ts \<le> y"
  by (cases ts) auto

lemma armed_ok_cancelled:
  assumes inv: "tq_inv E q" and "armed_ok q"
  shows "armed_ok (cancelled E tid q)"
proof (cases "timers (cancelled E tid q)")
  case (Cons e r)
  have ok: "oset_ok (timers q)"
    using inv by (auto simp: tq_inv_def dest: tq_ok_sets(1))
  have "set (timers (cancelled E tid q)) \<subseteq> set (timers q)"
    using ok by (auto simp: cancelled_def os.laws split: if_splits)
  then have "e \<in> set (timers q)" using Cons by auto
  then have "hd (timers q) \<le> e" "timers q \<noteq> []"
    using hd_le_oset_ok [OF ok] by auto
  then have "fst (hd (timers q)) \<le> fst e" "timers q \<noteq> []"
    by (auto simp: less_eq_prod_def)
  moreover have "armed (cancelled E tid q) = armed q"
    by (simp add: cancelled_def)
  ultimately show ?thesis
    using assms(2) Cons by (fastforce simp: armed_ok_def)
qed (simp add: armed_ok_def)

section \<open>Histories of a queue\<close>

text \<open>Whatever the loop thread does to a queue: calls of its two operations, and alarms, each
  with its two clock readings and with what the callbacks do this time.\<close>

datatype 'cb tq_op =
    OpCall "'cb timer_call"
  | OpAlarm timestamp timestamp "'cb \<Rightarrow> 'cb timer_call list"

fun tq_exec :: "'cb tq_op \<Rightarrow> 'cb tqueue \<Rightarrow> 'cb tqueue result" where
  "tq_exec (OpCall c) q = exec_call c q"
| "tq_exec (OpAlarm now clk calls) q = handelRead True (run_calls calls) now clk q"

lemma exec_call_inv:
  assumes "tq_inv E q"
  shows "case exec_call c q of Inl e \<Rightarrow> e = BadAlloc | Inr q' \<Rightarrow> tq_inv E q'"
proof (cases c)
  case (CallAdd clk p cb expir iv)
  then show ?thesis
    using addTimer_spec [OF assms, where clk = clk and p = p and cb = cb and expir = expir and iv = iv]
    by (cases "addTimer clk p cb expir iv q") auto
next
  case (CallCancel tid)
  then show ?thesis by (simp add: cancelInLoop_eq [OF assms] tq_inv_cancelled [OF assms])
qed

lemma tq_exec_inv:
  assumes "tq_inv {} q"
  shows "case tq_exec x q of Inl e \<Rightarrow> e = BadAlloc | Inr q' \<Rightarrow> tq_inv {} q'"
proof (cases x)
  case (OpCall c)
  then show ?thesis using exec_call_inv [OF assms, of c] by simp
next
  case (OpAlarm now clk calls)
  then show ?thesis
    using tc.handelRead_spec [OF assms, where calls = calls and now = now and clk = clk]
    by (cases "handelRead True (run_calls calls) now clk q") simp_all
qed

lemma tq_history_inv:
  "tq_inv {} q \<Longrightarrow> case rfold tq_exec ops q of Inl e \<Rightarrow> e = BadAlloc | Inr q' \<Rightarrow> tq_inv {} q'"
proof (induction ops arbitrary: q)
  case (Cons x ops)
  then show ?case
    using tq_exec_inv [OF Cons.prems, of x] by (cases "tq_exec x q") simp_all
qed simp

lemma tq_insert_seq: "tq_insert b p q = Inr (x, q') \<Longrightarrow> seqTotal q' = seqTotal q"
  by (auto simp: tq_insert_def Let_def result_iffs case_prod_beta)

lemma addTimer_seq: "addTimer clk p cb expir iv q = Inr (x, q') \<Longrightarrow> seqTotal q' = seqTotal q + 1"
  by (auto simp: addTimer_def new_timer_def Timer_def addTimerInLoop_def resetTimerFd_def result_iffs
      case_prod_beta dest!: tq_insert_seq split: if_splits)

lemma exec_call_seq: "exec_call c q = Inr q' \<Longrightarrow> seqTotal q \<le> seqTotal q'"
  by (cases c)
    (auto simp: cancelInLoop_def result_iffs case_prod_beta dest!: addTimer_seq split: if_splits)

lemma rfold_mono:
  fixes m :: "'s \<Rightarrow> int"
  assumes "\<And>x s s'. f x s = Inr s' \<Longrightarrow> m s \<le> m s'"
  shows "rfold f xs s = Inr s' \<Longrightarrow> m s \<le> m s'"
proof (induction xs arbitrary: s)
  case (Cons x xs)
  then obtain s1 where "f x s = Inr s1" "rfold f xs s1 = Inr s'"
    by (auto simp: rbind_Inr_iff)
  with Cons.IH [of s1] assms [of x s s1] show ?case by simp
qed simp

lemma reset_one_seq: "reset_one b now e q = Inr q' \<Longrightarrow> seqTotal q \<le> seqTotal q'"
  by (auto simp: reset_one_def result_iffs case_prod_beta dest!: tq_insert_seq split: if_splits)

lemma deactivate_seq: "deactivate e q = Inr q' \<Longrightarrow> seqTotal q \<le> seqTotal q'"
  by (auto simp: deactivate_def result_iffs case_prod_beta)

lemma tq_reset_seq:
  assumes "tq_reset b clk es now q = Inr q'"
  shows "seqTotal q \<le> seqTotal q'"
proof -
  obtain r where r: "rfold (reset_one b now) es q = Inr r"
    using assms by (auto simp: tq_reset_def rbind_Inr_iff)
  have "seqTotal q' = seqTotal r"
    using assms r
    by (cases "timers r") (auto simp: tq_reset_def result_iffs Let_def resetTimerFd_def split: if_splits)
  with rfold_mono [where m = seqTotal, OF reset_one_seq r] show ?thesis by simp
qed

lemma rfold_deactivate_seq: "rfold deactivate es q = Inr q' \<Longrightarrow> seqTotal q \<le> seqTotal q'"
  by (rule rfold_mono [where m = seqTotal, OF deactivate_seq])

lemma getExpired_seq: "getExpired now q = Inr (es, q') \<Longrightarrow> seqTotal q \<le> seqTotal q'"
  by (auto simp: getExpired_def Let_def result_iffs
      dest!: rfold_deactivate_seq)

lemma tq_exec_seq:
  assumes "tq_exec x q = Inr q'"
  shows "seqTotal q \<le> seqTotal q'"
proof (cases x)
  case (OpCall c)
  then show ?thesis using assms exec_call_seq by simp
next
  case (OpAlarm now clk calls)
  let ?f = "\<lambda>(e :: timestamp \<times> nat) s. deref (timer_heap s) (snd e) (\<lambda>tm. run_calls calls (callback tm) s)"
  have run: "?f e s = Inr s' \<Longrightarrow> seqTotal s \<le> seqTotal s'" for e and s s' :: "'a tqueue"
    by (auto simp: run_calls_def result_iffs intro: rfold_mono [where m = seqTotal, OF exec_call_seq])
  obtain es q1 q2 where q: "getExpired now q = Inr (es, q1)"
    "rfold (\<lambda>e s. deref (timer_heap s) (snd e) (\<lambda>tm. run_calls calls (callback tm) s)) es
       (q1\<lparr>callingExpiredTimers := True, cancelingTimers := []\<rparr>) = Inr q2"
    "tq_reset True clk es now (q2\<lparr>callingExpiredTimers := False\<rparr>) = Inr q'"
    using OpAlarm assms by (auto simp: handelRead_def rbind_Inr_iff)
  have "seqTotal q1 \<le> seqTotal q2"
    using rfold_mono [where f = ?f and m = seqTotal, OF _ q(2)] run by simp
  then show ?thesis
    using getExpired_seq [OF q(1)] tq_reset_seq [OF q(3)]
    by simp
qed

lemma tq_history_seq: "rfold tq_exec ops q = Inr q' \<Longrightarrow> seqTotal q \<le> seqTotal q'"
  by (rule rfold_mono [where m = seqTotal, OF tq_exec_seq])

lemma exec_call_armed:
  assumes inv: "tq_inv {} q" and "armed_ok q" "exec_call c q = Inr q'"
  shows "armed_ok q'"
proof (cases c)
  case (CallAdd clk p cb expir iv)
  then obtain tid where "addTimer clk p cb expir iv q = Inr (tid, q')"
    using assms(3) by (auto simp: result_iffs)
  then have q': "timers q' = fst (oset_insert (expir, p) (timers q))"
    "armed q' = (if timers q = [] \<or> expir < fst (hd (timers q))
                 then Some (clk, howMuchTimeFromNow clk expir) else armed q)"
    using addTimer_spec [OF inv, where clk = clk and p = p and cb = cb and expir = expir and iv = iv]
    by simp_all
  show ?thesis
  proof (cases "timers q = [] \<or> expir < fst (hd (timers q))")
    case True
    then have "fst (hd (timers q')) = expir"
      by (auto simp: q'(1) hd_oset_insert less_prod_def)
    then show ?thesis using True by (auto simp: armed_ok_def q'(2))
  next
    case False
    then have "fst (hd (timers q)) \<le> fst (hd (timers q'))"
      by (auto simp: q'(1) hd_oset_insert)
    moreover have "armed q' = armed q" "timers q \<noteq> []"
      using False by (simp_all add: q'(2))
    ultimately show ?thesis
      using assms(2) unfolding armed_ok_def by (metis order_trans)
  qed
next
  case (CallCancel tid)
  then show ?thesis
    using assms(3) cancelInLoop_eq [OF inv, of tid] armed_ok_cancelled [OF inv assms(2), of tid] by simp
qed

lemma run_idle:
  "snd ` set es \<subseteq> dom (timer_heap q) \<Longrightarrow>
     rfold (\<lambda>e s. deref (timer_heap s) (snd e) (\<lambda>tm. run_calls (\<lambda>_. []) (callback tm) s)) es q = Inr q"
  by (induction es) (auto simp: run_calls_def)

section \<open>Properties\<close>

text \<open>C20: in every history of a queue, with callbacks that add and cancel timers
  while expired timers are being run, no assertion fails, no freed timer is used and no
  timer is scheduled twice: the only failure is \<open>std::bad_alloc\<close>. After each operation the
  allocated timers are exactly the scheduled ones, so none leaks, and \<open>timers_\<close> and
  \<open>activeTimers_\<close> name the same timers.\<close>

theorem timer_queue_safe:
  "case rfold tq_exec ops tqueue_new of
     Inl e \<Rightarrow> e = BadAlloc
   | Inr q \<Rightarrow> tq_inv {} q \<and> length (timers q) = length (activeTimers q) \<and>
       dom (timer_heap q) = snd ` set (timers q)"
proof -
  have dom: "dom (timer_heap q) = snd ` set (timers q)" if "tq_inv {} q" for q :: "'a tqueue"
  proof -
    have ok: "tq_ok {} (timer_heap q) (seqTotal q) (timers q) (activeTimers q)"
      using that by (simp add: tq_inv_def)
    show ?thesis
      using tq_ok_sets(4) [OF ok] by (force simp: image_iff)
  qed
  show ?thesis
    using tq_history_inv [OF tq_inv_new, of ops] dom tq_inv_sizes
    by (cases "rfold tq_exec ops (tqueue_new :: 'a tqueue)") auto
qed

text \<open>C21: what an alarm does with each timer that is due. A repeating one whose
  identity no callback cancelled during the alarm is restarted at \<open>now + interval\<close> and
  scheduled there; every other one is freed.\<close>

theorem handelRead_fate:
  assumes "tq_inv {} q" and "handelRead True (run_calls calls) now clk q = Inr q'"
    and "(t, p) \<in> set (timers q)" "t \<le> now" "timer_heap q p = Some tm"
  shows "if repeat tm \<and> (p, sequence tm) \<notin> set (cancelingTimers q')
    then timer_heap q' p = Some (tm\<lparr>expiration := addTime now (interval tm)\<rparr>) \<and>
         (addTime now (interval tm), p) \<in> set (timers q') \<and> (p, sequence tm) \<in> set (activeTimers q')
    else timer_heap q' p = None \<and> p \<notin> snd ` set (timers q')"
proof -
  have q': "tq_inv {} q'" "timer_heap q' p = after_reset now (cancelingTimers q') p tm"
    using tc.handelRead_spec [OF assms(1), where calls = calls and now = now and clk = clk] assms(2-)
    by (auto simp: expired_at_def)
  have ok: "tq_ok {} (timer_heap q') (seqTotal q') (timers q') (activeTimers q')"
    using q'(1) by (simp add: tq_inv_def)
  show ?thesis
    using q'(2) tq_ok_sets(4,5) [OF ok] by (auto simp: after_reset_def restart_def)
qed

definition one_timer_queue :: "timestamp \<Rightarrow> dbl \<Rightarrow> nat tqueue" where
  "one_timer_queue t iv =
     \<lparr>timer_heap = [1 \<mapsto> fst (Timer 7 t iv 0)], seqTotal = 1, timers = [(t, 1)],
      activeTimers = [(1, 0)], callingExpiredTimers = False, cancelingTimers = [], armed = None\<rparr>"

lemma tq_inv_one_timer: "tq_inv {} (one_timer_queue t iv)"
  by (auto simp: tq_inv_def tq_ok_def one_timer_queue_def Timer_def UINTPTR_MAX_def)

lemmas run_one_timer =
  handelRead_def getExpired_def oset_lower_bound_def less_timestamp_def one_timer_queue_def Timer_def
  deactivate_def run_calls_def tq_reset_def reset_one_def restart_def tq_insert_def Let_def
  dbl_positive_def addTime_def dbl_times_int_def round53_exact dbl_to_int_def
  kMicroSecondsPerSecond_def getInvalid_def isValid_def resetTimerFd_def

theorem handelRead_fate_witness:
  "\<exists>q'. handelRead True (run_calls (\<lambda>_. [])) 10 20 (one_timer_queue 5 (Dbl 1 0)) = Inr q' \<and>
     (1000010, 1) \<in> set (timers q')"
proof -
  obtain q' where q': "handelRead True (run_calls (\<lambda>_. [])) 10 20 (one_timer_queue 5 (Dbl 1 0)) = Inr q'"
    "cancelingTimers q' = []"
    by (simp add: run_one_timer less_prod_def)
  then show ?thesis
    using handelRead_fate [OF tq_inv_one_timer q'(1), of 5 1 "fst (Timer 7 5 (Dbl 1 0) 0)"]
    by (simp add: one_timer_queue_def Timer_def dbl_positive_def addTime_def dbl_times_int_def
        round53_exact dbl_to_int_def kMicroSecondsPerSecond_def)
qed

text \<open>C27: an alarm runs the callback of every timer that is due, each exactly once,
  in the order of the deadlines, whatever timers those callbacks add or cancel.\<close>

theorem handelRead_runs_due_in_order:
  assumes "tq_inv {} q" and "handelRead True (run_logged calls) now clk q = Inr q'"
  shows "fired q' = fired q @
      map (\<lambda>e. callback (the (timer_heap q (snd e)))) (filter (\<lambda>e. fst e \<le> now) (timers q)) \<and>
    sorted (map fst (filter (\<lambda>e. fst e \<le> now) (timers q)))"
proof -
  obtain as where g: "getExpired now q =
      Inr (expired_at now q, q\<lparr>timers := filter (\<lambda>e. \<not> fst e \<le> now) (timers q), activeTimers := as\<rparr>)"
    "tq_inv (snd ` set (expired_at now q))
      (q\<lparr>timers := filter (\<lambda>e. \<not> fst e \<le> now) (timers q), activeTimers := as\<rparr>)"
    using getExpired_eq [OF assms(1), of now, unfolded Un_empty_left] by blast
  let ?q1 = "q\<lparr>timers := filter (\<lambda>e. \<not> fst e \<le> now) (timers q), activeTimers := as,
      callingExpiredTimers := True, cancelingTimers := []\<rparr>"
  have inv1: "tq_inv (snd ` set (expired_at now q)) ?q1"
    using g(2) by (simp add: tq_inv_def)
  obtain q2 where q2: "rfold (\<lambda>e s. deref (timer_heap s) (snd e) (\<lambda>tm. run_logged calls (callback tm) s))
      (expired_at now q) ?q1 = Inr q2"
    "tq_reset True clk (expired_at now q) now (q2\<lparr>callingExpiredTimers := False\<rparr>) = Inr q'"
    using assms(2) by (auto simp: handelRead_def g(1) rbind_Inr_iff)
  have "fired q' = fired q @ map (\<lambda>e. callback (the (timer_heap q (snd e)))) (expired_at now q)"
    using reset_fired [OF q2(2)] run_expired_fired [OF inv1 _ order_refl q2(1)] by simp
  moreover have "sorted (map fst (timers q))"
    using assms(1)
    by (auto simp: tq_inv_def tq_ok_def oset_ok_def sorted_wrt_map less_prod_def
        elim!: sorted_wrt_mono_rel [rotated])
  then have "sorted (map fst (filter (\<lambda>e. fst e \<le> now) (timers q)))"
    by (rule sorted_filter)
  ultimately show ?thesis by (simp add: expired_at_def)
qed


theorem handelRead_runs_due_in_order_witness:
  "\<exists>q'. handelRead True (run_logged (\<lambda>_. [CallCancel (1, 0)])) 10 20
      (tqueue.extend (one_timer_queue 5 (Dbl 1 0)) (logged_tqueue.fields [])) = Inr q' \<and> fired q' = [7]"
proof -
  let ?q = "tqueue.extend (one_timer_queue 5 (Dbl 1 0)) (logged_tqueue.fields [])"
  have inv: "tq_inv {} ?q"
    using tq_inv_one_timer [of 5 "Dbl 1 0"] by (simp add: tq_inv_def tqueue.defs)
  obtain q' where "handelRead True (run_logged (\<lambda>_. [CallCancel (1, 0)])) 10 20 ?q = Inr q'"
    by (simp add: run_one_timer run_logged_def cancelInLoop_def tqueue.defs logged_tqueue.defs
        less_prod_def oset_find_def)
  with handelRead_runs_due_in_order [OF inv this] show ?thesis
    by (simp add: tqueue.defs logged_tqueue.defs one_timer_queue_def Timer_def)
qed

text \<open>identities are never reused, although addresses are. A \<open>TimerId\<close> returned by \<open>addTimer\<close>
  differs from every one returned after any further history, so cancelling the old one never frees
  the new timer, even at the same address.\<close>

theorem timer_ids_unique:
  assumes "tq_inv {} q" and "addTimer clk p cb expir iv q = Inr (tid, q1)"
    and "rfold tq_exec ops q1 = Inr q2"
    and "addTimer clk' p' cb' expir' iv' q2 = Inr (tid', q3)"
    and "cancelInLoop True tid q3 = Inr q4"
  shows "tid \<noteq> tid' \<and> timer_heap q4 p' = timer_heap q3 p' \<and> timer_heap q3 p' \<noteq> None"
proof -
  have a1: "tq_inv {} q1" "tid = (p, seqTotal q)" "seqTotal q1 = seqTotal q + 1"
    using addTimer_spec [OF assms(1), where clk = clk and p = p and cb = cb and expir = expir and iv = iv]
      assms(2) by simp_all
  have q2: "tq_inv {} q2"
    using tq_history_inv [OF a1(1), of ops] assms(3) by simp
  have a2: "tq_inv {} q3" "tid' = (p', seqTotal q2)"
    "timer_heap q3 = (timer_heap q2)(p' \<mapsto> fst (Timer cb' expir' iv' (seqTotal q2)))"
    using addTimer_spec [OF q2, where clk = clk' and p = p' and cb = cb' and expir = expir' and iv = iv']
      assms(4) by simp_all
  have "seqTotal q < seqTotal q2"
    using tq_history_seq [OF assms(3)] a1(3) by simp
  moreover have "q4 = cancelled {} tid q3"
    using cancelInLoop_eq [OF a2(1), of tid] assms(5) by simp
  ultimately show ?thesis
    using a1(2) a2(2,3) by (auto simp: cancelled_def names_scheduled_def Timer_def)
qed

theorem timer_ids_unique_witness:
  "\<exists>tid q1 q2 tid' q3 q4. addTimer 0 9 (1::nat) 5 (Dbl 0 0) tqueue_new = Inr (tid, q1) \<and>
     rfold tq_exec [OpCall (CallCancel tid)] q1 = Inr q2 \<and>
     addTimer 0 9 2 6 (Dbl 0 0) q2 = Inr (tid', q3) \<and> cancelInLoop True tid q3 = Inr q4 \<and>
     tid \<noteq> tid' \<and> timer_heap q4 9 = timer_heap q3 9"
proof -
  note run = addTimer_def new_timer_def addTimerInLoop_def tq_insert_def Timer_def tqueue_new_def Let_def
    resetTimerFd_def cancelInLoop_def UINTPTR_MAX_def oset_find_def
  obtain tid q1 where 1: "addTimer 0 9 (1::nat) 5 (Dbl 0 0) tqueue_new = Inr (tid, q1)"
    by (simp add: run)
  obtain q2 where 2: "rfold tq_exec [OpCall (CallCancel tid)] q1 = Inr q2"
    using 1 by (auto simp: run)
  obtain tid' q3 where 3: "addTimer 0 9 2 6 (Dbl 0 0) q2 = Inr (tid', q3)"
    using 1 2 by (auto simp: run)
  obtain q4 where 4: "cancelInLoop True tid q3 = Inr q4"
    using 1 2 3 by (auto simp: run)
  show ?thesis
    using timer_ids_unique [OF tq_inv_new 1 2 3 4] 1 2 3 4 by blast
qed



text \<open>with an earliest deadline that is not valid, as the wrapped clock readings of
  \<open>getNow\<close> produce, an alarm whose callbacks make no calls leaves the descriptor as it was: it
  is not armed again, although timers are waiting.\<close>

theorem timerfd_stalls:
  assumes "tq_inv {} q" and "handelRead True (run_calls (\<lambda>_. [])) now clk q = Inr q'"
    and "timers q' \<noteq> []" "\<not> isValid (fst (hd (timers q')))"
  shows "armed q' = armed q"
proof -
  obtain as where g: "getExpired now q =
      Inr (expired_at now q, q\<lparr>timers := filter (\<lambda>e. \<not> fst e \<le> now) (timers q), activeTimers := as\<rparr>)"
    "tq_inv (snd ` set (expired_at now q))
      (q\<lparr>timers := filter (\<lambda>e. \<not> fst e \<le> now) (timers q), activeTimers := as\<rparr>)"
    using getExpired_eq [OF assms(1), of now, unfolded Un_empty_left] by blast
  let ?q1 = "q\<lparr>timers := filter (\<lambda>e. \<not> fst e \<le> now) (timers q), activeTimers := as,
      callingExpiredTimers := True, cancelingTimers := []\<rparr>"
  have "snd ` set (expired_at now q) \<subseteq> dom (timer_heap ?q1)"
    using g(2) by (auto simp: tq_inv_def dest!: tq_ok_sets(3))
  then have idle: "rfold (\<lambda>e s. deref (timer_heap s) (snd e) (\<lambda>tm. run_calls (\<lambda>_. []) (callback tm) s))
      (expired_at now q) ?q1 = Inr ?q1"
    by (rule run_idle)
  have inv: "tq_inv (snd ` set (expired_at now q)) (?q1\<lparr>callingExpiredTimers := False\<rparr>)"
    using g(2) by (simp add: tq_inv_def)
  have dist: "distinct (map snd (expired_at now q))"
    unfolding expired_at_def using tq_inv_distinct_ptrs [OF assms(1)] by (rule distinct_map_filter)
  have "armed q' = rearmed clk (timers q') (armed q)"
    using tq_reset_eq [where F = "{}", unfolded Un_empty_left, OF inv dist, where clk = clk and now = now] assms(2)
    by (auto simp: handelRead_def g(1) idle)
  then show ?thesis
    using assms(3,4) by (cases "timers q'") (simp_all add: rearmed_def)
qed

theorem timerfd_stalls_witness:
  "\<exists>q'. handelRead True (run_calls (\<lambda>_. [])) (getNow 2148 0) (getNow 2148 1)
      (one_timer_queue (getNow 2148 0) (Dbl 1 0)) = Inr q' \<and> timers q' \<noteq> [] \<and> armed q' = None"
proof -
  let ?q = "one_timer_queue (getNow 2148 0) (Dbl 1 0)"
  have now: "getNow 2148 0 = - 2146967296" "getNow 2148 1 = - 2146967295"
    by (simp_all add: getNow_def to_int32_def kMicroSecondsPerSecond_def)
  obtain q' where q': "handelRead True (run_calls (\<lambda>_. [])) (getNow 2148 0) (getNow 2148 1) ?q = Inr q'"
    "timers q' = [(- 2145967296, 1)]"
    unfolding now by (simp add: run_one_timer less_prod_def UINTPTR_MAX_def)
  then show ?thesis
    using timerfd_stalls [OF tq_inv_one_timer q'(1)] by (simp add: isValid_def one_timer_queue_def)
qed

end
