(* ===== verification/Thread_Pool.thy ===== *)
theory Thread_Pool
  imports Prelude "HOL-Library.Multiset"
begin

text \<open>
  \<open>threadpool/threadpool.h\<close> and \<open>threadpool/threadpool.cpp\<close>: the workers, the clients and
  the destructor of a \<open>ThreadPool\<close> as threads that interleave at the points where the
  code takes or releases \<open>m_mutex\<close>, waits on \<open>m_cond\<close>, or touches \<open>m_bStop\<close>. \<open>pstep\<close>
  runs one such step and is executable; \<open>pool_step\<close> is the relation it gives.
  The locale \<open>invariant_system\<close> of \<open>Prelude\<close> is interpreted on it.
\<close>

section \<open>States\<close>

text \<open>
  Where a worker is in \<open>threadFunc\<close>: before taking the lock (\<open>Start\<close>), holding it and about
  to evaluate the predicate of \<open>m_cond.wait\<close> (\<open>Test\<close>), holding it with the predicate
  found false (\<open>Blocking\<close>), asleep in \<open>m_cond\<close> (\<open>Waiting\<close>), awake again but without the lock
  (\<open>Woken\<close>), holding it with the predicate found true (\<open>Fetch\<close>), inside \<open>curTask()\<close>, returned.
\<close>

datatype 't phase = Start | Test | Blocking | Waiting | Woken | Fetch | Running 't | Exited

text \<open>Where \<open>~ThreadPool\<close> is: not called, after the store to \<open>m_bStop\<close>, after
  \<open>notify_all\<close>, returned.\<close>

datatype dtor_phase = NotCalled | Stored | Joining | Joined

text \<open>\<open>pushed\<close>, \<open>taken\<close> and \<open>finished\<close> record the tasks added, taken out of
  \<open>m_taskQueue\<close> and returned from.\<close>

record 't pool =
  threads :: "'t phase list"
  taskQueue :: "'t list"
  owner :: "nat option"
  bStop :: bool
  dtor :: dtor_phase
  pushed :: "'t list"
  taken :: "'t list"
  finished :: "'t list"

definition pool_new :: "nat \<Rightarrow> 't pool" where
  "pool_new threadNum = \<lparr>threads = replicate threadNum Start, taskQueue = [], owner = None,
     bStop = False, dtor = NotCalled, pushed = [], taken = [], finished = []\<rparr>"

definition ThreadNum :: nat where
  "ThreadNum = 4"

definition GetInstance :: "'t pool option \<Rightarrow> 't pool" where
  "GetInstance m_pInstance = (case m_pInstance of None \<Rightarrow> pool_new ThreadNum | Some p \<Rightarrow> p)"

section \<open>Steps\<close>

definition at_phase :: "'t pool \<Rightarrow> nat \<Rightarrow> 't phase \<Rightarrow> bool" where
  "at_phase s i ph \<longleftrightarrow> i < length (threads s) \<and> threads s ! i = ph"

definition goto :: "nat \<Rightarrow> 't phase \<Rightarrow> 't pool \<Rightarrow> 't pool" where
  "goto i ph s = s\<lparr>threads := (threads s)[i := ph]\<rparr>"

text \<open>\<open>unique_lock lock(m_mutex)\<close>, and the lock again at the end of a wait.\<close>

definition worker_lock :: "nat \<Rightarrow> 't pool \<Rightarrow> 't pool option" where
  "worker_lock i s =
     (if (at_phase s i Start \<or> at_phase s i Woken) \<and> owner s = None
      then Some (goto i Test (s\<lparr>owner := Some i\<rparr>)) else None)"

text \<open>The predicate of the wait.\<close>

definition worker_test :: "nat \<Rightarrow> 't pool \<Rightarrow> 't pool option" where
  "worker_test i s =
     (if at_phase s i Test
      then Some (goto i (if bStop s \<or> taskQueue s \<noteq> [] then Fetch else Blocking) s) else None)"

text \<open>\<open>m_cond.wait\<close> blocks and unlocks at once.\<close>

definition worker_block :: "nat \<Rightarrow> 't pool \<Rightarrow> 't pool option" where
  "worker_block i s =
     (if at_phase s i Blocking then Some (goto i Waiting (s\<lparr>owner := None\<rparr>)) else None)"

text \<open>A spurious wakeup.\<close>

definition worker_wake :: "nat \<Rightarrow> 't pool \<Rightarrow> 't pool option" where
  "worker_wake i s = (if at_phase s i Waiting then Some (goto i Woken s) else None)"

text \<open>After the wait: return, or take the first task; both unlock. \<open>front\<close> and \<open>pop\<close> of an empty
  queue are undefined behaviour.\<close>

definition worker_fetch :: "nat \<Rightarrow> 't pool \<Rightarrow> 't pool result option" where
  "worker_fetch i s =
     (if at_phase s i Fetch
      then Some (if bStop s \<and> taskQueue s = [] then Inr (goto i Exited (s\<lparr>owner := None\<rparr>))
                 else (case taskQueue s of
                         [] \<Rightarrow> Inl Undefined
                       | t # ts \<Rightarrow> Inr (goto i (Running t)
                           (s\<lparr>taskQueue := ts, taken := taken s @ [t], owner := None\<rparr>))))
      else None)"

definition worker_finish :: "nat \<Rightarrow> 't pool \<Rightarrow> 't pool option" where
  "worker_finish i s =
     (case (if i < length (threads s) then threads s ! i else Exited) of
        Running t \<Rightarrow> Some (goto i Start (s\<lparr>finished := finished s @ [t]\<rparr>))
      | _ \<Rightarrow> None)"

text \<open>
  \<open>addTask\<close>: its whole body runs under the lock. The caller is a running task
  (\<open>Some i\<close>) or a client thread (\<open>None\<close>), which must not race with the destructor.
  \<open>notify_one\<close> wakes some sleeping worker \<open>w\<close>, if there is one.
\<close>

definition addTask :: "nat option \<Rightarrow> nat option \<Rightarrow> 't \<Rightarrow> 't pool \<Rightarrow> 't pool option" where
  "addTask caller w t s =
     (if owner s = None \<and>
         (case caller of None \<Rightarrow> dtor s = NotCalled
          | Some i \<Rightarrow> i < length (threads s) \<and> (case threads s ! i of Running _ \<Rightarrow> True | _ \<Rightarrow> False)) \<and>
         (case w of None \<Rightarrow> Waiting \<notin> set (threads s) | Some j \<Rightarrow> at_phase s j Waiting)
      then (let s' = s\<lparr>taskQueue := taskQueue s @ [t], pushed := pushed s @ [t]\<rparr>
            in Some (case w of None \<Rightarrow> s' | Some j \<Rightarrow> goto j Woken s'))
      else None)"

text \<open>\<open>~ThreadPool\<close>: the store (without the lock), \<open>notify_all\<close>, and the last \<open>join\<close>.\<close>

definition dtor_store :: "'t pool \<Rightarrow> 't pool option" where
  "dtor_store s = (if dtor s = NotCalled then Some (s\<lparr>bStop := True, dtor := Stored\<rparr>) else None)"

definition woken :: "'t phase \<Rightarrow> 't phase" where
  "woken ph = (if ph = Waiting then Woken else ph)"

definition dtor_notify :: "'t pool \<Rightarrow> 't pool option" where
  "dtor_notify s =
     (if dtor s = Stored then Some (s\<lparr>threads := map woken (threads s), dtor := Joining\<rparr>) else None)"

definition dtor_join :: "'t pool \<Rightarrow> 't pool option" where
  "dtor_join s =
     (if dtor s = Joining \<and> list_all (\<lambda>ph. ph = Exited) (threads s)
      then Some (s\<lparr>dtor := Joined\<rparr>) else None)"

datatype 't plabel =
    Lock nat | Predicate nat | Block nat | Spurious nat | Take nat | Finish nat
  | Add "nat option" "nat option" 't
  | StoreStop | NotifyAll | Join

fun pstep :: "'t plabel \<Rightarrow> 't pool \<Rightarrow> 't pool result option" where
  "pstep (Lock i) s = map_option Inr (worker_lock i s)"
| "pstep (Predicate i) s = map_option Inr (worker_test i s)"
| "pstep (Block i) s = map_option Inr (worker_block i s)"
| "pstep (Spurious i) s = map_option Inr (worker_wake i s)"
| "pstep (Take i) s = worker_fetch i s"
| "pstep (Finish i) s = map_option Inr (worker_finish i s)"
| "pstep (Add c w t) s = map_option Inr (addTask c w t s)"
| "pstep StoreStop s = map_option Inr (dtor_store s)"
| "pstep NotifyAll s = map_option Inr (dtor_notify s)"
| "pstep Join s = map_option Inr (dtor_join s)"

inductive pool_step :: "'t pool \<Rightarrow> 't pool \<Rightarrow> bool" where
  "pstep l s = Some (Inr s') \<Longrightarrow> pool_step s s'"

inductive_cases pool_stepE: "pool_step s s'"

definition pool_init :: "'t pool \<Rightarrow> bool" where
  "pool_init s \<longleftrightarrow> (\<exists>n. s = pool_new n)"

fun run_labels :: "'t plabel list \<Rightarrow> 't pool \<Rightarrow> 't pool option" where
  "run_labels [] s = Some s"
| "run_labels (l # ls) s = (case pstep l s of Some (Inr s') \<Rightarrow> run_labels ls s' | _ \<Rightarrow> None)"

lemma run_labels_reach:
  "run_labels ls s = Some s' \<Longrightarrow> reach pool_init pool_step s \<Longrightarrow> reach pool_init pool_step s'"
  by (induction ls s rule: run_labels.induct)
    (auto split: option.splits sum.splits intro: reach_step pool_step.intros)

section \<open>The invariant\<close>

definition holds_lock :: "'t phase \<Rightarrow> bool" where
  "holds_lock ph \<longleftrightarrow> ph = Test \<or> ph = Blocking \<or> ph = Fetch"

text \<open>Awake and not inside a task.\<close>

definition ready :: "'t phase \<Rightarrow> bool" where
  "ready ph \<longleftrightarrow> ph = Start \<or> ph = Woken \<or> holds_lock ph"

lemma phase_simps [simp]:
  "holds_lock Test" "holds_lock Blocking" "holds_lock Fetch" "\<not> holds_lock Start" "\<not> holds_lock Woken"
  "\<not> holds_lock Waiting" "\<not> holds_lock (Running t)" "\<not> holds_lock Exited"
  "ready Start" "ready Woken" "ready Test" "ready Blocking" "ready Fetch" "\<not> ready Waiting"
  "\<not> ready (Running t)" "\<not> ready Exited"
  by (simp_all add: holds_lock_def ready_def)

fun running :: "'t phase \<Rightarrow> 't list" where
  "running (Running t) = [t]"
| "running _ = []"

abbreviation ready_count :: "'t pool \<Rightarrow> nat" where
  "ready_count s \<equiv> length (filter ready (threads s))"

definition lock_inv :: "'t phase list \<Rightarrow> nat option \<Rightarrow> 't list \<Rightarrow> bool \<Rightarrow> bool" where
  "lock_inv ths own q stop \<longleftrightarrow>
     (\<forall>i < length ths. (own = Some i \<longleftrightarrow> holds_lock (ths ! i)) \<and>
        (ths ! i = Fetch \<longrightarrow> stop \<or> q \<noteq> []) \<and> (ths ! i = Blocking \<longrightarrow> q = []) \<and>
        (ths ! i = Exited \<longrightarrow> stop)) \<and>
     (\<forall>i. own = Some i \<longrightarrow> i < length ths)"

definition pool_inv :: "'t pool \<Rightarrow> bool" where
  "pool_inv s \<longleftrightarrow>
     lock_inv (threads s) (owner s) (taskQueue s) (bStop s) \<and>
     (bStop s \<longleftrightarrow> dtor s \<noteq> NotCalled) \<and>
     pushed s = taken s @ taskQueue s \<and>
     mset (taken s) = mset (finished s) + mset (concat (map running (threads s))) \<and>
     (Waiting \<in> set (threads s) \<longrightarrow> length (taskQueue s) \<le> ready_count s) \<and>
     (taskQueue s \<noteq> [] \<longrightarrow> threads s \<noteq> [] \<longrightarrow> (\<exists>ph \<in> set (threads s). ph \<noteq> Exited)) \<and>
     (dtor s = Joined \<longrightarrow> (\<forall>ph \<in> set (threads s). ph = Exited))"


lemma length_filter_update:
  "i < length xs \<Longrightarrow>
     length (filter P (xs[i := x])) + of_bool (P (xs ! i)) = length (filter P xs) + of_bool (P x)"
proof (induction xs arbitrary: i)
  case (Cons y ys)
  show ?case
  proof (cases i)
    case (Suc j)
    then show ?thesis using Cons.IH [of j] Cons.prems by simp
  qed simp
qed simp

lemma mset_concat_update:
  "i < length xs \<Longrightarrow>
     mset (concat (map f (xs[i := x]))) + mset (f (xs ! i)) = mset (concat (map f xs)) + mset (f x)"
proof (induction xs arbitrary: i)
  case (Cons y ys)
  show ?case
  proof (cases i)
    case (Suc j)
    then show ?thesis using Cons.IH [of j] Cons.prems by (simp add: union_assoc)
  qed simp
qed simp

lemma lock_inv_acquire:
  "lock_inv ths None q stop \<Longrightarrow> i < length ths \<Longrightarrow> lock_inv (ths[i := Test]) (Some i) q stop"
  by (auto simp: lock_inv_def nth_list_update holds_lock_def)

lemma lock_inv_keep:
  "lock_inv ths (Some i) q stop \<Longrightarrow> ph = Fetch \<and> (stop \<or> q \<noteq> []) \<or> ph = Blocking \<and> q = [] \<Longrightarrow>
     lock_inv (ths[i := ph]) (Some i) q stop"
  by (auto simp: lock_inv_def nth_list_update holds_lock_def)

lemma lock_inv_release:
  "lock_inv ths (Some i) q stop \<Longrightarrow> \<not> holds_lock ph \<Longrightarrow> (ph = Exited \<Longrightarrow> stop) \<Longrightarrow>
     lock_inv (ths[i := ph]) None q' stop"
  unfolding lock_inv_def by (auto simp: nth_list_update holds_lock_def)

lemma lock_inv_outside:
  "lock_inv ths own q stop \<Longrightarrow> i < length ths \<Longrightarrow> \<not> holds_lock (ths ! i) \<Longrightarrow> \<not> holds_lock ph \<Longrightarrow>
     ph \<noteq> Exited \<Longrightarrow> lock_inv (ths[i := ph]) own q stop"
  by (auto simp: lock_inv_def nth_list_update holds_lock_def)

lemma lock_inv_push: "lock_inv ths None q stop \<Longrightarrow> lock_inv ths None q' stop"
  by (auto simp: lock_inv_def holds_lock_def) 

lemma lock_inv_owner: "lock_inv ths own q stop \<Longrightarrow> i < length ths \<Longrightarrow> holds_lock (ths ! i) \<Longrightarrow> own = Some i"
  by (auto simp: lock_inv_def)


text \<open>What every step that moves one worker has to show: the lock, the accounts of tasks,
  and that enough workers stay awake.\<close>

lemma pool_inv_move:
  assumes "pool_inv s" "i < length (threads s)" and s': "threads s' = (threads s)[i := ph]"
    "bStop s' = bStop s" "dtor s' = dtor s" "dtor s \<noteq> Joined"
    and lock: "lock_inv ((threads s)[i := ph]) (owner s') (taskQueue s') (bStop s)"
    and acc: "pushed s' = taken s' @ taskQueue s'"
      "mset (taken s') + mset (finished s) + mset (running (threads s ! i)) =
         mset (taken s) + mset (finished s') + mset (running ph)"
    and awake: "Waiting \<in> insert ph (set (threads s)) \<Longrightarrow>
         length (taskQueue s') + of_bool (ready (threads s ! i)) \<le> ready_count s + of_bool (ready ph)"
    and left: "taskQueue s' \<noteq> [] \<Longrightarrow> ph \<noteq> Exited"
  shows "pool_inv s'"
proof -
  note inv = assms(1) [unfolded pool_inv_def]
  have "Waiting \<in> set (threads s') \<longrightarrow> length (taskQueue s') \<le> ready_count s'"
    using length_filter_update [OF assms(2), of ready ph] awake set_update_subset_insert [of "threads s" i ph]
    by (auto simp: s'(1))
  moreover have "mset (taken s') = mset (finished s') + mset (concat (map running (threads s')))"
  proof -
    let ?c = "\<lambda>s. mset (concat (map running (threads s)))"
    have a: "?c s' + mset (running (threads s ! i)) = ?c s + mset (running ph)"
      using mset_concat_update [OF assms(2), of running ph] by (simp add: s'(1))
    have b: "mset (taken s) = mset (finished s) + ?c s"
      using inv by simp
    have "mset (taken s') + (mset (finished s) + mset (running (threads s ! i))) =
        mset (finished s) + mset (finished s') + (?c s + mset (running ph))"
      using acc(2) b by (simp add: ac_simps)
    also have "\<dots> = mset (finished s') + ?c s' + (mset (finished s) + mset (running (threads s ! i)))"
      unfolding a [symmetric] by (simp add: ac_simps)
    finally show ?thesis by (simp only: add_right_cancel)
  qed
  moreover have "taskQueue s' \<noteq> [] \<longrightarrow> threads s' \<noteq> [] \<longrightarrow> (\<exists>ph \<in> set (threads s'). ph \<noteq> Exited)"
    using left set_update_memI [OF assms(2), of ph] by (auto simp: s'(1))
  ultimately show ?thesis
    using inv s' lock acc(1) by (simp add: pool_inv_def)
qed

lemma ready_pos:
  assumes "i < length (threads s)" "ready (threads s ! i)"
  shows "0 < ready_count s"
proof -
  have "threads s ! i \<in> set (filter ready (threads s))" using assms by simp
  then show ?thesis by (metis length_pos_if_in_set)
qed

lemma not_joined:
  assumes "pool_inv s" "i < length (threads s)" "threads s ! i \<noteq> Exited"
  shows "dtor s \<noteq> Joined"
  using assms nth_mem [OF assms(2)] by (auto simp: pool_inv_def)

lemma worker_lock_inv:
  assumes "pool_inv s" "worker_lock i s = Some s'"
  shows "pool_inv s'"
proof (rule pool_inv_move [OF assms(1)])
  show "i < length (threads s)" and "threads s' = (threads s)[i := Test]"
    and "bStop s' = bStop s" "dtor s' = dtor s"
    using assms(2) by (auto simp: worker_lock_def at_phase_def goto_def split: if_splits)
  show "dtor s \<noteq> Joined"
    using not_joined [OF assms(1), of i] assms(2)
    by (auto simp: worker_lock_def at_phase_def split: if_splits)
qed (use assms in \<open>auto simp: pool_inv_def worker_lock_def at_phase_def goto_def ready_def holds_lock_def
      lock_inv_acquire split: if_splits\<close>)

lemma worker_test_inv:
  assumes "pool_inv s" "worker_test i s = Some s'"
  shows "pool_inv s'"
proof -
  let ?ph = "if bStop s \<or> taskQueue s \<noteq> [] then Fetch else Blocking"
  have i: "i < length (threads s)" "threads s ! i = Test" "s' = goto i ?ph s"
    using assms(2) by (auto simp: worker_test_def at_phase_def split: if_splits)
  have own: "owner s = Some i"
    using assms(1) i by (auto simp: pool_inv_def holds_lock_def intro: lock_inv_owner)
  show ?thesis
  proof (rule pool_inv_move [OF assms(1) i(1), where ph = ?ph])
    show "dtor s \<noteq> Joined"
      using not_joined [OF assms(1) i(1)] i(2) by simp
    show "lock_inv ((threads s)[i := ?ph]) (owner s') (taskQueue s') (bStop s)"
      using assms(1) own i(3) by (auto simp: pool_inv_def goto_def intro!: lock_inv_keep)
  qed (use assms(1) i in \<open>auto simp: pool_inv_def goto_def ready_def holds_lock_def split: if_splits\<close>)
qed

lemma worker_block_inv:
  assumes "pool_inv s" "worker_block i s = Some s'"
  shows "pool_inv s'"
proof -
  have i: "i < length (threads s)" "threads s ! i = Blocking" "s' = goto i Waiting (s\<lparr>owner := None\<rparr>)"
    using assms(2) by (auto simp: worker_block_def at_phase_def split: if_splits)
  have own: "owner s = Some i" and q: "taskQueue s = []"
    using assms(1) i by (auto simp: pool_inv_def holds_lock_def lock_inv_def)
  show ?thesis
  proof (rule pool_inv_move [OF assms(1) i(1), where ph = Waiting])
    show "dtor s \<noteq> Joined"
      using not_joined [OF assms(1) i(1)] i(2) by simp
    show "lock_inv ((threads s)[i := Waiting]) (owner s') (taskQueue s') (bStop s)"
      using assms(1) own i(3) by (auto simp: pool_inv_def goto_def holds_lock_def intro!: lock_inv_release)
    show "length (taskQueue s') + of_bool (ready (threads s ! i)) \<le> ready_count s + of_bool (ready Waiting)"
      using ready_pos [OF i(1)] i(2,3) q by (simp add: goto_def ready_def holds_lock_def Suc_le_eq)
  qed (use assms(1) i q in \<open>auto simp: pool_inv_def goto_def\<close>)
qed


lemma worker_wake_inv:
  assumes "pool_inv s" "worker_wake i s = Some s'"
  shows "pool_inv s'"
proof -
  have i: "i < length (threads s)" "threads s ! i = Waiting" "s' = goto i Woken s"
    using assms(2) by (auto simp: worker_wake_def at_phase_def split: if_splits)
  show ?thesis
  proof (rule pool_inv_move [OF assms(1) i(1), where ph = Woken])
    show "dtor s \<noteq> Joined"
      using not_joined [OF assms(1) i(1)] i(2) by simp
    show "lock_inv ((threads s)[i := Woken]) (owner s') (taskQueue s') (bStop s)"
      using assms(1) i by (auto simp: pool_inv_def goto_def holds_lock_def intro!: lock_inv_outside)
  qed (use assms(1) i in \<open>auto simp: pool_inv_def goto_def\<close>)
qed

lemma worker_fetch_inv:
  assumes "pool_inv s" "worker_fetch i s = Some (Inr s')"
  shows "pool_inv s'"
proof -
  have i: "i < length (threads s)" "threads s ! i = Fetch"
    using assms(2) by (auto simp: worker_fetch_def at_phase_def split: if_splits)
  have own: "owner s = Some i"
    using assms(1) i by (auto simp: pool_inv_def holds_lock_def intro: lock_inv_owner)
  have live: "dtor s \<noteq> Joined"
    using not_joined [OF assms(1) i(1)] i(2) by simp
  have lock: "lock_inv ((threads s)[i := ph]) None q (bStop s)"
    if "\<not> holds_lock ph" "ph = Exited \<Longrightarrow> bStop s" for ph q
    using assms(1) own that by (auto simp: pool_inv_def intro: lock_inv_release)
  have pos: "0 < ready_count s"
    using ready_pos [OF i(1)] i(2) by (simp add: ready_def holds_lock_def)
  show ?thesis
  proof (cases "taskQueue s")
    case Nil
    then have s': "bStop s" "s' = goto i Exited (s\<lparr>owner := None\<rparr>)"
      using assms(2) i by (auto simp: worker_fetch_def at_phase_def split: if_splits)
    show ?thesis
      by (rule pool_inv_move [OF assms(1) i(1), where ph = Exited])
        (use assms(1) i Nil s' live lock pos in
          \<open>auto simp: pool_inv_def goto_def holds_lock_def ready_def Suc_le_eq\<close>)
  next
    case (Cons t ts)
    then have s': "s' = goto i (Running t) (s\<lparr>taskQueue := ts, taken := taken s @ [t], owner := None\<rparr>)"
      using assms(2) i by (auto simp: worker_fetch_def at_phase_def)
    show ?thesis
      by (rule pool_inv_move [OF assms(1) i(1), where ph = "Running t"])
        (use assms(1) i Cons s' live lock in \<open>auto simp: pool_inv_def goto_def holds_lock_def ready_def\<close>)
  qed
qed

lemma worker_finish_inv:
  assumes "pool_inv s" "worker_finish i s = Some s'"
  shows "pool_inv s'"
proof -
  obtain t where i: "i < length (threads s)" "threads s ! i = Running t"
    "s' = goto i Start (s\<lparr>finished := finished s @ [t]\<rparr>)"
    using assms(2) by (auto simp: worker_finish_def split: phase.splits if_splits)
  show ?thesis
  proof (rule pool_inv_move [OF assms(1) i(1), where ph = Start])
    show "dtor s \<noteq> Joined"
      using not_joined [OF assms(1) i(1)] i(2) by simp
    show "lock_inv ((threads s)[i := Start]) (owner s') (taskQueue s') (bStop s)"
      using assms(1) i by (auto simp: pool_inv_def goto_def holds_lock_def intro!: lock_inv_outside)
  qed (use assms(1) i in \<open>auto simp: pool_inv_def goto_def ready_def holds_lock_def\<close>)
qed

lemma addTask_inv:
  assumes inv: "pool_inv s" and "addTask c w t s = Some s'"
  shows "pool_inv s'"
proof -
  let ?s = "s\<lparr>taskQueue := taskQueue s @ [t], pushed := pushed s @ [t]\<rparr>"
  have own: "owner s = None"
    and c: "case c of None \<Rightarrow> dtor s = NotCalled
            | Some i \<Rightarrow> i < length (threads s) \<and> (case threads s ! i of Running _ \<Rightarrow> True | _ \<Rightarrow> False)"
    and w: "case w of None \<Rightarrow> Waiting \<notin> set (threads s) | Some j \<Rightarrow> at_phase s j Waiting"
    and s': "s' = (case w of None \<Rightarrow> ?s | Some j \<Rightarrow> goto j Woken ?s)"
    using assms(2) by (auto simp: addTask_def Let_def split: if_splits)
  have lock: "lock_inv (threads s) None (taskQueue s @ [t]) (bStop s)"
    using inv own by (auto simp: pool_inv_def intro: lock_inv_push)
  have alive: "threads s \<noteq> [] \<Longrightarrow> (\<exists>ph \<in> set (threads s). ph \<noteq> Exited) \<and> dtor s \<noteq> Joined"
  proof (cases c)
    case None
    then have "dtor s = NotCalled" using c by simp
    then have "\<not> bStop s" using inv by (simp add: pool_inv_def)
    then have "ph \<noteq> Exited" if "ph \<in> set (threads s)" for ph
      using inv that by (auto simp: pool_inv_def lock_inv_def in_set_conv_nth)
    moreover assume "threads s \<noteq> []"
    ultimately show ?thesis using \<open>dtor s = NotCalled\<close> by (metis dtor_phase.distinct(5) list.set_sel(1))
  next
    case (Some i)
    then have i: "i < length (threads s)" "threads s ! i \<noteq> Exited"
      using c by (auto split: phase.splits)
    then show ?thesis
      using not_joined [OF inv i] nth_mem [OF i(1)] by auto
  qed
  show ?thesis
  proof (cases w)
    case None
    then have "Waiting \<notin> set (threads s)" "s' = ?s" using w s' by simp_all
    then show ?thesis
      using inv lock own alive by (auto simp: pool_inv_def)
  next
    case (Some j)
    then have j: "j < length (threads s)" "threads s ! j = Waiting" "s' = goto j Woken ?s"
      using w s' by (auto simp: at_phase_def)
    have "Waiting \<in> set (threads s)" using j nth_mem [OF j(1)] by simp
    then have "length (taskQueue s) \<le> ready_count s" using inv by (simp add: pool_inv_def)
    then show ?thesis
      by (intro pool_inv_move [OF inv j(1), where ph = Woken])
        (use inv own lock alive j not_joined [OF inv j(1)] in \<open>auto simp: pool_inv_def goto_def ready_def holds_lock_def
          intro!: lock_inv_outside\<close>)
  qed
qed

lemma lock_inv_stop: "lock_inv ths own q stop \<Longrightarrow> lock_inv ths own q True"
  by (auto simp: lock_inv_def)

lemma lock_inv_woken:
  assumes "lock_inv ths own q stop"
  shows "lock_inv (map woken ths) own q stop"
  using assms by (auto simp: lock_inv_def woken_def holds_lock_def)

lemma running_woken [simp]: "running (woken ph) = running ph"
  by (simp add: woken_def)

lemma woken_not_waiting: "woken ph \<noteq> Waiting"
  by (simp add: woken_def)

lemma woken_eq_Exited [simp]: "woken ph = Exited \<longleftrightarrow> ph = Exited"
  by (simp add: woken_def)

lemma dtor_inv:
  assumes "pool_inv s"
  shows "dtor_store s = Some s' \<Longrightarrow> pool_inv s'" "dtor_notify s = Some s' \<Longrightarrow> pool_inv s'"
    "dtor_join s = Some s' \<Longrightarrow> pool_inv s'"
proof -
  show "pool_inv s'" if "dtor_store s = Some s'"
    using assms that by (auto simp: pool_inv_def dtor_store_def intro: lock_inv_stop split: if_splits)
  show "pool_inv s'" if "dtor_join s = Some s'"
    using assms that by (auto simp: pool_inv_def dtor_join_def list_all_iff split: if_splits)
  have "Waiting \<notin> set (map woken (threads s))"
    using woken_not_waiting by (metis (no_types, lifting) ex_map_conv)
  then show "pool_inv s'" if "dtor_notify s = Some s'"
    using assms that by (auto simp: pool_inv_def dtor_notify_def lock_inv_woken comp_def split: if_splits)
qed

lemma pstep_inv: "pstep l s = Some (Inr s') \<Longrightarrow> pool_inv s \<Longrightarrow> pool_inv s'"
  by (cases l)
    (auto intro: worker_lock_inv worker_test_inv worker_block_inv worker_wake_inv worker_fetch_inv
      worker_finish_inv addTask_inv dtor_inv)

interpretation pool: invariant_system pool_init pool_step pool_inv
proof
  fix s t :: "'t pool"
  show "pool_inv s" if init: "pool_init s"
  proof -
    obtain n where "s = pool_new n" using init by (auto simp: pool_init_def)
    moreover have "concat (map running (replicate n Start)) = ([] :: 't list)"
      by (induction n) simp_all
    ultimately show ?thesis
      by (auto simp: pool_inv_def pool_new_def lock_inv_def holds_lock_def)
  qed
  show "pool_inv t" if "pool_inv s" "pool_step s t"
    using that by (auto elim: pool_stepE dest: pstep_inv)
qed


section \<open>Properties\<close>

lemma worker_can_step:
  assumes inv: "pool_inv s" and i: "i < length (threads s)"
    and "threads s ! i \<noteq> Waiting" "threads s ! i \<noteq> Exited" "owner s = None"
  shows "\<exists>l s'. pstep l s = Some (Inr s') \<and> (\<forall>j. l \<noteq> Spurious j)"
proof -
  have "\<not> holds_lock (threads s ! i)"
    using inv i assms(5) by (auto simp: pool_inv_def lock_inv_def)
  then consider "threads s ! i = Start \<or> threads s ! i = Woken" | t where "threads s ! i = Running t"
    using assms(3,4) by (cases "threads s ! i") auto
  then show ?thesis
  proof cases
    case 1
    then have "pstep (Lock i) s = Some (Inr (goto i Test (s\<lparr>owner := Some i\<rparr>)))"
      using i assms(5) by (auto simp: worker_lock_def at_phase_def)
    then show ?thesis by blast
  next
    case 2
    then have "\<exists>s'. pstep (Finish i) s = Some (Inr s')"
      using i by (simp add: worker_finish_def)
    then show ?thesis by blast
  qed
qed

lemma holder_can_step:
  assumes inv: "pool_inv s" and own: "owner s = Some i"
  shows "\<exists>l s'. pstep l s = Some (Inr s') \<and> (\<forall>j. l \<noteq> Spurious j)"
proof -
  have i: "i < length (threads s)" "holds_lock (threads s ! i)" "threads s ! i = Fetch \<Longrightarrow> bStop s \<or> taskQueue s \<noteq> []"
    using inv own by (auto simp: pool_inv_def lock_inv_def)
  from i(2) consider "threads s ! i = Test" | "threads s ! i = Blocking" | "threads s ! i = Fetch"
    by (auto simp: holds_lock_def)
  then show ?thesis
  proof cases
    case 1
    then have "\<exists>s'. pstep (Predicate i) s = Some (Inr s')"
      using i(1) by (simp add: worker_test_def at_phase_def)
    then show ?thesis by blast
  next
    case 2
    then have "\<exists>s'. pstep (Block i) s = Some (Inr s')"
      using i(1) by (simp add: worker_block_def at_phase_def)
    then show ?thesis by blast
  next
    case 3
    then have "\<exists>s'. pstep (Take i) s = Some (Inr s')"
      using i(1,3) by (cases "taskQueue s") (auto simp: worker_fetch_def at_phase_def)
    then show ?thesis by blast
  qed
qed

text \<open>C26: in every reachable state the tasks were taken in the order they were added, each once;
  those taken are finished or being run by one worker; at most one thread holds the
  mutex; and no step takes a task out of an empty queue.\<close>

theorem pool_exactly_once:
  assumes "reach pool_init pool_step s"
  shows "pushed s = taken s @ taskQueue s \<and>
    mset (taken s) = mset (finished s) + mset (concat (map running (threads s))) \<and>
    length (filter holds_lock (threads s)) \<le> 1 \<and>
    (\<nexists>l e. pstep l s = Some (Inl e))"
proof -
  have inv: "pool_inv s" by (rule pool.reach_inv [OF assms])
  then have lock: "lock_inv (threads s) (owner s) (taskQueue s) (bStop s)"
    unfolding pool_inv_def by blast
  have "{i. i < length (threads s) \<and> holds_lock (threads s ! i)} \<subseteq> set_option (owner s)"
    using lock by (auto simp: lock_inv_def)
  then have "card {i. i < length (threads s) \<and> holds_lock (threads s ! i)} \<le> card (set_option (owner s))"
    by (intro card_mono) (cases "owner s"; simp)+
  moreover have "card (set_option (owner s)) \<le> 1" by (cases "owner s") simp_all
  ultimately have "length (filter holds_lock (threads s)) \<le> 1"
    by (simp add: length_filter_conv_card)
  moreover have "pstep l s \<noteq> Some (Inl e)" for l e
    using lock
    by (cases l) (auto simp: worker_fetch_def at_phase_def lock_inv_def split: list.splits if_splits)
  ultimately show ?thesis using inv by (simp add: pool_inv_def)
qed

lemma reach_new: "reach pool_init pool_step (pool_new n)"
  by (rule reach_init) (auto simp: pool_init_def)

theorem pool_exactly_once_witness:
  "\<exists>s. run_labels [Add None None (7 :: nat), Lock 1, Predicate 1, Take 1] (pool_new 2) = Some s \<and>
     pushed s = taken s @ taskQueue s \<and> taken s = [7]"
proof -
  obtain s where s: "run_labels [Add None None (7 :: nat), Lock 1, Predicate 1, Take 1] (pool_new 2) = Some s"
    "taken s = [7]"
    by (simp add: pool_new_def addTask_def worker_lock_def worker_test_def worker_fetch_def
        at_phase_def goto_def numeral_2_eq_2)
  show ?thesis
    using pool_exactly_once [OF run_labels_reach [OF s(1) reach_new]] s by blast
qed

text \<open>no task waits for a busy worker while another worker sleeps: as long as one sleeps,
  the queue is no longer than the number of workers that are awake and not
  inside a task. Every \<open>notify_one\<close> therefore arrives.\<close>

theorem pool_no_idle_backlog:
  assumes "reach pool_init pool_step s" and "Waiting \<in> set (threads s)"
  shows "length (taskQueue s) \<le> length (filter ready (threads s))"
  using pool.reach_inv [OF assms(1)] assms(2) by (simp add: pool_inv_def)

lemmas run_pool =
  pool_new_def addTask_def worker_lock_def worker_test_def worker_fetch_def worker_block_def
  worker_finish_def dtor_store_def dtor_notify_def dtor_join_def woken_def at_phase_def goto_def

theorem pool_no_idle_backlog_witness:
  "\<exists>s. run_labels [Lock 0, Predicate 0, Block 0, Add None (Some 0) (7 :: nat), Lock 1, Predicate 1, Take 1,
       Lock 0, Predicate 0, Block 0] (pool_new 2) = Some s \<and> length (taskQueue s) \<le> 0"
proof -
  obtain s where s: "run_labels [Lock 0, Predicate 0, Block 0, Add None (Some 0) (7 :: nat), Lock 1,
       Predicate 1, Take 1, Lock 0, Predicate 0, Block 0] (pool_new 2) = Some s"
    "threads s = [Waiting, Running 7]"
    by (simp add: run_pool numeral_2_eq_2)
  have "length (taskQueue s) \<le> length (filter ready (threads s))"
    using pool_no_idle_backlog [OF run_labels_reach [OF s(1) reach_new]] s(2) by simp
  then show ?thesis using s by auto
qed

text \<open>the pool is never stuck with work left. While tasks are queued, or while the
  destructor joins and no worker sleeps, some thread can take a step that is not a
  spurious wakeup.\<close>

theorem pool_progress:
  assumes "reach pool_init pool_step s"
    and "threads s \<noteq> [] \<and> taskQueue s \<noteq> [] \<or> dtor s = Joining \<and> Waiting \<notin> set (threads s)"
  shows "\<exists>l s'. pstep l s = Some (Inr s') \<and> (\<forall>i. l \<noteq> Spurious i)"
proof (cases "owner s")
  case (Some i)
  then show ?thesis by (rule holder_can_step [OF pool.reach_inv [OF assms(1)]])
next
  case None
  have inv: "pool_inv s" by (rule pool.reach_inv [OF assms(1)])
  show ?thesis
  proof (cases "\<exists>ph \<in> set (threads s). ph \<noteq> Waiting \<and> ph \<noteq> Exited")
    case True
    then obtain i where "i < length (threads s)" "threads s ! i \<noteq> Waiting" "threads s ! i \<noteq> Exited"
      by (auto simp: in_set_conv_nth)
    then show ?thesis by (rule worker_can_step [OF inv _ _ _ None])
  next
    case False
    then have "filter ready (threads s) = []" by (auto simp: filter_empty_conv)
    then have "dtor s = Joining" "Waiting \<notin> set (threads s)"
      using inv assms(2) False by (auto simp: pool_inv_def)
    then have "pstep Join s = Some (Inr (s\<lparr>dtor := Joined\<rparr>))"
      using False by (auto simp: dtor_join_def list_all_iff)
    then show ?thesis by blast
  qed
qed

theorem pool_progress_witness:
  "\<exists>s. run_labels [Lock 0, Predicate 0, Block 0, Add None (Some 0) (7 :: nat)] (pool_new 1) = Some s \<and>
     (\<exists>l s'. pstep l s = Some (Inr s') \<and> (\<forall>i. l \<noteq> Spurious i))"
proof -
  obtain s where s: "run_labels [Lock 0, Predicate 0, Block 0, Add None (Some 0) (7 :: nat)] (pool_new 1) = Some s"
    "taskQueue s = [7]" "threads s = [Woken]"
    by (simp add: run_pool)
  show ?thesis
    using pool_progress [OF run_labels_reach [OF s(1) reach_new]] s by auto
qed

text \<open>C29: when the destructor of a pool with workers returns, every worker has returned, and every task that was ever
  added has been taken and run to its end.\<close>

theorem pool_drained:
  assumes "reach pool_init pool_step s" and "dtor s = Joined" "threads s \<noteq> []"
  shows "set (threads s) = {Exited} \<and> taskQueue s = [] \<and> mset (finished s) = mset (pushed s)"
proof -
  have inv: "pool_inv s" by (rule pool.reach_inv [OF assms(1)])
  then have all: "\<forall>ph \<in> set (threads s). ph = Exited" and q: "taskQueue s = []"
    using assms(2,3) by (auto simp: pool_inv_def)
  have "concat (map running (threads s)) = []" using all by auto
  moreover have "set (threads s) = {Exited}"
    using all assms(3) by (metis empty_set subsetI subset_singletonD singleton_iff set_empty)
  ultimately show ?thesis using inv q by (simp add: pool_inv_def)
qed

theorem pool_drained_witness:
  "\<exists>s. run_labels [Add None None (7 :: nat), StoreStop, NotifyAll, Lock 0, Predicate 0, Take 0, Finish 0,
       Lock 0, Predicate 0, Take 0, Join] (pool_new 1) = Some s \<and> mset (finished s) = {#7#}"
proof -
  obtain s where s: "run_labels [Add None None (7 :: nat), StoreStop, NotifyAll, Lock 0, Predicate 0, Take 0,
       Finish 0, Lock 0, Predicate 0, Take 0, Join] (pool_new 1) = Some s"
    "dtor s = Joined" "threads s \<noteq> []" "pushed s = [7]"
    by (simp add: run_pool)
  show ?thesis
    using pool_drained [OF run_labels_reach [OF s(1) reach_new] s(2,3)] s(1,4) by auto
qed

text \<open>C38: the store to \<open>m_bStop\<close> without the lock can fall between a worker's test of
  the predicate and its going to sleep. Then \<open>notify_all\<close> misses that worker: in a
  pool of the size \<open>GetInstance\<close> makes, the destructor reaches a state where the
  only step left of any thread is a spurious wakeup, so it need not ever return.\<close>

theorem pool_stop_lost_wakeup:
  "\<exists>s :: nat pool. reach pool_init pool_step s \<and> length (threads s) = ThreadNum \<and> dtor s = Joining \<and>
     {l. pstep l s \<noteq> None} = {Spurious 0}"
proof -
  let ?ls = "[Lock 0, Predicate 0, StoreStop, NotifyAll, Block 0,
      Lock 1, Predicate 1, Take 1, Lock 2, Predicate 2, Take 2, Lock 3, Predicate 3, Take 3]"
  obtain s :: "nat pool" where s: "run_labels ?ls (GetInstance None) = Some s"
    "threads s = [Waiting, Exited, Exited, Exited]" "dtor s = Joining" "owner s = None"
    by (simp add: run_pool GetInstance_def ThreadNum_def eval_nat_numeral)
  have "reach pool_init pool_step (GetInstance None :: nat pool)"
    by (simp add: GetInstance_def reach_new)
  then have r: "reach pool_init pool_step s" by (rule run_labels_reach [OF s(1)])
  have "{l. pstep l s \<noteq> None} = {Spurious 0}"
  proof (intro set_eqI iffI)
    fix l assume "l \<in> {l. pstep l s \<noteq> None}"
    then show "l \<in> {Spurious 0}"
      using s(2-4)
      by (cases l) (auto simp: run_pool worker_wake_def list_all_iff less_Suc_eq nth_Cons'
          split: if_splits option.splits phase.splits)
  qed (use s(2) in \<open>simp add: worker_wake_def at_phase_def\<close>)
  then show ?thesis
    using r s(2,3) by (auto simp: ThreadNum_def)
qed

end
