(* ===== verification/Channel.thy ===== *)
theory Channel
  imports Prelude Decimal
begin

unbundle bit_operations_syntax

text \<open>
  \<open>net/Channel.h\<close> and \<open>net/Channel.cpp\<close>: a channel as a record, its event masks at their
  width, and \<open>HandleEvent\<close>. Channels live in a heap that maps addresses to channels;
  \<open>HandleEvent\<close> is given the access to that heap (a selector and an update of whatever
  state holds it) and the callbacks as state transformers. The locale \<open>channel_host\<close>
  states what it relies on; \<open>Event_Loop\<close> meets it. The operations that go on to the
  poller (\<open>update\<close>, \<open>remove\<close>) are in \<open>Pollers\<close>.
\<close>

section \<open>Data\<close>

type_synonym events = "32 word"

definition POLLIN :: events where "POLLIN = 0x001"
definition POLLPRI :: events where "POLLPRI = 0x002"
definition POLLOUT :: events where "POLLOUT = 0x004"
definition POLLERR :: events where "POLLERR = 0x008"
definition POLLHUP :: events where "POLLHUP = 0x010"
definition POLLNVAL :: events where "POLLNVAL = 0x020"
definition POLLRDHUP :: events where "POLLRDHUP = 0x2000"

lemmas poll_bits =
  POLLIN_def POLLPRI_def POLLOUT_def POLLERR_def POLLHUP_def POLLNVAL_def POLLRDHUP_def

definition KReadEvent :: events where "KReadEvent = POLLIN OR POLLPRI"
definition KWriteEvent :: events where "KWriteEvent = POLLOUT"
definition KNoneEvent :: events where "KNoneEvent = 0"

lemmas event_masks = KReadEvent_def KWriteEvent_def KNoneEvent_def poll_bits

datatype ChannelInPollerStatus = KInit | KAdded | KDeleted

text \<open>The members the code uses; a callback that was never set is \<open>None\<close>.\<close>

record 'cb channel =
  m_socketFd :: int
  rEvents :: events
  events :: events
  inPollerStatus :: ChannelInPollerStatus
  readCallback :: "'cb option"
  writeCallback :: "'cb option"
  closeCallback :: "'cb option"
  eventHandling :: bool

text \<open>The constructor leaves \<open>rEvents_\<close> indeterminate: \<open>r\<close> stands for its value.\<close>

definition Channel :: "events \<Rightarrow> int \<Rightarrow> 'cb channel" where
  "Channel r fd = \<lparr>m_socketFd = fd, rEvents = r, events = KNoneEvent, inPollerStatus = KInit,
     readCallback = None, writeCallback = None, closeCallback = None, eventHandling = False\<rparr>"

definition SetReadCallback :: "'cb \<Rightarrow> 'cb channel \<Rightarrow> 'cb channel" where
  "SetReadCallback cb c = c\<lparr>readCallback := Some cb\<rparr>"

definition SetWirteCallback :: "'cb \<Rightarrow> 'cb channel \<Rightarrow> 'cb channel" where
  "SetWirteCallback cb c = c\<lparr>writeCallback := Some cb\<rparr>"

definition SetCloseCallback :: "'cb \<Rightarrow> 'cb channel \<Rightarrow> 'cb channel" where
  "SetCloseCallback cb c = c\<lparr>closeCallback := Some cb\<rparr>"

definition SetReceiveEvent :: "events \<Rightarrow> 'cb channel \<Rightarrow> 'cb channel" where
  "SetReceiveEvent revt c = c\<lparr>rEvents := revt\<rparr>"

definition IsNoneEvent :: "'cb channel \<Rightarrow> bool" where
  "IsNoneEvent c \<longleftrightarrow> events c = KNoneEvent"

definition IsEnableReadEvent :: "'cb channel \<Rightarrow> bool" where
  "IsEnableReadEvent c \<longleftrightarrow> events c AND KReadEvent \<noteq> 0"

definition IsEnableWriteEvent :: "'cb channel \<Rightarrow> bool" where
  "IsEnableWriteEvent c \<longleftrightarrow> events c AND KWriteEvent \<noteq> 0"

text \<open>The changes of \<open>events_\<close>; each is followed by \<open>update()\<close>.\<close>

datatype interest_op = EnableReadEvent | DisableReadEvent | EnableWriteEvent | DisableWriteEvent
  | DisableAllEvent

fun change_events :: "interest_op \<Rightarrow> events \<Rightarrow> events" where
  "change_events EnableReadEvent e = e OR KReadEvent"
| "change_events DisableReadEvent e = e AND NOT KReadEvent"
| "change_events EnableWriteEvent e = e OR KWriteEvent"
| "change_events DisableWriteEvent e = e AND NOT KWriteEvent"
| "change_events DisableAllEvent e = KNoneEvent"

definition set_interest :: "interest_op \<Rightarrow> 'cb channel \<Rightarrow> 'cb channel" where
  "set_interest x c = c\<lparr>events := change_events x (events c)\<rparr>"

text \<open>\<open>~Channel\<close>.\<close>

definition channel_delete :: "nat \<Rightarrow> (nat \<rightharpoonup> 'cb channel) \<Rightarrow> (nat \<rightharpoonup> 'cb channel) result" where
  "channel_delete p h = deref h p (\<lambda>c. cassert (\<not> eventHandling c) (Inr (h(p := None))))"

definition eventsToString :: "int \<Rightarrow> events \<Rightarrow> string" where
  "eventsToString fd ev =
     ''sockFd:'' @ to_string fd @ '',events happen:'' @
     (if ev AND POLLIN \<noteq> 0 then ''IN '' else []) @
     (if ev AND POLLPRI \<noteq> 0 then ''PRI '' else []) @
     (if ev AND POLLOUT \<noteq> 0 then ''OUT '' else []) @
     (if ev AND POLLHUP \<noteq> 0 then ''HUP '' else []) @
     (if ev AND POLLRDHUP \<noteq> 0 then ''RDHUP '' else []) @
     (if ev AND POLLERR \<noteq> 0 then ''ERR '' else []) @
     (if ev AND POLLNVAL \<noteq> 0 then ''NVAL '' else [])"

section \<open>Dispatch\<close>

definition set_handling :: "nat \<Rightarrow> bool \<Rightarrow> (nat \<rightharpoonup> 'cb channel) \<Rightarrow> (nat \<rightharpoonup> 'cb channel)" where
  "set_handling p b h = h(p := map_option (\<lambda>c. c\<lparr>eventHandling := b\<rparr>) (h p))"

definition call_if :: "bool \<Rightarrow> ('cb \<Rightarrow> 's \<Rightarrow> 's result) \<Rightarrow> 'cb option \<Rightarrow> 's \<Rightarrow> 's result" where
  "call_if b run cb s = (if b then (case cb of None \<Rightarrow> Inr s | Some f \<Rightarrow> run f s) else Inr s)"

text \<open>Each \<open>deref\<close> is an access to a member after a callback has run.\<close>

definition HandleEvent ::
    "('s \<Rightarrow> nat \<rightharpoonup> 'cb channel) \<Rightarrow> (((nat \<rightharpoonup> 'cb channel) \<Rightarrow> (nat \<rightharpoonup> 'cb channel)) \<Rightarrow> 's \<Rightarrow> 's) \<Rightarrow>
     ('cb \<Rightarrow> 's \<Rightarrow> 's result) \<Rightarrow> nat \<Rightarrow> 's \<Rightarrow> 's result" where
  "HandleEvent get upd run p s =
     deref (get s) p (\<lambda>c.
       rbind (call_if (rEvents c AND POLLHUP \<noteq> 0 \<and> \<not> rEvents c AND POLLIN \<noteq> 0) run (closeCallback c)
                (upd (set_handling p True) s)) (\<lambda>s1.
       deref (get s1) p (\<lambda>c1.
       rbind (call_if (rEvents c1 AND (POLLIN OR POLLPRI OR POLLRDHUP) \<noteq> 0) run (readCallback c1) s1) (\<lambda>s2.
       deref (get s2) p (\<lambda>c2.
       rbind (call_if (rEvents c2 AND POLLOUT \<noteq> 0) run (writeCallback c2) s2) (\<lambda>s3.
       deref (get s3) p (\<lambda>_. Inr (upd (set_handling p False) s3))))))))"

text \<open>The callbacks an event mask calls for, in order.\<close>

definition close_due :: "'cb channel \<Rightarrow> 'cb list" where
  "close_due c =
     (if rEvents c AND POLLHUP \<noteq> 0 \<and> rEvents c AND POLLIN = 0 then case_option [] (\<lambda>f. [f]) (closeCallback c) else [])"

definition read_due :: "'cb channel \<Rightarrow> 'cb list" where
  "read_due c =
     (if rEvents c AND (POLLIN OR POLLPRI OR POLLRDHUP) \<noteq> 0 then case_option [] (\<lambda>f. [f]) (readCallback c) else [])"

definition write_due :: "'cb channel \<Rightarrow> 'cb list" where
  "write_due c = (if rEvents c AND POLLOUT \<noteq> 0 then case_option [] (\<lambda>f. [f]) (writeCallback c) else [])"

definition due_callbacks :: "'cb channel \<Rightarrow> 'cb list" where
  "due_callbacks c = close_due c @ read_due c @ write_due c"

lemma call_if_rfold: "call_if b run cb s = rfold run (if b then case_option [] (\<lambda>f. [f]) cb else []) s"
proof (cases cb)
  case (Some f)
  then show ?thesis by (cases "run f s") (simp_all add: call_if_def)
qed (simp add: call_if_def)

lemma rfold_append3:
  "rfold f (a @ b @ d) s = rbind (rfold f a s) (\<lambda>s1. rbind (rfold f b s1) (rfold f d))"
  by (cases "rfold f a s") (simp_all add: rfold_append)

text \<open>
  What \<open>HandleEvent\<close> relies on: the access to the heap is one, and no callback destroys a
  channel or changes the events received or the callbacks set.
\<close>

definition same_dispatch :: "'cb channel \<Rightarrow> 'cb channel \<Rightarrow> bool" where
  "same_dispatch c c' \<longleftrightarrow> rEvents c' = rEvents c \<and> readCallback c' = readCallback c \<and>
     writeCallback c' = writeCallback c \<and> closeCallback c' = closeCallback c"

lemma same_dispatch_refl [simp]: "same_dispatch c c"
  by (simp add: same_dispatch_def)

lemma same_dispatch_trans: "same_dispatch a b \<Longrightarrow> same_dispatch b c \<Longrightarrow> same_dispatch a c"
  by (simp add: same_dispatch_def)

definition channels_kept :: "(nat \<rightharpoonup> 'cb channel) \<Rightarrow> (nat \<rightharpoonup> 'cb channel) \<Rightarrow> bool" where
  "channels_kept h h' \<longleftrightarrow> (\<forall>p c. h p = Some c \<longrightarrow> (\<exists>c'. h' p = Some c' \<and> same_dispatch c c'))"

lemma channels_kept_refl [simp]: "channels_kept h h"
  by (simp add: channels_kept_def)

lemma channels_kept_trans: "channels_kept a b \<Longrightarrow> channels_kept b c \<Longrightarrow> channels_kept a c"
  unfolding channels_kept_def by (meson same_dispatch_trans)

lemma channels_kept_handling [simp]: "channels_kept h (set_handling p b h)"
  by (auto simp: channels_kept_def set_handling_def same_dispatch_def)

lemma call_if_due:
  "call_if (rEvents c AND POLLHUP \<noteq> 0 \<and> rEvents c AND POLLIN = 0) run (closeCallback c) s =
     rfold run (close_due c) s"
  "same_dispatch c c' \<Longrightarrow>
     call_if (rEvents c' AND (POLLIN OR POLLPRI OR POLLRDHUP) \<noteq> 0) run (readCallback c') s =
       rfold run (read_due c) s"
  "same_dispatch c c' \<Longrightarrow>
     call_if (rEvents c' AND POLLOUT \<noteq> 0) run (writeCallback c') s = rfold run (write_due c) s"
  by (simp_all only: call_if_rfold close_due_def read_due_def write_due_def same_dispatch_def)

locale channel_host =
  fixes get :: "'s \<Rightarrow> nat \<rightharpoonup> 'cb channel"
    and upd :: "((nat \<rightharpoonup> 'cb channel) \<Rightarrow> (nat \<rightharpoonup> 'cb channel)) \<Rightarrow> 's \<Rightarrow> 's"
    and run :: "'cb \<Rightarrow> 's \<Rightarrow> 's result"
  assumes get_upd: "get (upd (set_handling p b) s) = set_handling p b (get s)"
    and run_keeps: "run cb s = Inr s' \<Longrightarrow> channels_kept (get s) (get s')"
begin

lemma runs_keep: "rfold run cbs s = Inr s' \<Longrightarrow> channels_kept (get s) (get s')"
  by (induction cbs arbitrary: s)
    (auto simp: rbind_Inr_iff dest: run_keeps intro: channels_kept_trans)

text \<open>\<open>HandleEvent\<close> runs exactly the callbacks that are due, in the order close, read, write,
  stopping at the first that fails.\<close>

lemma HandleEvent_eq:
  assumes c: "get s p = Some c"
  shows "HandleEvent get upd run p s =
    rbind (rfold run (due_callbacks c) (upd (set_handling p True) s)) (\<lambda>s'. Inr (upd (set_handling p False) s'))"
proof -
  let ?s0 = "upd (set_handling p True) s"
  have c0: "get ?s0 p = Some (c\<lparr>eventHandling := True\<rparr>)"
    using c by (simp add: get_upd set_handling_def)
  have kept: "\<exists>c'. get s' p = Some c' \<and> same_dispatch c c'" if "rfold run cbs ?s0 = Inr s'" for cbs s'
    using runs_keep [OF that] c0
    by (fastforce simp: channels_kept_def same_dispatch_def)
  have split: "rfold run (due_callbacks c) ?s0 =
      rbind (rfold run (close_due c) ?s0) (\<lambda>s1. rbind (rfold run (read_due c) s1) (rfold run (write_due c)))"
    by (simp only: due_callbacks_def rfold_append3)
  show ?thesis
  proof (cases "rfold run (close_due c) ?s0")
    case (Inl e)
    then show ?thesis using c split by (simp add: HandleEvent_def call_if_due)
  next
    case 1: (Inr s1)
    obtain c1 where c1: "get s1 p = Some c1" "same_dispatch c c1" using kept [OF 1] by blast
    show ?thesis
    proof (cases "rfold run (read_due c) s1")
      case (Inl e)
      then show ?thesis
        using c split 1 c1 by (simp add: HandleEvent_def call_if_due)
    next
      case 2: (Inr s2)
      have "rfold run (close_due c @ read_due c) ?s0 = Inr s2" using 1 2 by (simp add: rfold_append)
      from kept [OF this] obtain c2 where c2: "get s2 p = Some c2" "same_dispatch c c2" by blast
      show ?thesis
      proof (cases "rfold run (write_due c) s2")
        case (Inl e)
        then show ?thesis
          using c split 1 2 c1 c2 by (simp add: HandleEvent_def call_if_due)
      next
        case 3: (Inr s3)
        have "rfold run ((close_due c @ read_due c) @ write_due c) ?s0 = Inr s3" using 1 2 3 by (simp add: rfold_append)
        from kept [OF this] obtain c3 where "get s3 p = Some c3" by blast
        then show ?thesis
          using c split 1 2 3 c1 c2 by (simp add: HandleEvent_def call_if_due)
      qed
    qed
  qed
qed

end

end
