(* ===== verification/Pollers.thy ===== *)
theory Pollers
  imports Channel
begin

text \<open>
  \<open>net/Poller.cpp\<close>, \<open>net/poller/EpollPoller.cpp\<close> and \<open>net/poller/PollPoller.cpp\<close>, and the
  operations of \<open>net/Channel.cpp\<close> that go through \<open>EventLoop::updateChannel\<close> and
  \<open>removeChannel\<close> to the poller. An operation on a channel takes the channel and gives it
  back changed. The \<open>epoll_ctl\<close> calls are recorded in order; what the kernel does with
  them is the specification \<open>ctl_run\<close>, from epoll_ctl(2). The locale \<open>poller_contract\<close>
  is what a loop relies on; both pollers are interpreted, \<open>PollPoller\<close> under the
  condition its \<open>RemoveChannel\<close> needs.
\<close>

section \<open>EpollPoller\<close>

datatype ctl_op = EPOLL_CTL_ADD | EPOLL_CTL_MOD | EPOLL_CTL_DEL

type_synonym ctl_call = "ctl_op \<times> int \<times> events \<times> nat"

record epoller =
  channels :: "int \<rightharpoonup> nat"
  evlist_size :: nat
  ctl :: "ctl_call list"

definition KInitEventListSize :: nat where
  "KInitEventListSize = 16"

definition EpollPoller :: epoller where
  "EpollPoller = \<lparr>channels = Map.empty, evlist_size = KInitEventListSize, ctl = []\<rparr>"

definition updateOperator2Poller :: "ctl_op \<Rightarrow> nat \<Rightarrow> 'cb channel \<Rightarrow> epoller \<Rightarrow> epoller" where
  "updateOperator2Poller op p c e = e\<lparr>ctl := ctl e @ [(op, m_socketFd c, events c, p)]\<rparr>"

definition epoll_updateChannel :: "bool \<Rightarrow> nat \<Rightarrow> 'cb channel \<Rightarrow> epoller \<Rightarrow> ('cb channel \<times> epoller) result" where
  "epoll_updateChannel inLoop p c e =
     assertInLoopThread inLoop
       (let fd = m_socketFd c in
        case inPollerStatus c of
          KInit \<Rightarrow> Inr (c\<lparr>inPollerStatus := KAdded\<rparr>,
            updateOperator2Poller EPOLL_CTL_ADD p c (e\<lparr>channels := (channels e)(fd \<mapsto> p)\<rparr>))
        | KDeleted \<Rightarrow>
            cassert (channels e fd \<noteq> None) (cassert (channels e fd = Some p)
              (Inr (c\<lparr>inPollerStatus := KAdded\<rparr>, updateOperator2Poller EPOLL_CTL_ADD p c e)))
        | KAdded \<Rightarrow>
            cassert (channels e fd \<noteq> None) (cassert (channels e fd = Some p)
              (if IsNoneEvent c
               then Inr (c\<lparr>inPollerStatus := KDeleted\<rparr>, updateOperator2Poller EPOLL_CTL_DEL p c e)
               else Inr (c, updateOperator2Poller EPOLL_CTL_MOD p c e))))"

definition epoll_RemoveChannel :: "bool \<Rightarrow> nat \<Rightarrow> 'cb channel \<Rightarrow> epoller \<Rightarrow> ('cb channel \<times> epoller) result" where
  "epoll_RemoveChannel inLoop p c e =
     assertInLoopThread inLoop
       (let fd = m_socketFd c in
        cassert (channels e fd \<noteq> None) (cassert (channels e fd = Some p) (cassert (IsNoneEvent c)
          (cassert (inPollerStatus c = KAdded \<or> inPollerStatus c = KDeleted)
            (let e1 = e\<lparr>channels := (channels e)(fd := None)\<rparr>;
                 e2 = (if inPollerStatus c = KAdded then updateOperator2Poller EPOLL_CTL_DEL p c e1 else e1)
             in Inr (c\<lparr>inPollerStatus := KInit\<rparr>, e2))))))"

text \<open>\<open>fillActiveChannels\<close>, over the entries \<open>epoll_wait\<close> returned.\<close>

fun epoll_fillActiveChannels ::
    "(events \<times> nat) list \<Rightarrow> (nat \<rightharpoonup> 'cb channel) \<Rightarrow> (nat list \<times> (nat \<rightharpoonup> 'cb channel)) result" where
  "epoll_fillActiveChannels [] h = Inr ([], h)"
| "epoll_fillActiveChannels ((ev, p) # evs) h =
     deref h p (\<lambda>c. rbind (epoll_fillActiveChannels evs (h(p \<mapsto> SetReceiveEvent ev c)))
       (\<lambda>(active, h'). Inr (p # active, h')))"

text \<open>\<open>poll\<close>; an \<open>epoll_wait\<close> that times out or fails is the empty list.\<close>

definition epoll_poll ::
    "(events \<times> nat) list \<Rightarrow> (nat \<rightharpoonup> 'cb channel) \<Rightarrow> epoller \<Rightarrow> (nat list \<times> (nat \<rightharpoonup> 'cb channel) \<times> epoller) result" where
  "epoll_poll evs h e =
     (if evs \<noteq> []
      then rbind (epoll_fillActiveChannels evs h) (\<lambda>(active, h').
             Inr (active, h', if length evs = evlist_size e then e\<lparr>evlist_size := evlist_size e * 2\<rparr> else e))
      else Inr ([], h, e))"

section \<open>PollPoller\<close>

record pollfd =
  pfd_fd :: int
  pfd_events :: "16 word"
  pfd_revents :: "16 word"

record ppoller =
  pchannels :: "int \<rightharpoonup> nat"
  pollfds :: "pollfd list"
  fdInpollfdsIdx :: "int \<rightharpoonup> int"

definition PollPoller :: ppoller where
  "PollPoller = \<lparr>pchannels = Map.empty, pollfds = [], fdInpollfdsIdx = Map.empty\<rparr>"

definition poll_updateChannel :: "bool \<Rightarrow> nat \<Rightarrow> 'cb channel \<Rightarrow> ppoller \<Rightarrow> ('cb channel \<times> ppoller) result" where
  "poll_updateChannel inLoop p c e =
     assertInLoopThread inLoop
       (let fd = m_socketFd c in
        case fdInpollfdsIdx e fd of
          None \<Rightarrow>
            cassert (pchannels e fd = None)
              (let pfd = \<lparr>pfd_fd = fd, pfd_events = ucast (events c), pfd_revents = 0\<rparr>
               in Inr (c\<lparr>inPollerStatus := KAdded\<rparr>,
                   e\<lparr>pollfds := pollfds e @ [pfd], pchannels := (pchannels e)(fd \<mapsto> p),
                     fdInpollfdsIdx := (fdInpollfdsIdx e)(fd \<mapsto> int (length (pollfds e)))\<rparr>))
        | Some idx \<Rightarrow>
            cassert (pchannels e fd \<noteq> None) (cassert (pchannels e fd = Some p)
              (cassert (0 \<le> idx \<and> idx < int (length (pollfds e)))
                (let pfd = pollfds e ! nat idx in
                 cassert (pfd_fd pfd = fd \<or> pfd_fd pfd = - (fd + 1))
                   (let isIgoreInPoller = IsNoneEvent c;
                        pfd' = \<lparr>pfd_fd = (if \<not> isIgoreInPoller then fd else - (fd + 1)),
                                pfd_events = ucast (events c), pfd_revents = 0\<rparr>
                    in Inr (c, e\<lparr>pollfds := (pollfds e)[nat idx := pfd']\<rparr>))))))"

definition poll_RemoveChannel :: "bool \<Rightarrow> nat \<Rightarrow> 'cb channel \<Rightarrow> ppoller \<Rightarrow> ('cb channel \<times> ppoller) result" where
  "poll_RemoveChannel inLoop p c e =
     assertInLoopThread inLoop
       (let fd = m_socketFd c in
        cassert (pchannels e fd \<noteq> None) (cassert (pchannels e fd = Some p) (cassert (IsNoneEvent c)
          (case fdInpollfdsIdx e fd of
             None \<Rightarrow> Inl AssertFail
           | Some idx \<Rightarrow>
               if \<not> (0 \<le> idx \<and> idx < int (length (pollfds e))) then Inl Undefined
               else
                 let pfd = pollfds e ! nat idx in
                 cassert (pfd_fd pfd = - (fd + 1) \<and> scast (pfd_events pfd) = events c)
                   (let e1 = e\<lparr>pchannels := (pchannels e)(fd := None)\<rparr>;
                        e2 = (if idx = int (length (pollfds e)) - 1
                              then e1\<lparr>pollfds := butlast (pollfds e)\<rparr>
                              else let lastFd = pfd_fd (last (pollfds e))
                                   in e1\<lparr>pollfds := butlast ((pollfds e)[nat idx := last (pollfds e)]),
                                         fdInpollfdsIdx := (fdInpollfdsIdx e)(lastFd \<mapsto> idx)\<rparr>)
                    in Inr (c, e2\<lparr>fdInpollfdsIdx := (fdInpollfdsIdx e2)(fd := None)\<rparr>))))))"

fun poll_fillActiveChannels ::
    "int \<Rightarrow> pollfd list \<Rightarrow> (int \<rightharpoonup> nat) \<Rightarrow> (nat \<rightharpoonup> 'cb channel) \<Rightarrow> (nat list \<times> (nat \<rightharpoonup> 'cb channel)) result" where
  "poll_fillActiveChannels numEvents [] chs h = Inr ([], h)"
| "poll_fillActiveChannels numEvents (pfd # pfds) chs h =
     (if numEvents > 0
      then if sint (pfd_revents pfd) > 0
           then (case chs (pfd_fd pfd) of
                   None \<Rightarrow> Inl AssertFail
                 | Some p \<Rightarrow> deref h p (\<lambda>c.
                     rbind (poll_fillActiveChannels (numEvents - 1) pfds chs
                              (h(p \<mapsto> SetReceiveEvent (scast (pfd_revents pfd)) c)))
                       (\<lambda>(active, h'). Inr (p # active, h'))))
           else poll_fillActiveChannels numEvents pfds chs h
      else Inr ([], h))"

text \<open>\<open>poll\<close>: the kernel writes \<open>revents\<close> and returns \<open>numEvents\<close>.\<close>

definition poll_poll ::
    "int \<Rightarrow> 16 word list \<Rightarrow> (nat \<rightharpoonup> 'cb channel) \<Rightarrow> ppoller \<Rightarrow>
     (nat list \<times> (nat \<rightharpoonup> 'cb channel) \<times> ppoller) result" where
  "poll_poll numEvents revents h e =
     (let e' = e\<lparr>pollfds := map2 (\<lambda>pfd r. pfd\<lparr>pfd_revents := r\<rparr>) (pollfds e) revents\<rparr>
      in if numEvents > 0
         then rbind (poll_fillActiveChannels numEvents (pollfds e') (pchannels e') h)
                (\<lambda>(active, h'). Inr (active, h', e'))
         else Inr ([], h, e'))"

section \<open>Poller\<close>

datatype poller = EpollP epoller | PollP ppoller

definition NewDefaultPoller :: "string option \<Rightarrow> poller" where
  "NewDefaultPoller pollerType = (if pollerType = Some ''Poll'' then PollP PollPoller else EpollP EpollPoller)"

fun updateChannel :: "bool \<Rightarrow> nat \<Rightarrow> 'cb channel \<Rightarrow> poller \<Rightarrow> ('cb channel \<times> poller) result" where
  "updateChannel inLoop p c (EpollP e) =
     rbind (epoll_updateChannel inLoop p c e) (\<lambda>(c', e'). Inr (c', EpollP e'))"
| "updateChannel inLoop p c (PollP e) =
     rbind (poll_updateChannel inLoop p c e) (\<lambda>(c', e'). Inr (c', PollP e'))"

fun RemoveChannel :: "bool \<Rightarrow> nat \<Rightarrow> 'cb channel \<Rightarrow> poller \<Rightarrow> ('cb channel \<times> poller) result" where
  "RemoveChannel inLoop p c (EpollP e) =
     rbind (epoll_RemoveChannel inLoop p c e) (\<lambda>(c', e'). Inr (c', EpollP e'))"
| "RemoveChannel inLoop p c (PollP e) =
     rbind (poll_RemoveChannel inLoop p c e) (\<lambda>(c', e'). Inr (c', PollP e'))"

fun poller_channels :: "poller \<Rightarrow> int \<rightharpoonup> nat" where
  "poller_channels (EpollP e) = channels e"
| "poller_channels (PollP e) = pchannels e"

definition HasChannel :: "nat \<Rightarrow> 'cb channel \<Rightarrow> poller \<Rightarrow> bool" where
  "HasChannel p c po = (case poller_channels po (m_socketFd c) of None \<Rightarrow> False | Some q \<Rightarrow> q = p)"

section \<open>Channel operations\<close>

text \<open>\<open>EnableReadEvent\<close> and its like, and \<open>remove\<close>, over a heap of channels and a poller whose
  update and remove are given.\<close>

definition channel_interest ::
    "(nat \<Rightarrow> 'cb channel \<Rightarrow> 'p \<Rightarrow> ('cb channel \<times> 'p) result) \<Rightarrow> interest_op \<Rightarrow> nat \<Rightarrow>
     (nat \<rightharpoonup> 'cb channel) \<times> 'p \<Rightarrow> ((nat \<rightharpoonup> 'cb channel) \<times> 'p) result" where
  "channel_interest upd x p s =
     deref (fst s) p (\<lambda>c. rbind (upd p (set_interest x c) (snd s)) (\<lambda>(c', e'). Inr ((fst s)(p \<mapsto> c'), e')))"

definition channel_remove ::
    "(nat \<Rightarrow> 'cb channel \<Rightarrow> 'p \<Rightarrow> ('cb channel \<times> 'p) result) \<Rightarrow> nat \<Rightarrow>
     (nat \<rightharpoonup> 'cb channel) \<times> 'p \<Rightarrow> ((nat \<rightharpoonup> 'cb channel) \<times> 'p) result" where
  "channel_remove rem p s =
     deref (fst s) p (\<lambda>c. rbind (rem p c (snd s)) (\<lambda>(c', e'). Inr ((fst s)(p \<mapsto> c'), e')))"

datatype channel_op = Interest interest_op nat | Remove nat

fun channel_exec ::
    "(nat \<Rightarrow> 'cb channel \<Rightarrow> 'p \<Rightarrow> ('cb channel \<times> 'p) result) \<Rightarrow>
     (nat \<Rightarrow> 'cb channel \<Rightarrow> 'p \<Rightarrow> ('cb channel \<times> 'p) result) \<Rightarrow> channel_op \<Rightarrow>
     (nat \<rightharpoonup> 'cb channel) \<times> 'p \<Rightarrow> ((nat \<rightharpoonup> 'cb channel) \<times> 'p) result" where
  "channel_exec upd rem (Interest x p) s = channel_interest upd x p s"
| "channel_exec upd rem (Remove p) s = channel_remove rem p s"


section \<open>The contract of a poller\<close>

text \<open>Event masks that survive the conversion to \<open>short\<close> and back.\<close>

definition valid_events :: "events \<Rightarrow> bool" where
  "valid_events e \<longleftrightarrow> e AND NOT (mask 15) = 0"

lemma valid_events_consts [simp]: "valid_events KReadEvent" "valid_events KWriteEvent" "valid_events 0"
  by (simp_all add: valid_events_def mask_eq_exp_minus_1 event_masks)

lemma valid_events_bits: "valid_events e \<Longrightarrow> bit e n \<Longrightarrow> n < 15"
  unfolding valid_events_def
  by (drule arg_cong [where f = "\<lambda>w. bit w n"]) (auto simp: bit_simps dest: bit_imp_le_length)

lemma valid_events_or: "valid_events e \<Longrightarrow> valid_events k \<Longrightarrow> valid_events (e OR k)"
  by (simp add: valid_events_def bit.conj_disj_distrib2)

lemma valid_events_and: "valid_events e \<Longrightarrow> valid_events (e AND k)"
proof -
  have "(e AND k) AND m = (e AND m) AND k" for m by (simp add: ac_simps)
  then show "valid_events e \<Longrightarrow> valid_events (e AND k)" by (simp add: valid_events_def)
qed

lemma valid_change_events: "valid_events e \<Longrightarrow> valid_events (change_events x e)"
  by (cases x) (auto intro: valid_events_or valid_events_and simp: KNoneEvent_def)

lemma scast_ucast_events: "valid_events e \<Longrightarrow> scast (ucast e :: 16 word) = e"
proof (rule bit_word_eqI)
  fix n assume v: "valid_events e" and "n < LENGTH(32)"
  then show "bit (scast (ucast e :: 16 word) :: 32 word) n = bit e n"
    using valid_events_bits [OF v, of n] valid_events_bits [OF v, of 15] by (auto simp: bit_simps min_def)
qed

definition heap_ok :: "(nat \<rightharpoonup> 'cb channel) \<Rightarrow> bool" where
  "heap_ok h \<longleftrightarrow> (\<forall>p c. h p = Some c \<longrightarrow> 0 \<le> m_socketFd c \<and> valid_events (events c))"

text \<open>When the callers may call an operation: a channel is updated while it is known to the poller, or for
  the first time, under a descriptor no other channel has, with some event; it is removed when it is
  known and has none, and when the poller's own condition \<open>removable\<close> holds.\<close>

fun op_allowed ::
    "('p \<Rightarrow> int \<Rightarrow> nat option) \<Rightarrow> ('p \<Rightarrow> int \<Rightarrow> bool) \<Rightarrow> channel_op \<Rightarrow> (nat \<rightharpoonup> 'cb channel) \<times> 'p \<Rightarrow> bool" where
  "op_allowed knows removable (Interest x p) s =
     (case fst s p of None \<Rightarrow> False
      | Some c \<Rightarrow> knows (snd s) (m_socketFd c) = Some p \<or>
          knows (snd s) (m_socketFd c) = None \<and> change_events x (events c) \<noteq> 0)"
| "op_allowed knows removable (Remove p) s =
     (case fst s p of None \<Rightarrow> False
      | Some c \<Rightarrow> knows (snd s) (m_socketFd c) = Some p \<and> events c = 0 \<and>
          removable (snd s) (m_socketFd c))"

abbreviation ops_allowed ::
    "('p \<Rightarrow> int \<Rightarrow> nat option) \<Rightarrow> ('p \<Rightarrow> int \<Rightarrow> bool) \<Rightarrow>
     (channel_op \<Rightarrow> (nat \<rightharpoonup> 'cb channel) \<times> 'p \<Rightarrow> ((nat \<rightharpoonup> 'cb channel) \<times> 'p) result) \<Rightarrow>
     channel_op list \<Rightarrow> (nat \<rightharpoonup> 'cb channel) \<times> 'p \<Rightarrow> bool" where
  "ops_allowed knows removable exec \<equiv> legal_run exec (op_allowed knows removable)"

text \<open>What is watched, if the poller does what the channels ask for.\<close>

definition wanted :: "(nat \<rightharpoonup> 'cb channel) \<Rightarrow> (int \<Rightarrow> nat option) \<Rightarrow> int \<Rightarrow> (events \<times> nat) option" where
  "wanted h known fd =
     Option.bind (known fd) (\<lambda>p. Option.bind (h p) (\<lambda>c. if events c = 0 then None else Some (events c, p)))"

text \<open>The specification of the operations: the channels (their status aside) and the
  descriptors known.\<close>

fun channel_effect ::
    "channel_op \<Rightarrow> (nat \<rightharpoonup> 'cb channel) \<times> (int \<rightharpoonup> nat) \<Rightarrow> (nat \<rightharpoonup> 'cb channel) \<times> (int \<rightharpoonup> nat)" where
  "channel_effect (Interest x p) (h, known) =
     (case h p of None \<Rightarrow> (h, known)
      | Some c \<Rightarrow> (h(p \<mapsto> set_interest x c), known(m_socketFd c \<mapsto> p)))"
| "channel_effect (Remove p) (h, known) =
     (case h p of None \<Rightarrow> (h, known) | Some c \<Rightarrow> (h, known(m_socketFd c := None)))"

definition forget_status :: "(nat \<rightharpoonup> 'cb channel) \<Rightarrow> (nat \<rightharpoonup> 'cb channel)" where
  "forget_status h p = map_option (\<lambda>c. c\<lparr>inPollerStatus := KInit\<rparr>) (h p)"

lemma forget_status_upd [simp]:
  "forget_status (h(p \<mapsto> c)) = (forget_status h)(p \<mapsto> c\<lparr>inPollerStatus := KInit\<rparr>)"
  by (auto simp: forget_status_def)

lemma status_events_commute:
  "c\<lparr>inPollerStatus := st, events := ev\<rparr> = c\<lparr>events := ev, inPollerStatus := st\<rparr>"
  by simp

lemma wanted_forget_status [simp]: "wanted (forget_status h) known = wanted h known"
proof
  fix fd
  have "Option.bind (forget_status h p) (\<lambda>c. if events c = 0 then None else Some (events c, p)) =
      Option.bind (h p) (\<lambda>c. if events c = 0 then None else Some (events c, p))" for p
    by (cases "h p") (simp_all add: forget_status_def)
  then show "wanted (forget_status h) known fd = wanted h known fd"
    by (simp add: wanted_def)
qed

locale poller_contract =
  fixes upd rem :: "nat \<Rightarrow> 'cb channel \<Rightarrow> 'p \<Rightarrow> ('cb channel \<times> 'p) result"
    and knows :: "'p \<Rightarrow> int \<Rightarrow> nat option"
    and watched :: "'p \<Rightarrow> int \<Rightarrow> (events \<times> nat) option"
    and removable :: "'p \<Rightarrow> int \<Rightarrow> bool"
    and ok :: "(nat \<rightharpoonup> 'cb channel) \<Rightarrow> 'p \<Rightarrow> bool"
  assumes watched_ok: "ok h e \<Longrightarrow> watched e = wanted h (knows e)"
    and upd_ok: "ok h e \<Longrightarrow> h p = Some c \<Longrightarrow> 0 \<le> m_socketFd c \<Longrightarrow> valid_events ev \<Longrightarrow>
      knows e (m_socketFd c) = Some p \<or> knows e (m_socketFd c) = None \<and> ev \<noteq> 0 \<Longrightarrow>
      \<exists>st e'. upd p (c\<lparr>events := ev\<rparr>) e = Inr (c\<lparr>events := ev, inPollerStatus := st\<rparr>, e') \<and>
        ok (h(p \<mapsto> c\<lparr>events := ev, inPollerStatus := st\<rparr>)) e' \<and>
        knows e' = (knows e)(m_socketFd c \<mapsto> p)"
    and rem_ok: "ok h e \<Longrightarrow> h p = Some c \<Longrightarrow> knows e (m_socketFd c) = Some p \<Longrightarrow> events c = 0 \<Longrightarrow>
      removable e (m_socketFd c) \<Longrightarrow>
      \<exists>st e'. rem p c e = Inr (c\<lparr>inPollerStatus := st\<rparr>, e') \<and>
        ok (h(p \<mapsto> c\<lparr>inPollerStatus := st\<rparr>)) e' \<and> knows e' = (knows e)(m_socketFd c := None)"
begin

lemma exec_ok:
  assumes "ok (fst s) (snd s)" "heap_ok (fst s)" "op_allowed knows removable x s"
  shows "\<exists>s'. channel_exec upd rem x s = Inr s' \<and> ok (fst s') (snd s') \<and> heap_ok (fst s') \<and>
    (forget_status (fst s'), knows (snd s')) = channel_effect x (forget_status (fst s), knows (snd s))"
proof (cases x)
  case (Interest y p)
  then obtain c where c: "fst s p = Some c"
    "knows (snd s) (m_socketFd c) = Some p \<or> knows (snd s) (m_socketFd c) = None \<and> change_events y (events c) \<noteq> 0"
    using assms(3) by (auto split: option.splits)
  have wf: "0 \<le> m_socketFd c" "valid_events (change_events y (events c))"
    using assms(2) c(1) by (auto simp: heap_ok_def intro: valid_change_events)
  have "forget_status (fst s) p = Some (c\<lparr>inPollerStatus := KInit\<rparr>)"
    using c(1) by (simp add: forget_status_def)
  then show ?thesis
    using upd_ok [OF assms(1) c(1) wf c(2)] Interest c(1) assms(2) wf(2)
    by (auto simp: channel_interest_def set_interest_def heap_ok_def status_events_commute)
next
  case (Remove p)
  then obtain c where c: "fst s p = Some c" "knows (snd s) (m_socketFd c) = Some p" "events c = 0"
    "removable (snd s) (m_socketFd c)"
    using assms(3) by (auto split: option.splits)
  have f: "forget_status (fst s) p = Some (c\<lparr>inPollerStatus := KInit\<rparr>)"
    using c(1) by (simp add: forget_status_def)
  then have "(forget_status (fst s))(p \<mapsto> c\<lparr>inPollerStatus := KInit\<rparr>) = forget_status (fst s)"
    by (rule fun_upd_idem)
  then show ?thesis
    using rem_ok [OF assms(1) c] Remove c(1,3) assms(2) f
    by (auto simp: channel_remove_def heap_ok_def)
qed

lemma history_ok:
  assumes "ok (fst s) (snd s)" "heap_ok (fst s)" "ops_allowed knows removable (channel_exec upd rem) xs s"
  shows "\<exists>s'. rfold (channel_exec upd rem) xs s = Inr s' \<and> ok (fst s') (snd s') \<and>
    watched (snd s') = case_prod wanted (fold channel_effect xs (forget_status (fst s), knows (snd s)))"
  using assms
proof (induction xs arbitrary: s)
  case Nil
  then show ?case using watched_ok by auto
next
  case (Cons x xs)
  then obtain s1 where s1: "channel_exec upd rem x s = Inr s1" "ok (fst s1) (snd s1)" "heap_ok (fst s1)"
    "channel_effect x (forget_status (fst s), knows (snd s)) = (forget_status (fst s1), knows (snd s1))"
    using exec_ok [of s x] by auto
  then show ?case using Cons.IH [OF s1(2,3)] Cons.prems(3) by simp
qed

end

section \<open>EpollPoller meets it\<close>

text \<open>epoll_ctl(2): adding a descriptor that is registered, or changing or removing one that
  is not, fails.\<close>

fun ctl_run :: "ctl_call \<Rightarrow> (int \<rightharpoonup> events \<times> nat) \<Rightarrow> (int \<rightharpoonup> events \<times> nat) option" where
  "ctl_run (EPOLL_CTL_ADD, fd, ev, p) k = (if k fd = None then Some (k(fd \<mapsto> (ev, p))) else None)"
| "ctl_run (EPOLL_CTL_MOD, fd, ev, p) k = (if k fd = None then None else Some (k(fd \<mapsto> (ev, p))))"
| "ctl_run (EPOLL_CTL_DEL, fd, ev, p) k = (if k fd = None then None else Some (k(fd := None)))"

definition ctl_replay :: "ctl_call list \<Rightarrow> (int \<rightharpoonup> events \<times> nat) option" where
  "ctl_replay cs = foldl (\<lambda>k x. Option.bind k (ctl_run x)) (Some Map.empty) cs"

lemma ctl_replay_simps [simp]:
  "ctl_replay [] = Some Map.empty"
  "ctl_replay (cs @ [x]) = Option.bind (ctl_replay cs) (ctl_run x)"
  by (simp_all add: ctl_replay_def)

definition epoll_watched :: "epoller \<Rightarrow> int \<Rightarrow> (events \<times> nat) option" where
  "epoll_watched e fd =
     Option.bind (ctl_replay (ctl e)) (\<lambda>k. Option.bind (k fd) (\<lambda>(ev, p). if ev = 0 then None else Some (ev, p)))"

definition channel_registered :: "'cb channel \<Rightarrow> nat \<Rightarrow> (events \<times> nat) option \<Rightarrow> bool" where
  "channel_registered c p r \<longleftrightarrow>
     inPollerStatus c = KAdded \<and> r = Some (events c, p) \<or>
     inPollerStatus c = KDeleted \<and> r = None \<and> events c = 0"

definition epoll_ok :: "(nat \<rightharpoonup> 'cb channel) \<Rightarrow> epoller \<Rightarrow> bool" where
  "epoll_ok h e \<longleftrightarrow>
     (\<exists>k. ctl_replay (ctl e) = Some k \<and>
        (\<forall>fd. case channels e fd of
           None \<Rightarrow> k fd = None
         | Some p \<Rightarrow> \<exists>c. h p = Some c \<and> m_socketFd c = fd \<and> channel_registered c p (k fd))) \<and>
     (\<forall>p c. h p = Some c \<longrightarrow> channels e (m_socketFd c) \<noteq> Some p \<longrightarrow> inPollerStatus c = KInit)"

lemma epoll_okE:
  assumes "epoll_ok h e"
  obtains k where "ctl_replay (ctl e) = Some k"
    and "\<And>fd. channels e fd = None \<Longrightarrow> k fd = None"
    and "\<And>fd p. channels e fd = Some p \<Longrightarrow> \<exists>c. h p = Some c \<and> m_socketFd c = fd \<and> channel_registered c p (k fd)"
    and "\<And>p c. h p = Some c \<Longrightarrow> channels e (m_socketFd c) \<noteq> Some p \<Longrightarrow> inPollerStatus c = KInit"
  using assms unfolding epoll_ok_def by (fastforce split: option.splits)

lemma epoll_okI:
  assumes "ctl_replay (ctl e) = Some k"
    and "\<And>fd. channels e fd = None \<Longrightarrow> k fd = None"
    and "\<And>fd p. channels e fd = Some p \<Longrightarrow> \<exists>c. h p = Some c \<and> m_socketFd c = fd \<and> channel_registered c p (k fd)"
    and "\<And>p c. h p = Some c \<Longrightarrow> channels e (m_socketFd c) \<noteq> Some p \<Longrightarrow> inPollerStatus c = KInit"
  shows "epoll_ok h e"
  using assms unfolding epoll_ok_def by (fastforce split: option.splits)

text \<open>One channel changes, its descriptor's registration with it, and nothing else.\<close>

lemma epoll_ok_update:
  assumes k: "ctl_replay (ctl e) = Some k"
    "\<And>fd. channels e fd = None \<Longrightarrow> k fd = None"
    "\<And>fd p. channels e fd = Some p \<Longrightarrow> \<exists>c. h p = Some c \<and> m_socketFd c = fd \<and> channel_registered c p (k fd)"
    "\<And>p c. h p = Some c \<Longrightarrow> channels e (m_socketFd c) \<noteq> Some p \<Longrightarrow> inPollerStatus c = KInit"
    and c: "h p = Some c" "channels e (m_socketFd c) = None \<or> channels e (m_socketFd c) = Some p"
    and c': "m_socketFd c' = m_socketFd c"
    and e': "ctl_replay (ctl e') = Some (k(m_socketFd c := r))" "channels e' = (channels e)(m_socketFd c := o')"
    and o': "o' = Some p \<and> channel_registered c' p r \<or> o' = None \<and> r = None \<and> inPollerStatus c' = KInit"
  shows "epoll_ok (h(p \<mapsto> c')) e'"
proof (rule epoll_okI [OF e'(1)])
  fix fd q
  show "(k(m_socketFd c := r)) fd = None" if "channels e' fd = None"
    using that k(2) o' by (auto simp: e'(2) split: if_splits)
  show "\<exists>ca. (h(p \<mapsto> c')) q = Some ca \<and> m_socketFd ca = fd \<and> channel_registered ca q ((k(m_socketFd c := r)) fd)"
    if "channels e' fd = Some q"
  proof (cases "fd = m_socketFd c")
    case False
    then have "channels e fd = Some q" using that by (simp add: e'(2))
    from k(3) [OF this] show ?thesis using False c(1) by auto
  qed (use that c' o' in \<open>auto simp: e'(2)\<close>)
  show "inPollerStatus ca = KInit"
    if "(h(p \<mapsto> c')) q = Some ca" "channels e' (m_socketFd ca) \<noteq> Some q" for ca
  proof (cases "q = p")
    case False
    then have "h q = Some ca" using that(1) by simp
    moreover have "channels e (m_socketFd ca) \<noteq> Some q"
    proof (cases "m_socketFd ca = m_socketFd c")
      case True
      then show ?thesis using c(2) False by auto
    qed (use that(2) in \<open>simp add: e'(2)\<close>)
    ultimately show ?thesis by (rule k(4))
  qed (use that c' o' in \<open>auto simp: e'(2)\<close>)
qed

interpretation epoll: poller_contract "epoll_updateChannel True" "epoll_RemoveChannel True"
  channels epoll_watched "\<lambda>_ _. True" epoll_ok
proof
  fix h :: "nat \<rightharpoonup> 'cb channel" and e and p :: nat and c :: "'cb channel" and ev :: events
  assume ok: "epoll_ok h e"
  then obtain k where k: "ctl_replay (ctl e) = Some k"
    "\<And>fd. channels e fd = None \<Longrightarrow> k fd = None"
    "\<And>fd p. channels e fd = Some p \<Longrightarrow> \<exists>c. h p = Some c \<and> m_socketFd c = fd \<and> channel_registered c p (k fd)"
    "\<And>p c. h p = Some c \<Longrightarrow> channels e (m_socketFd c) \<noteq> Some p \<Longrightarrow> inPollerStatus c = KInit"
    by (rule epoll_okE) blast
  show "epoll_watched e = wanted h (channels e)"
  proof
    fix fd
    show "epoll_watched e fd = wanted h (channels e) fd"
      using k(1,2) k(3) [of fd]
      by (cases "channels e fd") (auto simp: epoll_watched_def wanted_def channel_registered_def)
  qed
  assume c: "h p = Some c"
  let ?fd = "m_socketFd c"
  {
    assume known: "channels e ?fd = Some p \<or> channels e ?fd = None \<and> ev \<noteq> 0"
    have "\<exists>st e' r. epoll_updateChannel True p (c\<lparr>events := ev\<rparr>) e = Inr (c\<lparr>events := ev, inPollerStatus := st\<rparr>, e') \<and>
        ctl_replay (ctl e') = Some (k(?fd := r)) \<and> channels e' = (channels e)(?fd := Some p) \<and>
        channel_registered (c\<lparr>events := ev, inPollerStatus := st\<rparr>) p r"
    proof (cases "channels e ?fd")
      case None
      then show ?thesis
        using k(1,2) k(4) [OF c] 
        by (auto simp: epoll_updateChannel_def updateOperator2Poller_def channel_registered_def)
    next
      case (Some q)
      then have "channel_registered c p (k ?fd)" "channels e ?fd = Some p"
        using known k(3) [of ?fd p] c by auto
      moreover have "(channels e)(?fd \<mapsto> p) = channels e"
        using \<open>channels e ?fd = Some p\<close> by (rule fun_upd_idem)
      ultimately show ?thesis
        using k(1)
        by (intro exI [of _ "if inPollerStatus c = KAdded \<and> ev = 0 then KDeleted else KAdded"]
            exI [of _ "snd (projr (epoll_updateChannel True p (c\<lparr>events := ev\<rparr>) e))"]
            exI [of _ "if inPollerStatus c = KAdded \<and> ev = 0 then None else Some (ev, p)"])
          (auto simp: epoll_updateChannel_def updateOperator2Poller_def channel_registered_def
            IsNoneEvent_def KNoneEvent_def)
    qed
    then obtain st e' r where e': "epoll_updateChannel True p (c\<lparr>events := ev\<rparr>) e = Inr (c\<lparr>events := ev, inPollerStatus := st\<rparr>, e')"
      "ctl_replay (ctl e') = Some (k(?fd := r))" "channels e' = (channels e)(?fd := Some p)"
      "channel_registered (c\<lparr>events := ev, inPollerStatus := st\<rparr>) p r"
      by blast
    have "epoll_ok (h(p \<mapsto> c\<lparr>events := ev, inPollerStatus := st\<rparr>)) e'"
      by (rule epoll_ok_update [where r = r and o' = "Some p", OF k c _ _ e'(2,3)]) (use known e'(4) in auto)
    then show "\<exists>st e'. epoll_updateChannel True p (c\<lparr>events := ev\<rparr>) e = Inr (c\<lparr>events := ev, inPollerStatus := st\<rparr>, e') \<and>
        epoll_ok (h(p \<mapsto> c\<lparr>events := ev, inPollerStatus := st\<rparr>)) e' \<and> channels e' = (channels e)(?fd \<mapsto> p)"
      using e' by blast
  }
  {
    assume known: "channels e ?fd = Some p" and "events c = 0"
    then have "channel_registered c p (k ?fd)"
      using k(3) [of ?fd p] c by auto
    then obtain e' where e': "epoll_RemoveChannel True p c e = Inr (c\<lparr>inPollerStatus := KInit\<rparr>, e')"
      "ctl_replay (ctl e') = Some (k(?fd := None))" "channels e' = (channels e)(?fd := None)"
      using k(1) known \<open>events c = 0\<close>
      by (auto simp: epoll_RemoveChannel_def updateOperator2Poller_def channel_registered_def Let_def
          IsNoneEvent_def KNoneEvent_def fun_upd_idem)
    have "epoll_ok (h(p \<mapsto> c\<lparr>inPollerStatus := KInit\<rparr>)) e'"
      by (rule epoll_ok_update [where r = None and o' = None, OF k c _ _ e'(2,3)]) (use known in auto)
    then show "\<exists>st e'. epoll_RemoveChannel True p c e = Inr (c\<lparr>inPollerStatus := st\<rparr>, e') \<and>
        epoll_ok (h(p \<mapsto> c\<lparr>inPollerStatus := st\<rparr>)) e' \<and> channels e' = (channels e)(?fd := None)"
      using e' by blast
  }
qed


section \<open>PollPoller meets it\<close>

definition slot_ok :: "pollfd \<Rightarrow> 'cb channel \<Rightarrow> bool" where
  "slot_ok s c \<longleftrightarrow> pfd_fd s = (if events c = 0 then - (m_socketFd c + 1) else m_socketFd c) \<and>
     pfd_events s = ucast (events c)"

definition poll_ok :: "(nat \<rightharpoonup> 'cb channel) \<Rightarrow> ppoller \<Rightarrow> bool" where
  "poll_ok h e \<longleftrightarrow>
     (\<forall>fd. fdInpollfdsIdx e fd = None \<longleftrightarrow> pchannels e fd = None) \<and>
     (\<forall>fd p. pchannels e fd = Some p \<longrightarrow>
        (\<exists>c i. h p = Some c \<and> m_socketFd c = fd \<and> 0 \<le> fd \<and> valid_events (events c) \<and>
           fdInpollfdsIdx e fd = Some (int i) \<and> i < length (pollfds e) \<and> slot_ok (pollfds e ! i) c)) \<and>
     (\<forall>i < length (pollfds e). \<exists>fd. fdInpollfdsIdx e fd = Some (int i))"

definition poll_watched :: "ppoller \<Rightarrow> int \<Rightarrow> (events \<times> nat) option" where
  "poll_watched e fd =
     Option.bind (fdInpollfdsIdx e fd) (\<lambda>i. Option.bind (pchannels e fd) (\<lambda>p.
       let s = pollfds e ! nat i
       in if pfd_fd s = fd \<and> pfd_events s \<noteq> 0 then Some (scast (pfd_events s), p) else None))"

text \<open>What \<open>RemoveChannel\<close> needs: the slot is the last one, or the last one is not ignored.\<close>

definition poll_removable :: "ppoller \<Rightarrow> int \<Rightarrow> bool" where
  "poll_removable e fd \<longleftrightarrow>
     fdInpollfdsIdx e fd = Some (int (length (pollfds e)) - 1) \<or>
     pollfds e \<noteq> [] \<and> 0 \<le> pfd_fd (last (pollfds e))"

lemma poll_ok_known:
  assumes "poll_ok h e" "pchannels e fd = Some p"
  obtains c i where "h p = Some c" "m_socketFd c = fd" "0 \<le> fd" "valid_events (events c)"
    "fdInpollfdsIdx e fd = Some (int i)" "i < length (pollfds e)" "slot_ok (pollfds e ! i) c"
  using assms unfolding poll_ok_def by blast

lemma poll_ok_idx:
  assumes "poll_ok h e" "fdInpollfdsIdx e fd = Some j"
  obtains p c i where "pchannels e fd = Some p" "h p = Some c" "m_socketFd c = fd" "0 \<le> fd"
    "j = int i" "i < length (pollfds e)" "slot_ok (pollfds e ! i) c"
proof -
  have "pchannels e fd \<noteq> None" using assms unfolding poll_ok_def by (metis option.distinct(1))
  then obtain p where p: "pchannels e fd = Some p" by blast
  show ?thesis
    by (rule poll_ok_known [OF assms(1) p]) (use assms(2) p that in auto)
qed

lemma poll_ok_inj:
  assumes ok: "poll_ok h e" and "fdInpollfdsIdx e fd = Some j" "fdInpollfdsIdx e fd' = Some j"
  shows "fd = fd'"
proof -
  obtain p c i where 1: "h p = Some c" "m_socketFd c = fd" "0 \<le> fd" "j = int i" "slot_ok (pollfds e ! i) c"
    by (rule poll_ok_idx [OF ok assms(2)]) blast
  obtain p' c' i' where 2: "h p' = Some c'" "m_socketFd c' = fd'" "0 \<le> fd'" "j = int i'" "slot_ok (pollfds e ! i') c'"
    by (rule poll_ok_idx [OF ok assms(3)]) blast
  show ?thesis using 1 2 by (auto simp: slot_ok_def split: if_splits)
qed

lemma ucast_events_eq_0: "valid_events e \<Longrightarrow> (ucast e :: 16 word) = 0 \<longleftrightarrow> e = 0"
  using scast_ucast_events [of e] by auto

lemma poll_watched_wanted:
  assumes ok: "poll_ok h e"
  shows "poll_watched e = wanted h (pchannels e)"
proof
  fix fd
  show "poll_watched e fd = wanted h (pchannels e) fd"
  proof (cases "pchannels e fd")
    case (Some p)
    obtain c i where "h p = Some c" "m_socketFd c = fd" "0 \<le> fd" "valid_events (events c)"
      "fdInpollfdsIdx e fd = Some (int i)" "slot_ok (pollfds e ! i) c"
      by (rule poll_ok_known [OF ok Some]) blast
    then show ?thesis
      using Some by (auto simp: poll_watched_def wanted_def slot_ok_def scast_ucast_events ucast_events_eq_0)
  qed (auto simp: poll_watched_def wanted_def split: Option.bind_splits)
qed

lemma poll_update_known:
  assumes ok: "poll_ok h e" and c: "h p = Some c" and ev: "valid_events ev"
    and known: "pchannels e (m_socketFd c) = Some p"
  shows "\<exists>e'. poll_updateChannel True p (c\<lparr>events := ev\<rparr>) e = Inr (c\<lparr>events := ev\<rparr>, e') \<and>
    poll_ok (h(p \<mapsto> c\<lparr>events := ev\<rparr>)) e' \<and> pchannels e' = pchannels e"
proof -
  obtain i where i: "0 \<le> m_socketFd c" "fdInpollfdsIdx e (m_socketFd c) = Some (int i)"
    "i < length (pollfds e)" "slot_ok (pollfds e ! i) c"
    by (rule poll_ok_known [OF ok known]) (use c in auto)
  let ?s = "\<lparr>pfd_fd = (if ev = 0 then - (m_socketFd c + 1) else m_socketFd c), pfd_events = ucast ev,
      pfd_revents = 0\<rparr>"
  let ?e = "e\<lparr>pollfds := (pollfds e)[i := ?s]\<rparr>"
  have upd: "poll_updateChannel True p (c\<lparr>events := ev\<rparr>) e = Inr (c\<lparr>events := ev\<rparr>, ?e)"
    using i known by (auto simp: poll_updateChannel_def IsNoneEvent_def KNoneEvent_def slot_ok_def split: if_splits)
  have slot: "slot_ok ?s (c\<lparr>events := ev\<rparr>)" by (simp add: slot_ok_def)
  have "poll_ok (h(p \<mapsto> c\<lparr>events := ev\<rparr>)) ?e"
    unfolding poll_ok_def
  proof (intro conjI allI impI)
    fix fd q
    show "fdInpollfdsIdx ?e fd = None \<longleftrightarrow> pchannels ?e fd = None"
      using ok unfolding poll_ok_def by simp
    assume q: "pchannels ?e fd = Some q"
    show "\<exists>ca j. (h(p \<mapsto> c\<lparr>events := ev\<rparr>)) q = Some ca \<and> m_socketFd ca = fd \<and> 0 \<le> fd \<and>
        valid_events (events ca) \<and> fdInpollfdsIdx ?e fd = Some (int j) \<and> j < length (pollfds ?e) \<and>
        slot_ok (pollfds ?e ! j) ca"
    proof (cases "fd = m_socketFd c")
      case True
      then show ?thesis using q known i ev slot by simp
    next
      case False
      have q': "pchannels e fd = Some q" using q by simp
      obtain ca j where j: "h q = Some ca" "m_socketFd ca = fd" "0 \<le> fd" "valid_events (events ca)"
        "fdInpollfdsIdx e fd = Some (int j)" "j < length (pollfds e)" "slot_ok (pollfds e ! j) ca"
        by (rule poll_ok_known [OF ok q']) blast
      have "j \<noteq> i" using poll_ok_inj [OF ok j(5), of "m_socketFd c"] i(2) False by blast
      then show ?thesis using j c False by (intro exI [of _ ca] exI [of _ j]) auto
    qed
  next
    fix j assume "j < length (pollfds ?e)"
    then show "\<exists>fd. fdInpollfdsIdx ?e fd = Some (int j)"
      using ok unfolding poll_ok_def by simp
  qed
  with upd show ?thesis by auto
qed

lemma poll_update_new:
  assumes ok: "poll_ok h e" and c: "h p = Some c" "0 \<le> m_socketFd c" and ev: "valid_events ev" "ev \<noteq> 0"
    and new: "pchannels e (m_socketFd c) = None"
  shows "\<exists>st e'. poll_updateChannel True p (c\<lparr>events := ev\<rparr>) e = Inr (c\<lparr>events := ev, inPollerStatus := st\<rparr>, e') \<and>
    poll_ok (h(p \<mapsto> c\<lparr>events := ev, inPollerStatus := st\<rparr>)) e' \<and> pchannels e' = (pchannels e)(m_socketFd c \<mapsto> p)"
proof -
  let ?s = "\<lparr>pfd_fd = m_socketFd c, pfd_events = ucast ev, pfd_revents = 0\<rparr>"
  let ?c = "c\<lparr>events := ev, inPollerStatus := KAdded\<rparr>"
  let ?e = "e\<lparr>pollfds := pollfds e @ [?s], pchannels := (pchannels e)(m_socketFd c \<mapsto> p),
      fdInpollfdsIdx := (fdInpollfdsIdx e)(m_socketFd c \<mapsto> int (length (pollfds e)))\<rparr>"
  have idx: "fdInpollfdsIdx e (m_socketFd c) = None"
    using ok new unfolding poll_ok_def by simp
  then have upd: "poll_updateChannel True p (c\<lparr>events := ev\<rparr>) e = Inr (?c, ?e)"
    using new by (simp add: poll_updateChannel_def Let_def)
  have "poll_ok (h(p \<mapsto> ?c)) ?e"
    unfolding poll_ok_def
  proof (intro conjI allI impI)
    fix fd q
    show "fdInpollfdsIdx ?e fd = None \<longleftrightarrow> pchannels ?e fd = None"
      using ok unfolding poll_ok_def by simp
    assume q: "pchannels ?e fd = Some q"
    show "\<exists>ca j. (h(p \<mapsto> ?c)) q = Some ca \<and> m_socketFd ca = fd \<and> 0 \<le> fd \<and> valid_events (events ca) \<and>
        fdInpollfdsIdx ?e fd = Some (int j) \<and> j < length (pollfds ?e) \<and> slot_ok (pollfds ?e ! j) ca"
    proof (cases "fd = m_socketFd c")
      case True
      then show ?thesis using q c ev by (intro exI [of _ ?c] exI [of _ "length (pollfds e)"]) (auto simp: slot_ok_def)
    next
      case False
      then have q': "pchannels e fd = Some q" using q by simp
      obtain ca j where j: "h q = Some ca" "m_socketFd ca = fd" "0 \<le> fd" "valid_events (events ca)"
        "fdInpollfdsIdx e fd = Some (int j)" "j < length (pollfds e)" "slot_ok (pollfds e ! j) ca"
        by (rule poll_ok_known [OF ok q']) blast
      then show ?thesis using c False by (intro exI [of _ ca] exI [of _ j]) (auto simp: nth_append)
    qed
  next
    fix j assume j: "j < length (pollfds ?e)"
    show "\<exists>fd. fdInpollfdsIdx ?e fd = Some (int j)"
    proof (cases "j < length (pollfds e)")
      case True
      then obtain fd where "fdInpollfdsIdx e fd = Some (int j)"
        using ok unfolding poll_ok_def by blast
      then show ?thesis using idx by (intro exI [of _ fd]) auto
    next
      case False
      then show ?thesis using j by (intro exI [of _ "m_socketFd c"]) auto
    qed
  qed
  with upd show ?thesis by (intro exI [of _ KAdded] exI [of _ ?e]) simp
qed


text \<open>The table after a removal, stated once for both branches: every other descriptor keeps its
  slot or moves to the one that became free.\<close>

lemma poll_ok_removed:
  assumes ok: "poll_ok h e" and chs: "pchannels e' = (pchannels e)(fd := None)"
    and len: "length (pollfds e') = length (pollfds e) - 1"
    and own: "fdInpollfdsIdx e fd = Some (int i)" "i < length (pollfds e)"
    and idx: "\<And>fd'. fdInpollfdsIdx e' fd' =
      (if fd' = fd then None
       else map_option (\<lambda>j. if j = int (length (pollfds e)) - 1 then int i else j) (fdInpollfdsIdx e fd'))"
    and slots: "\<And>j. j < length (pollfds e) \<Longrightarrow> j \<noteq> i \<Longrightarrow>
      pollfds e' ! (if j = length (pollfds e) - 1 then i else j) = pollfds e ! j"
  shows "poll_ok h e'"
  unfolding poll_ok_def
proof (intro conjI allI impI)
  fix fd' q
  show "fdInpollfdsIdx e' fd' = None \<longleftrightarrow> pchannels e' fd' = None"
    using ok unfolding poll_ok_def by (simp add: idx chs)
  assume "pchannels e' fd' = Some q"
  then have ne: "fd' \<noteq> fd" and q: "pchannels e fd' = Some q"
    by (auto simp: chs split: if_splits)
  obtain c j where j: "h q = Some c" "m_socketFd c = fd'" "0 \<le> fd'" "valid_events (events c)"
    "fdInpollfdsIdx e fd' = Some (int j)" "j < length (pollfds e)" "slot_ok (pollfds e ! j) c"
    by (rule poll_ok_known [OF ok q]) blast
  have "j \<noteq> i" using poll_ok_inj [OF ok j(5), of fd] own(1) ne by blast
  let ?j = "if j = length (pollfds e) - 1 then i else j"
  have "fdInpollfdsIdx e' fd' = Some (int ?j)"
    using j(5,6) ne by (auto simp: idx)
  moreover have "?j < length (pollfds e')"
    using j(6) own(2) \<open>j \<noteq> i\<close> by (auto simp: len)
  moreover have "slot_ok (pollfds e' ! ?j) c"
    using slots [OF j(6) \<open>j \<noteq> i\<close>] j(7) by simp
  ultimately show "\<exists>c j. h q = Some c \<and> m_socketFd c = fd' \<and> 0 \<le> fd' \<and> valid_events (events c) \<and>
      fdInpollfdsIdx e' fd' = Some (int j) \<and> j < length (pollfds e') \<and> slot_ok (pollfds e' ! j) c"
    using j by blast
next
  fix j assume j: "j < length (pollfds e')"
  let ?j = "if j = i then length (pollfds e) - 1 else j"
  have "?j < length (pollfds e)" using j by (auto simp: len)
  then obtain fd' where fd': "fdInpollfdsIdx e fd' = Some (int ?j)"
    using ok unfolding poll_ok_def by blast
  have "?j \<noteq> i" using j by (auto simp: len)
  then have "fd' \<noteq> fd" using fd' own(1) by auto
  moreover have "j \<noteq> length (pollfds e) - 1" using j by (auto simp: len)
  ultimately show "\<exists>fd'. fdInpollfdsIdx e' fd' = Some (int j)"
    using fd' j by (intro exI [of _ fd']) (auto simp: idx len split: if_splits)
qed

lemma poll_remove:
  assumes ok: "poll_ok h e" and c: "h p = Some c" "events c = 0"
    and known: "pchannels e (m_socketFd c) = Some p" and rem: "poll_removable e (m_socketFd c)"
  shows "\<exists>e'. poll_RemoveChannel True p c e = Inr (c, e') \<and> poll_ok h e' \<and>
    pchannels e' = (pchannels e)(m_socketFd c := None)"
proof -
  let ?fd = "m_socketFd c" and ?n = "length (pollfds e)"
  obtain i where i: "fdInpollfdsIdx e ?fd = Some (int i)" "i < ?n" "slot_ok (pollfds e ! i) c"
    by (rule poll_ok_known [OF ok known]) (use c in auto)
  have checks: "IsNoneEvent c" "pfd_fd (pollfds e ! i) = - (?fd + 1)" "scast (pfd_events (pollfds e ! i)) = events c"
    using i(3) c(2) by (simp_all add: slot_ok_def IsNoneEvent_def KNoneEvent_def)
  show ?thesis
  proof (cases "i = ?n - 1")
    case True
    let ?e = "e\<lparr>pchannels := (pchannels e)(?fd := None), pollfds := butlast (pollfds e),
        fdInpollfdsIdx := (fdInpollfdsIdx e)(?fd := None)\<rparr>"
    have eq: "(int i = int ?n - 1) = True" using True i(2) by simp
    have run: "poll_RemoveChannel True p c e = Inr (c, ?e)"
      using i(1,2) known checks by (simp add: poll_RemoveChannel_def Let_def eq)
    have "poll_ok h ?e"
    proof (rule poll_ok_removed [OF ok _ _ i(1,2)])
      fix fd'
      show "fdInpollfdsIdx ?e fd' = (if fd' = ?fd then None
          else map_option (\<lambda>j. if j = int ?n - 1 then int i else j) (fdInpollfdsIdx e fd'))"
        using eq by (cases "fdInpollfdsIdx e fd'") auto
    qed (use True in \<open>auto simp: nth_butlast\<close>)
    with run show ?thesis by auto
  next
    case False
    then have lt: "i < ?n - 1" using i(2) by simp
    then have "pollfds e \<noteq> []" by auto
    have "?n - 1 < ?n" using lt by simp
    then obtain fdL where fdL: "fdInpollfdsIdx e fdL = Some (int (?n - 1))"
      using ok unfolding poll_ok_def by blast
    obtain q cL k where cL': "pchannels e fdL = Some q" "h q = Some cL" "m_socketFd cL = fdL" "0 \<le> fdL"
      "int (?n - 1) = int k" "slot_ok (pollfds e ! k) cL"
      by (rule poll_ok_idx [OF ok fdL]) blast
    then have "?n - 1 = k" by (simp only: of_nat_eq_iff)
    with cL' have cL: "m_socketFd cL = fdL" "0 \<le> fdL" "slot_ok (pollfds e ! (?n - 1)) cL" by simp_all
    have "0 \<le> pfd_fd (last (pollfds e))"
      using rem i(1) False lt by (auto simp: poll_removable_def)
    then have lastFd: "pfd_fd (last (pollfds e)) = fdL"
      using cL \<open>pollfds e \<noteq> []\<close> by (auto simp: slot_ok_def last_conv_nth split: if_splits)
    have ne: "fdL \<noteq> ?fd" using fdL i(1) False by auto
    let ?e = "e\<lparr>pchannels := (pchannels e)(?fd := None),
        pollfds := butlast ((pollfds e)[i := last (pollfds e)]),
        fdInpollfdsIdx := (fdInpollfdsIdx e)(fdL \<mapsto> int i, ?fd := None)\<rparr>"
    have "int i \<noteq> int ?n - 1" using lt by linarith
    then have run: "poll_RemoveChannel True p c e = Inr (c, ?e)"
      using i known checks lastFd by (simp add: poll_RemoveChannel_def Let_def)
    have "poll_ok h ?e"
    proof (rule poll_ok_removed [OF ok _ _ i(1,2)])
      fix fd'
      have "fd' = fdL" if "fdInpollfdsIdx e fd' = Some (int ?n - 1)"
        using poll_ok_inj [OF ok that, of fdL] fdL lt by auto
      then show "fdInpollfdsIdx ?e fd' = (if fd' = ?fd then None
          else map_option (\<lambda>j. if j = int ?n - 1 then int i else j) (fdInpollfdsIdx e fd'))"
        using fdL ne lt by (cases "fdInpollfdsIdx e fd'") auto
    next
      fix j assume "j < ?n" "j \<noteq> i"
      then show "pollfds ?e ! (if j = ?n - 1 then i else j) = pollfds e ! j"
        using lt \<open>pollfds e \<noteq> []\<close> by (auto simp: nth_butlast last_conv_nth)
    qed simp_all
    with run show ?thesis by auto
  qed
qed

interpretation ppoll: poller_contract "poll_updateChannel True" "poll_RemoveChannel True"
  pchannels poll_watched poll_removable poll_ok
proof
  fix h :: "nat \<rightharpoonup> 'cb channel" and e and p :: nat and c :: "'cb channel" and ev :: events
  assume ok: "poll_ok h e"
  show "poll_watched e = wanted h (pchannels e)"
    by (rule poll_watched_wanted [OF ok])
  assume c: "h p = Some c"
  show "\<exists>st e'. poll_updateChannel True p (c\<lparr>events := ev\<rparr>) e = Inr (c\<lparr>events := ev, inPollerStatus := st\<rparr>, e') \<and>
      poll_ok (h(p \<mapsto> c\<lparr>events := ev, inPollerStatus := st\<rparr>)) e' \<and> pchannels e' = (pchannels e)(m_socketFd c \<mapsto> p)"
    if "0 \<le> m_socketFd c" "valid_events ev" "pchannels e (m_socketFd c) = Some p \<or> pchannels e (m_socketFd c) = None \<and> ev \<noteq> 0"
    using that(3)
  proof
    assume known: "pchannels e (m_socketFd c) = Some p"
    then have "(pchannels e)(m_socketFd c \<mapsto> p) = pchannels e" by (rule fun_upd_idem)
    then show ?thesis
      using poll_update_known [OF ok c that(2) known] by (intro exI [of _ "inPollerStatus c"]) simp
  next
    assume "pchannels e (m_socketFd c) = None \<and> ev \<noteq> 0"
    then show ?thesis using poll_update_new [OF ok c that(1,2)] by blast
  qed
  show "\<exists>st e'. poll_RemoveChannel True p c e = Inr (c\<lparr>inPollerStatus := st\<rparr>, e') \<and>
      poll_ok (h(p \<mapsto> c\<lparr>inPollerStatus := st\<rparr>)) e' \<and> pchannels e' = (pchannels e)(m_socketFd c := None)"
    if "pchannels e (m_socketFd c) = Some p" "events c = 0" "poll_removable e (m_socketFd c)"
    using poll_remove [OF ok c that(2,1,3)] c
    by (auto intro!: exI [of _ "inPollerStatus c"] simp: fun_upd_idem)
qed


section \<open>Properties\<close>

text \<open>A heap of channels none of which a poller has seen.\<close>

definition fresh_heap :: "(nat \<rightharpoonup> 'cb channel) \<Rightarrow> bool" where
  "fresh_heap h \<longleftrightarrow> heap_ok h \<and> (\<forall>p c. h p = Some c \<longrightarrow> inPollerStatus c = KInit)"

lemma forget_status_fresh: "fresh_heap h \<Longrightarrow> forget_status h = h"
proof
  fix p assume "fresh_heap h"
  then show "forget_status h p = h p"
    by (cases "h p") (auto simp: fresh_heap_def forget_status_def)
qed

lemma epoll_history:
  assumes "fresh_heap h"
    and "ops_allowed channels (\<lambda>_ _. True) (channel_exec (epoll_updateChannel True) (epoll_RemoveChannel True))
           ops (h, EpollPoller)"
  shows "\<exists>h' e'. rfold (channel_exec (epoll_updateChannel True) (epoll_RemoveChannel True)) ops (h, EpollPoller) =
      Inr (h', e') \<and> ctl_replay (ctl e') \<noteq> None \<and>
    epoll_watched e' = case_prod wanted (fold channel_effect ops (h, Map.empty))"
proof -
  have "epoll_ok h EpollPoller"
    using assms(1) by (simp add: epoll_ok_def EpollPoller_def fresh_heap_def)
  moreover have "channels EpollPoller = Map.empty" by (simp add: EpollPoller_def)
  ultimately obtain s' where s': "rfold (channel_exec (epoll_updateChannel True) (epoll_RemoveChannel True)) ops
      (h, EpollPoller) = Inr s'" "epoll_ok (fst s') (snd s')"
    "epoll_watched (snd s') = case_prod wanted (fold channel_effect ops (h, Map.empty))"
    using epoll.history_ok [of "(h, EpollPoller)" ops] assms by (auto simp: forget_status_fresh fresh_heap_def)
  then show ?thesis
    by (intro exI [of _ "fst s'"] exI [of _ "snd s'"]) (auto simp: epoll_ok_def)
qed

text \<open>C22: in every allowed history of enabling, disabling and removing channels, \<open>EpollPoller\<close> fails no
  assertion, no \<open>epoll_ctl\<close> call fails, and the descriptors and events the kernel ends
  up watching are exactly those the channels ask for.\<close>

theorem epoll_watches_wanted:
  assumes "fresh_heap h"
    and "ops_allowed channels (\<lambda>_ _. True) (channel_exec (epoll_updateChannel True) (epoll_RemoveChannel True))
           ops (h, EpollPoller)"
  shows "\<exists>h' e'. rfold (channel_exec (epoll_updateChannel True) (epoll_RemoveChannel True)) ops (h, EpollPoller) =
      Inr (h', e') \<and> ctl_replay (ctl e') \<noteq> None \<and>
    epoll_watched e' = case_prod wanted (fold channel_effect ops (h, Map.empty))"
  by (rule epoll_history [OF assms])

definition two_channels :: "nat \<rightharpoonup> nat channel" where
  "two_channels = [1 \<mapsto> Channel 0 5, 2 \<mapsto> Channel 0 6]"

lemma fresh_two_channels: "fresh_heap two_channels"
  by (auto simp: fresh_heap_def heap_ok_def two_channels_def Channel_def KNoneEvent_def split: if_splits)

lemmas run_pollers =
  two_channels_def Channel_def channel_interest_def channel_remove_def set_interest_def event_masks
  epoll_updateChannel_def epoll_RemoveChannel_def poll_updateChannel_def poll_RemoveChannel_def
  updateOperator2Poller_def EpollPoller_def PollPoller_def IsNoneEvent_def Let_def

theorem epoll_watches_wanted_witness:
  "\<exists>h' e'. rfold (channel_exec (epoll_updateChannel True) (epoll_RemoveChannel True))
       [Interest EnableReadEvent 1, Interest EnableWriteEvent 2, Interest DisableAllEvent 1, Remove 1]
       (two_channels, EpollPoller) = Inr (h', e') \<and> epoll_watched e' 6 = Some (4, 2) \<and> epoll_watched e' 5 = None"
proof -
  let ?ops = "[Interest EnableReadEvent 1, Interest EnableWriteEvent 2, Interest DisableAllEvent 1, Remove 1]"
  have "ops_allowed channels (\<lambda>_ _. True) (channel_exec (epoll_updateChannel True) (epoll_RemoveChannel True))
      ?ops (two_channels, EpollPoller)"
    by (simp add: run_pollers)
  moreover have "case_prod wanted (fold channel_effect ?ops (two_channels, Map.empty)) 6 = Some (4, 2)"
    "case_prod wanted (fold channel_effect ?ops (two_channels, Map.empty)) 5 = None"
    by (simp_all add: run_pollers wanted_def)
  ultimately show ?thesis
    using epoll_watches_wanted [OF fresh_two_channels] by metis
qed

lemma poll_history:
  assumes "fresh_heap h"
    and "ops_allowed pchannels poll_removable (channel_exec (poll_updateChannel True) (poll_RemoveChannel True))
           ops (h, PollPoller)"
  shows "\<exists>h' e'. rfold (channel_exec (poll_updateChannel True) (poll_RemoveChannel True)) ops (h, PollPoller) =
      Inr (h', e') \<and> poll_watched e' = case_prod wanted (fold channel_effect ops (h, Map.empty))"
proof -
  have "poll_ok h PollPoller"
    by (simp add: poll_ok_def PollPoller_def)
  moreover have "pchannels PollPoller = Map.empty" by (simp add: PollPoller_def)
  ultimately obtain s' where s': "rfold (channel_exec (poll_updateChannel True) (poll_RemoveChannel True)) ops
      (h, PollPoller) = Inr s'"
    "poll_watched (snd s') = case_prod wanted (fold channel_effect ops (h, Map.empty))"
    using ppoll.history_ok [of "(h, PollPoller)" ops] assms by (auto simp: forget_status_fresh fresh_heap_def)
  then show ?thesis
    by (intro exI [of _ "fst s'"] exI [of _ "snd s'"]) auto
qed





text \<open>Without that condition \<open>PollPoller\<close> loses track: when two channels are
  disabled and then both removed, the earlier one first, the swap files the later slot under
  its negated descriptor, and removing the later channel reads past the end of
  \<open>pollfds_\<close>. \<open>EpollPoller\<close> runs the same history without fault.\<close>

theorem poll_remove_ignored_last:
  "rfold (channel_exec (poll_updateChannel True) (poll_RemoveChannel True))
     [Interest EnableReadEvent 1, Interest EnableReadEvent 2, Interest DisableAllEvent 1,
      Interest DisableAllEvent 2, Remove 1, Remove 2] (two_channels, PollPoller) = Inl Undefined \<and>
   (\<exists>s. rfold (channel_exec (epoll_updateChannel True) (epoll_RemoveChannel True))
     [Interest EnableReadEvent 1, Interest EnableReadEvent 2, Interest DisableAllEvent 1,
      Interest DisableAllEvent 2, Remove 1, Remove 2] (two_channels, EpollPoller) = Inr s)"
  by (simp add: run_pollers)

end
