(* ===== verification/Loop_Wakeup.thy ===== *)
theory Loop_Wakeup
  imports Prelude
begin

text \<open>
  The wakeup protocol of \<open>net/Eventloop.cpp\<close> between an \<open>EventLoop\<close>'s own thread and the
  threads that queue functors to it: \<open>queueInLoop\<close>, \<open>WakeupToHandlePendingFunctors\<close>,
  \<open>handleWakeupChannelRaad\<close>, \<open>handlePendingFunctors\<close> and the outline of \<open>loop\<close>, as steps that
  interleave wherever \<open>mtx_\<close> is released or the \<open>eventfd\<close> is touched. What functors do
  inside is left out; \<open>Event_Loop\<close> has it for the loop's own thread.
\<close>

section \<open>States\<close>

text \<open>
  Where the loop thread is: before \<open>loop()\<close>, in \<open>poll\<close>, handling the active channels (the
  flag: the wakeup channel is among them and not handled yet), past
  \<open>isCallingPendingFunctors_ = true\<close>, and running the functors it swapped out.
\<close>

datatype 'f loop_phase = BeforeLoop | Polling | Handling bool | Swapping | Calling "'f list"

text \<open>
  \<open>eventfd\<close> is the counter of \<open>wakeupFd_\<close>; \<open>writers\<close> counts the other threads that have
  pushed a functor and not yet written to \<open>wakeupFd_\<close>. \<open>queued\<close> and \<open>executed\<close> record
  the functors pushed and run; \<open>preQueued\<close> that the loop's thread queued one before
  \<open>loop()\<close> and it has not been swapped out yet.
\<close>

record 'f lq =
  pendingFunctors :: "'f list"
  isCallingPendingFunctors :: bool
  eventfd :: nat
  phase :: "'f loop_phase"
  writers :: nat
  queued :: "'f list"
  executed :: "'f list"
  preQueued :: bool

definition lq_new :: "'f lq" where
  "lq_new = \<lparr>pendingFunctors = [], isCallingPendingFunctors = False, eventfd = 0, phase = BeforeLoop,
     writers = 0, queued = [], executed = [], preQueued = False\<rparr>"

section \<open>Steps\<close>

text \<open>Writing 1 to a non-blocking \<open>eventfd\<close>: refused when the counter would pass \<open>2^64 - 2\<close>.\<close>

definition eventfd_write :: "nat \<Rightarrow> nat" where
  "eventfd_write n = (if n + 1 \<le> 2 ^ 64 - 2 then n + 1 else n)"

definition WakeupToHandlePendingFunctors :: "'f lq \<Rightarrow> 'f lq" where
  "WakeupToHandlePendingFunctors s = s\<lparr>eventfd := eventfd_write (eventfd s)\<rparr>"

definition push_pending :: "'f \<Rightarrow> 'f lq \<Rightarrow> 'f lq" where
  "push_pending f s = s\<lparr>pendingFunctors := pendingFunctors s @ [f], queued := queued s @ [f]\<rparr>"

text \<open>\<open>queueInLoop\<close> in the loop's thread: no other step of that thread comes between.\<close>

definition queueInLoop_own :: "'f \<Rightarrow> 'f lq \<Rightarrow> 'f lq option" where
  "queueInLoop_own f s =
     (let s' = push_pending f s in
      case phase s of
        Polling \<Rightarrow> None
      | Swapping \<Rightarrow> None
      | BeforeLoop \<Rightarrow> Some (s'\<lparr>preQueued := True\<rparr>)
      | _ \<Rightarrow> Some (if isCallingPendingFunctors s then WakeupToHandlePendingFunctors s' else s'))"

text \<open>In another thread: the push, and later the wakeup.\<close>

definition queueInLoop_push :: "'f \<Rightarrow> 'f lq \<Rightarrow> 'f lq option" where
  "queueInLoop_push f s = Some ((push_pending f s)\<lparr>writers := writers s + 1\<rparr>)"

definition queueInLoop_wake :: "'f lq \<Rightarrow> 'f lq option" where
  "queueInLoop_wake s =
     (if 0 < writers s then Some (WakeupToHandlePendingFunctors (s\<lparr>writers := writers s - 1\<rparr>)) else None)"

definition loop_enter :: "'f lq \<Rightarrow> 'f lq option" where
  "loop_enter s = (if phase s = BeforeLoop then Some (s\<lparr>phase := Polling\<rparr>) else None)"

text \<open>\<open>poll\<close> returns: with the wakeup channel among the active ones only if the counter is not zero,
  without it for other events or after the time limit.\<close>

definition poll_return :: "bool \<Rightarrow> 'f lq \<Rightarrow> 'f lq option" where
  "poll_return w s =
     (if phase s = Polling \<and> (w \<longrightarrow> 0 < eventfd s) then Some (s\<lparr>phase := Handling w\<rparr>) else None)"

definition handleWakeupChannelRaad :: "'f lq \<Rightarrow> 'f lq option" where
  "handleWakeupChannelRaad s =
     (if phase s = Handling True then Some (s\<lparr>eventfd := 0, phase := Handling False\<rparr>) else None)"

definition pending_begin :: "'f lq \<Rightarrow> 'f lq option" where
  "pending_begin s =
     (if phase s = Handling False then Some (s\<lparr>isCallingPendingFunctors := True, phase := Swapping\<rparr>) else None)"

definition pending_swap :: "'f lq \<Rightarrow> 'f lq option" where
  "pending_swap s =
     (if phase s = Swapping
      then Some (s\<lparr>phase := Calling (pendingFunctors s), pendingFunctors := [], preQueued := False\<rparr>) else None)"

definition pending_run :: "'f lq \<Rightarrow> 'f lq option" where
  "pending_run s =
     (case phase s of
        Calling (f # fs) \<Rightarrow> Some (s\<lparr>phase := Calling fs, executed := executed s @ [f]\<rparr>)
      | _ \<Rightarrow> None)"

definition pending_end :: "'f lq \<Rightarrow> 'f lq option" where
  "pending_end s =
     (case phase s of
        Calling [] \<Rightarrow> Some (s\<lparr>phase := Polling, isCallingPendingFunctors := False\<rparr>)
      | _ \<Rightarrow> None)"

datatype 'f lq_label =
    OwnQueue 'f | OtherPush 'f | OtherWake
  | EnterLoop | PollReturn bool | ReadWakeup | BeginPending | SwapPending | RunPending | EndPending

fun lq_exec :: "'f lq_label \<Rightarrow> 'f lq \<Rightarrow> 'f lq option" where
  "lq_exec (OwnQueue f) s = queueInLoop_own f s"
| "lq_exec (OtherPush f) s = queueInLoop_push f s"
| "lq_exec OtherWake s = queueInLoop_wake s"
| "lq_exec EnterLoop s = loop_enter s"
| "lq_exec (PollReturn w) s = poll_return w s"
| "lq_exec ReadWakeup s = handleWakeupChannelRaad s"
| "lq_exec BeginPending s = pending_begin s"
| "lq_exec SwapPending s = pending_swap s"
| "lq_exec RunPending s = pending_run s"
| "lq_exec EndPending s = pending_end s"

inductive lq_step :: "'f lq \<Rightarrow> 'f lq \<Rightarrow> bool" where
  "lq_exec l s = Some s' \<Longrightarrow> lq_step s s'"

inductive_simps lq_step_iff: "lq_step s s'"

definition lq_init :: "'f lq \<Rightarrow> bool" where
  "lq_init s \<longleftrightarrow> s = lq_new"

fun lq_run :: "'f lq_label list \<Rightarrow> 'f lq \<Rightarrow> 'f lq option" where
  "lq_run [] s = Some s"
| "lq_run (l # ls) s = (case lq_exec l s of None \<Rightarrow> None | Some s' \<Rightarrow> lq_run ls s')"

lemma lq_run_reach: "lq_run ls s = Some s' \<Longrightarrow> reach lq_init lq_step s \<Longrightarrow> reach lq_init lq_step s'"
  by (induction ls s rule: lq_run.induct) (auto split: option.splits intro: reach_step lq_step.intros)

lemma lq_run_append:
  "lq_run (xs @ ys) s = (case lq_run xs s of None \<Rightarrow> None | Some s' \<Rightarrow> lq_run ys s')"
  by (induction xs s rule: lq_run.induct) (auto split: option.splits)

section \<open>The invariant\<close>

fun batch :: "'f loop_phase \<Rightarrow> 'f list" where
  "batch (Calling fs) = fs"
| "batch _ = []"

fun calling :: "'f loop_phase \<Rightarrow> bool" where
  "calling (Calling fs) = True"
| "calling Swapping = True"
| "calling _ = False"

fun must_wake :: "'f loop_phase \<Rightarrow> bool" where
  "must_wake BeforeLoop = True"
| "must_wake Polling = True"
| "must_wake (Calling fs) = True"
| "must_wake _ = False"

definition lq_inv :: "'f lq \<Rightarrow> bool" where
  "lq_inv s \<longleftrightarrow>
     queued s = executed s @ batch (phase s) @ pendingFunctors s \<and>
     isCallingPendingFunctors s = calling (phase s) \<and>
     (must_wake (phase s) \<longrightarrow> pendingFunctors s \<noteq> [] \<longrightarrow> 0 < eventfd s \<or> 0 < writers s \<or> preQueued s)"

lemma eventfd_write_pos [simp]: "0 < eventfd_write n" "eventfd_write n \<noteq> 0"
  by (simp_all add: eventfd_write_def)

lemmas lq_steps =
  queueInLoop_own_def queueInLoop_push_def queueInLoop_wake_def loop_enter_def poll_return_def
  handleWakeupChannelRaad_def pending_begin_def pending_swap_def pending_run_def pending_end_def
  WakeupToHandlePendingFunctors_def push_pending_def Let_def

lemma lq_exec_inv: "lq_exec l s = Some s' \<Longrightarrow> lq_inv s \<Longrightarrow> lq_inv s'"
  by (cases l)
    (auto simp: lq_inv_def lq_steps split: loop_phase.splits if_splits list.splits)

interpretation lq: invariant_system lq_init lq_step lq_inv
  by unfold_locales (auto simp: lq_init_def lq_new_def lq_inv_def lq_step_iff dest: lq_exec_inv)

section \<open>Properties\<close>

text \<open>C18: in every reachable state the functors queued to the loop are those run, those of the
  batch being run and those pending, in that order: each functor is run at most once, in
  the order queued, whichever thread queued it, and none is lost.\<close>

theorem functors_fifo:
  assumes "reach lq_init lq_step s"
  shows "queued s = executed s @ batch (phase s) @ pendingFunctors s"
  using lq.reach_inv [OF assms] by (simp add: lq_inv_def)

lemma reach_lq_new: "reach lq_init lq_step lq_new"
  by (rule reach_init) (simp add: lq_init_def)

theorem functors_fifo_witness:
  "\<exists>s. lq_run [EnterLoop, OtherPush (1 :: nat), PollReturn False, BeginPending, SwapPending, OtherPush 2] lq_new = Some s \<and>
     queued s = executed s @ batch (phase s) @ pendingFunctors s \<and> batch (phase s) = [1]"
proof -
  obtain s where s: "lq_run [EnterLoop, OtherPush (1 :: nat), PollReturn False, BeginPending, SwapPending, OtherPush 2]
      lq_new = Some s" "batch (phase s) = [1]"
    by (simp add: lq_steps lq_new_def)
  show ?thesis
    using functors_fifo [OF lq_run_reach [OF s(1) reach_lq_new]] s by blast
qed



text \<open>Once the \<open>eventfd\<close> is readable, the next round of the loop, in steps of the loop's own thread that are
  all enabled, runs every functor pending when it swaps, in order, and is back in
  \<open>poll\<close>.\<close>

theorem wakeup_runs_pending:
  assumes "phase s = Polling" "0 < eventfd s"
  shows "\<exists>s'. lq_run ([PollReturn True, ReadWakeup, BeginPending, SwapPending] @
        replicate (length (pendingFunctors s)) RunPending @ [EndPending]) s = Some s' \<and>
      executed s' = executed s @ pendingFunctors s \<and> pendingFunctors s' = [] \<and> phase s' = Polling"
proof -
  have run: "lq_run (replicate (length fs) RunPending @ [EndPending]) r =
      Some (r\<lparr>phase := Polling, executed := executed r @ fs, isCallingPendingFunctors := False\<rparr>)"
    if "phase r = Calling fs" for fs and r :: "'a lq"
    using that
  proof (induction fs arbitrary: r)
    case (Cons f fs)
    then show ?case
      using Cons.IH [of "r\<lparr>phase := Calling fs, executed := executed r @ [f]\<rparr>"] by (simp add: lq_steps)
  qed (simp add: lq_steps)
  show ?thesis
    using assms run by (simp add: lq_steps)
qed

theorem wakeup_runs_pending_witness:
  "\<exists>s s'. lq_run [EnterLoop, OtherPush (1 :: nat), OtherPush 3, OtherWake] lq_new = Some s \<and>
     lq_run [PollReturn True, ReadWakeup, BeginPending, SwapPending, RunPending, RunPending, EndPending] s = Some s' \<and>
     executed s' = [1, 3]"
proof -
  obtain s where s: "lq_run [EnterLoop, OtherPush (1 :: nat), OtherPush 3, OtherWake] lq_new = Some s"
    "phase s = Polling" "0 < eventfd s" "executed s = []" "pendingFunctors s = [1, 3]"
    by (simp add: lq_steps lq_new_def)
  show ?thesis
    using wakeup_runs_pending [OF s(2,3)] s by (simp add: numeral_2_eq_2) blast
qed

text \<open>what the loop's own thread queues before it calls \<open>loop()\<close> wakes nobody: the loop goes into its first
  \<open>poll\<close> with that functor pending, the \<open>eventfd\<close> not readable and no thread about to write
  to it, and waits for the time limit or another event.\<close>

theorem prequeued_functor_waits:
  "\<exists>s :: nat lq. reach lq_init lq_step s \<and> phase s = Polling \<and> pendingFunctors s \<noteq> [] \<and>
     eventfd s = 0 \<and> writers s = 0"
proof -
  obtain s :: "nat lq" where s: "lq_run [OwnQueue 1, EnterLoop] lq_new = Some s"
    "phase s = Polling" "pendingFunctors s \<noteq> []" "eventfd s = 0" "writers s = 0"
    by (simp add: lq_steps lq_new_def)
  show ?thesis
    using lq_run_reach [OF s(1) reach_lq_new] s(2-) by blast
qed

end
