(* ===== verification/Event_Loop.thy ===== *)
theory Event_Loop
  imports Timer_Queue Pollers
begin

text \<open>
  \<open>net/Eventloop.h\<close> and \<open>net/Eventloop.cpp\<close>, seen from the loop's own thread: one turn of
  \<open>loop\<close>, with the channels, the poller, the timer queue and the pending functors in one
  state. The functors and callbacks the library itself makes with \<open>std::bind\<close> are
  constructors; user code is a parameter that says, at each turn, which calls a user
  callback makes. Other threads act between the turns; how their steps interleave with
  \<open>queueInLoop\<close> and \<open>handlePendingFunctors\<close> is the subject of \<open>Loop_Wakeup\<close>.
\<close>

section \<open>State\<close>

text \<open>The callbacks set on channels: \<open>TimerQueue::handelRead\<close>,
  \<open>EventLoop::handleWakeupChannelRaad\<close>, and user callbacks.\<close>

datatype 'u handler = HTimer | HWakeup | HUser 'u

text \<open>The functors queued: \<open>addTimerInLoop\<close> and \<open>cancelInLoop\<close> bound to a timer, and user ones.\<close>

datatype 'u loop_functor = FAddTimer nat | FCancel timer_id | FUser 'u

text \<open>The timer queue's members are those of \<open>tqueue\<close>; \<open>trace\<close> records the user code run.\<close>

record 'u evloop = "'u tqueue" +
  chan_heap :: "nat \<rightharpoonup> 'u handler channel"
  poller :: poller
  activeChanels :: "nat list"
  pending :: "'u loop_functor list"
  callingPending :: bool
  wakeups :: nat
  trace :: "'u list"

section \<open>Operations\<close>

definition wakeup :: "'u evloop \<Rightarrow> 'u evloop" where
  "wakeup s = s\<lparr>wakeups := wakeups s + 1\<rparr>"

definition queueInLoop :: "bool \<Rightarrow> 'u loop_functor \<Rightarrow> 'u evloop \<Rightarrow> 'u evloop" where
  "queueInLoop inLoop f s =
     (let s' = s\<lparr>pending := pending s @ [f]\<rparr>
      in if \<not> inLoop \<or> callingPending s' then wakeup s' else s')"

definition loop_updateChannel :: "bool \<Rightarrow> interest_op \<Rightarrow> nat \<Rightarrow> 'u evloop \<Rightarrow> 'u evloop result" where
  "loop_updateChannel inLoop x p s =
     rbind (channel_interest (updateChannel inLoop) x p (chan_heap s, poller s))
       (\<lambda>(h, po). Inr (s\<lparr>chan_heap := h, poller := po\<rparr>))"

definition loop_removeChannel :: "bool \<Rightarrow> nat \<Rightarrow> 'u evloop \<Rightarrow> 'u evloop result" where
  "loop_removeChannel inLoop p s =
     rbind (channel_remove (RemoveChannel inLoop) p (chan_heap s, poller s))
       (\<lambda>(h, po). Inr (s\<lparr>chan_heap := h, poller := po\<rparr>))"

text \<open>The timer operations in the loop's thread.\<close>

definition runAt :: "timestamp \<Rightarrow> nat \<Rightarrow> timestamp \<Rightarrow> 'u \<Rightarrow> 'u evloop \<Rightarrow> (timer_id \<times> 'u evloop) result" where
  "runAt clk p time cb s = addTimer clk p cb time (Dbl 0 0) s"

definition runAfter ::
    "timestamp \<Rightarrow> timestamp \<Rightarrow> nat \<Rightarrow> dbl \<Rightarrow> 'u \<Rightarrow> 'u evloop \<Rightarrow> (timer_id \<times> 'u evloop) result" where
  "runAfter now clk p delay cb s = runAt clk p (addTime now delay) cb s"

definition runEvery ::
    "timestamp \<Rightarrow> timestamp \<Rightarrow> nat \<Rightarrow> dbl \<Rightarrow> 'u \<Rightarrow> 'u evloop \<Rightarrow> (timer_id \<times> 'u evloop) result" where
  "runEvery now clk p iv cb s = addTimer clk p cb (addTime now iv) iv s"

definition cancle :: "timer_id \<Rightarrow> 'u evloop \<Rightarrow> 'u evloop result" where
  "cancle tid s = cancelInLoop True tid s"

text \<open>The same from another thread: the timer is allocated there, its insertion is queued.
  \<open>other_timer_id\<close> is the \<open>timer->sequence()\<close> that \<open>addTimer\<close> evaluates last.\<close>

definition other_addTimer :: "nat \<Rightarrow> 'u \<Rightarrow> timestamp \<Rightarrow> dbl \<Rightarrow> 'u evloop \<Rightarrow> 'u evloop result" where
  "other_addTimer p cb expir iv s =
     rbind (new_timer p cb expir iv s) (\<lambda>s'. Inr (queueInLoop False (FAddTimer p) s'))"

definition other_timer_id :: "nat \<Rightarrow> 'u evloop \<Rightarrow> timer_id result" where
  "other_timer_id p s = deref (timer_heap s) p (\<lambda>tm. Inr (p, sequence tm))"

text \<open>The calls user code makes, and running it.\<close>

datatype 'u ucall =
    CRunAt timestamp nat timestamp 'u
  | CRunAfter timestamp timestamp nat dbl 'u
  | CRunEvery timestamp timestamp nat dbl 'u
  | CCancle timer_id
  | CQueue 'u

fun exec_ucall :: "'u ucall \<Rightarrow> 'u evloop \<Rightarrow> 'u evloop result" where
  "exec_ucall (CRunAt clk p time cb) s = rbind (runAt clk p time cb s) (\<lambda>(_, s'). Inr s')"
| "exec_ucall (CRunAfter now clk p delay cb) s = rbind (runAfter now clk p delay cb s) (\<lambda>(_, s'). Inr s')"
| "exec_ucall (CRunEvery now clk p iv cb) s = rbind (runEvery now clk p iv cb s) (\<lambda>(_, s'). Inr s')"
| "exec_ucall (CCancle tid) s = cancle tid s"
| "exec_ucall (CQueue u) s = Inr (queueInLoop True (FUser u) s)"

definition run_user :: "('u \<Rightarrow> 'u ucall list) \<Rightarrow> 'u \<Rightarrow> 'u evloop \<Rightarrow> 'u evloop result" where
  "run_user calls u s = rfold exec_ucall (calls u) (s\<lparr>trace := trace s @ [u]\<rparr>)"

text \<open>
  What a turn of the loop gets from outside: the answer of the kernel to \<open>poll\<close>
  (\<open>epoll_wait\<close>'s entries, or \<open>poll\<close>'s count and \<open>revents\<close>), the clock readings
  of \<open>handelRead\<close>, of its last \<open>resetTimerFd\<close> and of those in the functors, and what
  user code does.
\<close>

record 'u env =
  env_events :: "(events \<times> nat) list"
  env_numEvents :: int
  env_revents :: "16 word list"
  env_now :: timestamp
  env_clk :: timestamp
  env_fclk :: "nat \<Rightarrow> timestamp"
  env_calls :: "'u \<Rightarrow> 'u ucall list"

fun poller_poll ::
    "'u env \<Rightarrow> (nat \<rightharpoonup> 'cb channel) \<Rightarrow> poller \<Rightarrow> (nat list \<times> (nat \<rightharpoonup> 'cb channel) \<times> poller) result" where
  "poller_poll env h (EpollP e) =
     rbind (epoll_poll (env_events env) h e) (\<lambda>(active, h', e'). Inr (active, h', EpollP e'))"
| "poller_poll env h (PollP e) =
     rbind (poll_poll (env_numEvents env) (env_revents env) h e)
       (\<lambda>(active, h', e'). Inr (active, h', PollP e'))"

fun exec_handler :: "'u env \<Rightarrow> 'u handler \<Rightarrow> 'u evloop \<Rightarrow> 'u evloop result" where
  "exec_handler env HTimer s = handelRead True (run_user (env_calls env)) (env_now env) (env_clk env) s"
| "exec_handler env HWakeup s = Inr (s\<lparr>wakeups := 0\<rparr>)"
| "exec_handler env (HUser u) s = run_user (env_calls env) u s"

fun exec_functor :: "'u env \<Rightarrow> 'u loop_functor \<Rightarrow> 'u evloop \<Rightarrow> 'u evloop result" where
  "exec_functor env (FAddTimer p) s = addTimerInLoop True (env_fclk env p) p s"
| "exec_functor env (FCancel tid) s = cancelInLoop True tid s"
| "exec_functor env (FUser u) s = run_user (env_calls env) u s"

definition runInLoop :: "bool \<Rightarrow> 'u env \<Rightarrow> 'u loop_functor \<Rightarrow> 'u evloop \<Rightarrow> 'u evloop result" where
  "runInLoop inLoop env f s = (if inLoop then exec_functor env f s else Inr (queueInLoop False f s))"

definition handlePendingFunctors :: "'u env \<Rightarrow> 'u evloop \<Rightarrow> 'u evloop result" where
  "handlePendingFunctors env s =
     rbind (rfold (exec_functor env) (pending s) (s\<lparr>callingPending := True, pending := []\<rparr>))
       (\<lambda>s'. Inr (s'\<lparr>callingPending := False\<rparr>))"

definition handle_active :: "'u env \<Rightarrow> nat \<Rightarrow> 'u evloop \<Rightarrow> 'u evloop result" where
  "handle_active env p s = HandleEvent chan_heap chan_heap_update (exec_handler env) p s"

text \<open>The body of \<open>loop\<close>.\<close>

definition loop_body :: "'u env \<Rightarrow> 'u evloop \<Rightarrow> 'u evloop result" where
  "loop_body env s =
     rbind (poller_poll env (chan_heap s) (poller s)) (\<lambda>(active, h, po).
       rbind (rfold (handle_active env) active
                (s\<lparr>activeChanels := active, chan_heap := h, poller := po\<rparr>))
         (handlePendingFunctors env))"

text \<open>The constructor: \<open>TimerQueue\<close>'s channel at \<open>pt\<close> under \<open>timefd\<close>, the wakeup channel at
  \<open>pw\<close> under \<open>wakeupFd\<close>.\<close>

definition EventLoop ::
    "string option \<Rightarrow> int \<Rightarrow> int \<Rightarrow> nat \<Rightarrow> nat \<Rightarrow> 'u evloop result" where
  "EventLoop pollerType timefd wakeupFd pt pw =
     (let s = tqueue.extend tqueue_new
                (evloop.fields [pt \<mapsto> SetReadCallback HTimer (Channel 0 timefd)]
                   (NewDefaultPoller pollerType) [] [] False 0 [])
      in rbind (loop_updateChannel True EnableReadEvent pt s) (\<lambda>s1.
           loop_updateChannel True EnableReadEvent pw
             (s1\<lparr>chan_heap := (chan_heap s1)(pw \<mapsto> SetReadCallback HWakeup (Channel 0 wakeupFd))\<rparr>)))"

text \<open>A history: turns of the loop, and what other threads do in between.\<close>

datatype 'u loop_input =
    Turn "'u env"
  | OtherQueue 'u
  | OtherAddTimer nat 'u timestamp dbl
  | OtherCancle timer_id

fun loop_exec :: "'u loop_input \<Rightarrow> 'u evloop \<Rightarrow> 'u evloop result" where
  "loop_exec (Turn env) s = loop_body env s"
| "loop_exec (OtherQueue u) s = Inr (queueInLoop False (FUser u) s)"
| "loop_exec (OtherAddTimer p cb expir iv) s = other_addTimer p cb expir iv s"
| "loop_exec (OtherCancle tid) s = Inr (queueInLoop False (FCancel tid) s)"


section \<open>Frames\<close>

fun timers_of :: "'u loop_functor list \<Rightarrow> nat list" where
  "timers_of [] = []"
| "timers_of (FAddTimer p # fs) = p # timers_of fs"
| "timers_of (_ # fs) = timers_of fs"

lemma timers_of_append [simp]: "timers_of (fs @ gs) = timers_of fs @ timers_of gs"
  by (induction fs rule: timers_of.induct) simp_all

text \<open>What user code cannot change in the loop's thread: the channels, the poller, the timers
  whose insertion is pending, and whether functors are being called.\<close>

definition loop_frame ::
    "'u evloop \<Rightarrow> (nat \<rightharpoonup> 'u handler channel) \<times> poller \<times> nat list \<times> bool" where
  "loop_frame s = (chan_heap s, poller s, timers_of (pending s), callingPending s)"

lemma evloop_extend:
  fixes s :: "'u evloop"
  shows "chan_heap (tqueue.extend tqueue_new (tqueue.more s)) = chan_heap s"
    "poller (tqueue.extend tqueue_new (tqueue.more s)) = poller s"
    "pending (tqueue.extend tqueue_new (tqueue.more s)) = pending s"
    "callingPending (tqueue.extend tqueue_new (tqueue.more s)) = callingPending s"
    "wakeups (tqueue.extend tqueue_new (tqueue.more s)) = wakeups s"
    "trace (tqueue.extend tqueue_new (tqueue.more s)) = trace s"
  by (cases s rule: evloop.cases; simp add: tqueue.defs)+

lemma evloop_more:
  fixes s s' :: "'u evloop"
  assumes "tqueue.more s' = tqueue.more s"
  shows "chan_heap s' = chan_heap s" "poller s' = poller s" "pending s' = pending s"
    "callingPending s' = callingPending s" "wakeups s' = wakeups s" "trace s' = trace s"
  by (simp_all only: evloop_extend [of s, symmetric] evloop_extend [of s', symmetric] assms)

lemma loop_frame_more: "tqueue.more s' = tqueue.more s \<Longrightarrow> loop_frame s' = loop_frame s"
  by (simp add: loop_frame_def evloop_more [of s' s])

lemma loop_frame_extend: "loop_frame (tqueue.extend tqueue_new (tqueue.more s)) = loop_frame s"
  by (simp add: loop_frame_def evloop_extend)

lemma queueInLoop_frame: "timers_of [f] = [] \<Longrightarrow> loop_frame (queueInLoop b f s) = loop_frame s"
  by (simp add: queueInLoop_def wakeup_def Let_def loop_frame_def)

lemmas timer_calls = runAt_def runAfter_def runEvery_def cancle_def

lemma exec_ucall_frame: "exec_ucall c s = Inr s' \<Longrightarrow> loop_frame s' = loop_frame s"
  by (cases c)
    (auto simp: timer_calls result_iffs queueInLoop_frame
      intro: loop_frame_more addTimer_more cancelInLoop_more)

lemma run_user_frame: "run_user calls u s = Inr s' \<Longrightarrow> loop_frame s' = loop_frame s"
proof -
  assume "run_user calls u s = Inr s'"
  then have "rfold exec_ucall (calls u) (s\<lparr>trace := trace s @ [u]\<rparr>) = Inr s'"
    by (simp add: run_user_def)
  then have "loop_frame s' = loop_frame (s\<lparr>trace := trace s @ [u]\<rparr>)"
    by (rule rfold_same [where f = exec_ucall and m = loop_frame, rotated]) (rule exec_ucall_frame)
  then show ?thesis by (simp add: loop_frame_def)
qed

lemma handelRead_loop_frame:
  assumes "handelRead b (run_user calls) now clk s = Inr s'"
  shows "loop_frame s' = loop_frame s"
  using handelRead_frame [where m = "\<lambda>r. loop_frame (tqueue.extend tqueue_new r)", OF _ assms]
  by (simp add: loop_frame_extend run_user_frame)

lemma exec_handler_frame: "exec_handler env h s = Inr s' \<Longrightarrow> loop_frame s' = loop_frame s"
  by (cases h) (auto dest: handelRead_loop_frame run_user_frame simp: loop_frame_def)

interpretation ch: channel_host chan_heap chan_heap_update "exec_handler env" for env :: "'u env"
  by unfold_locales (auto dest!: exec_handler_frame simp: loop_frame_def)

section \<open>Timers\<close>

text \<open>User code meets the contract of the timer queue.\<close>

lemma tq_inv_queueInLoop [simp]: "tq_inv E (queueInLoop b f s) = tq_inv E s"
  by (simp add: queueInLoop_def wakeup_def Let_def tq_inv_def)

definition timers_kept :: "nat set \<Rightarrow> 'u evloop \<Rightarrow> 'u evloop \<Rightarrow> bool" where
  "timers_kept E s s' \<longleftrightarrow> tq_inv E s' \<and> callingExpiredTimers s' = callingExpiredTimers s \<and>
     (\<forall>p \<in> E. timer_heap s' p = timer_heap s p)"

lemma timers_kept_trans: "timers_kept E s t \<Longrightarrow> timers_kept E t u \<Longrightarrow> timers_kept E s u"
  by (simp add: timers_kept_def)

lemma addTimer_kept:
  assumes "tq_inv E s"
  shows "case addTimer clk p cb expir iv s of Inl e \<Rightarrow> e = BadAlloc | Inr (tid, s') \<Rightarrow> timers_kept E s s'"
  using addTimer_spec [OF assms, where clk = clk and p = p and cb = cb and expir = expir and iv = iv]
  by (auto simp: timers_kept_def split: sum.splits)

lemma cancelled_kept: "tq_inv E s \<Longrightarrow> timers_kept E s (cancelled E tid s)"
  using tq_inv_cancelled [of E s tid]
  by (auto simp: timers_kept_def cancelled_def names_scheduled_def)

lemma exec_ucall_kept:
  assumes "tq_inv E s"
  shows "case exec_ucall c s of Inl e \<Rightarrow> e = BadAlloc | Inr s' \<Rightarrow> timers_kept E s s'"
proof (cases c)
  case (CRunAt clk p time cb)
  then show ?thesis
    using addTimer_kept [OF assms, of clk p cb time "Dbl 0 0"]
    by (cases "addTimer clk p cb time (Dbl 0 0) s") (auto simp: timer_calls)
next
  case (CRunAfter now clk p delay cb)
  then show ?thesis
    using addTimer_kept [OF assms, of clk p cb "addTime now delay" "Dbl 0 0"]
    by (cases "addTimer clk p cb (addTime now delay) (Dbl 0 0) s") (auto simp: timer_calls)
next
  case (CRunEvery now clk p iv cb)
  then show ?thesis
    using addTimer_kept [OF assms, of clk p cb "addTime now iv" iv]
    by (cases "addTimer clk p cb (addTime now iv) iv s") (auto simp: timer_calls)
next
  case (CCancle tid)
  then show ?thesis
    using cancelled_kept [OF assms, of tid] by (simp add: timer_calls cancelInLoop_eq [OF assms])
next
  case (CQueue u)
  then show ?thesis
    using assms by (simp add: timers_kept_def) (simp add: queueInLoop_def wakeup_def Let_def)
qed

lemma exec_ucalls_kept:
  assumes "tq_inv E s"
  shows "case rfold exec_ucall cs s of Inl e \<Rightarrow> e = BadAlloc | Inr s' \<Rightarrow> timers_kept E s s'"
  using assms
proof (induction cs arbitrary: s)
  case (Cons c cs)
  show ?case
  proof (cases "exec_ucall c s")
    case (Inl e)
    then show ?thesis using exec_ucall_kept [OF Cons.prems, of c] by simp
  next
    case (Inr s1)
    then have "timers_kept E s s1" using exec_ucall_kept [OF Cons.prems, of c] by simp
    then show ?thesis
      using Cons.IH [of s1] Inr by (auto simp: timers_kept_def split: sum.splits)
  qed
qed (simp add: timers_kept_def)

lemma run_user_kept:
  assumes "tq_inv E s"
  shows "case run_user calls u s of Inl e \<Rightarrow> e = BadAlloc | Inr s' \<Rightarrow> timers_kept E s s'"
proof -
  have "tq_inv E (s\<lparr>trace := trace s @ [u]\<rparr>)" using assms by (simp add: tq_inv_def)
  from exec_ucalls_kept [OF this, of "calls u"] show ?thesis
    by (simp add: run_user_def timers_kept_def split: sum.splits)
qed

interpretation ev: timer_client "run_user calls" for calls :: "'u \<Rightarrow> 'u ucall list"
proof
  fix E and s s' :: "'u evloop" and u and e
  assume *: "tq_inv E s" "callingExpiredTimers s"
  show "tq_inv E s' \<and> callingExpiredTimers s' \<and> (\<forall>p \<in> E. timer_heap s' p = timer_heap s p)"
    if "run_user calls u s = Inr s'"
    using run_user_kept [OF *(1), of calls u] that *(2) by (simp add: timers_kept_def)
  show "e = BadAlloc" if "run_user calls u s = Inl e"
    using run_user_kept [OF *(1), of calls u] that by simp
qed

lemma exec_handler_inv:
  assumes "tq_inv E s"
  shows "case exec_handler env h s of Inl e \<Rightarrow> e = BadAlloc | Inr s' \<Rightarrow> tq_inv E s'"
proof (cases h)
  case HTimer
  then show ?thesis
    using ev.handelRead_spec [OF assms, where calls = "env_calls env" and now = "env_now env" and clk = "env_clk env"]
    by (auto split: sum.splits)
next
  case HWakeup
  then show ?thesis using assms by (simp add: tq_inv_def)
next
  case (HUser u)
  then show ?thesis
    using run_user_kept [OF assms, of "env_calls env" u] by (auto simp: timers_kept_def split: sum.splits)
qed

lemma exec_handlers_inv:
  assumes "tq_inv E s"
  shows "case rfold (exec_handler env) hs s of Inl e \<Rightarrow> e = BadAlloc | Inr s' \<Rightarrow> tq_inv E s' \<and> loop_frame s' = loop_frame s"
  using assms
proof (induction hs arbitrary: s)
  case (Cons h hs)
  show ?case
  proof (cases "exec_handler env h s")
    case (Inl e)
    then show ?thesis using exec_handler_inv [OF Cons.prems, of env h] by simp
  next
    case (Inr s1)
    then have "tq_inv E s1" "loop_frame s1 = loop_frame s"
      using exec_handler_inv [OF Cons.prems, of env h] exec_handler_frame by auto
    then show ?thesis using Cons.IH [of s1] Inr by (auto split: sum.splits)
  qed
qed simp


section \<open>Channels and pollers\<close>

text \<open>What a poller knows of the channels; dispatching events does not touch it.\<close>

definition registration :: "(nat \<rightharpoonup> 'cb channel) \<Rightarrow> nat \<rightharpoonup> int \<times> events \<times> ChannelInPollerStatus" where
  "registration h p = map_option (\<lambda>c. (m_socketFd c, events c, inPollerStatus c)) (h p)"

lemma registration_Some:
  assumes "registration h' = registration h" "h p = Some c"
  obtains c' where "h' p = Some c'" "m_socketFd c' = m_socketFd c" "events c' = events c"
    "inPollerStatus c' = inPollerStatus c"
proof -
  have "registration h' p = registration h p" by (simp add: assms(1))
  then show ?thesis using assms(2) that by (auto simp: registration_def)
qed

lemma epoll_ok_registration:
  assumes "epoll_ok h e" and r: "registration h' = registration h"
  shows "epoll_ok h' e"
proof -
  obtain k where k: "ctl_replay (ctl e) = Some k" "\<And>fd. channels e fd = None \<Longrightarrow> k fd = None"
    "\<And>fd p. channels e fd = Some p \<Longrightarrow> \<exists>c. h p = Some c \<and> m_socketFd c = fd \<and> channel_registered c p (k fd)"
    "\<And>p c. h p = Some c \<Longrightarrow> channels e (m_socketFd c) \<noteq> Some p \<Longrightarrow> inPollerStatus c = KInit"
    using assms(1) by (rule epoll_okE) blast
  show ?thesis
  proof (rule epoll_okI [OF k(1,2)])
    fix fd p assume "channels e fd = Some p"
    then obtain c where c: "h p = Some c" "m_socketFd c = fd" "channel_registered c p (k fd)"
      using k(3) by blast
    obtain c' where "h' p = Some c'" "m_socketFd c' = m_socketFd c" "events c' = events c"
      "inPollerStatus c' = inPollerStatus c"
      by (rule registration_Some [OF r c(1)])
    then show "\<exists>c. h' p = Some c \<and> m_socketFd c = fd \<and> channel_registered c p (k fd)"
      using c by (simp add: channel_registered_def)
  next
    fix p c assume c: "h' p = Some c" "channels e (m_socketFd c) \<noteq> Some p"
    obtain c' where "h p = Some c'" "m_socketFd c' = m_socketFd c" "inPollerStatus c' = inPollerStatus c"
      by (rule registration_Some [OF r [symmetric] c(1)])
    then show "inPollerStatus c = KInit"
      using c(2) k(4) [of p c'] by simp
  qed simp
qed

lemma poll_ok_registration:
  assumes ok: "poll_ok h e" and r: "registration h' = registration h"
    and e': "pchannels e' = pchannels e" "fdInpollfdsIdx e' = fdInpollfdsIdx e"
      "map (\<lambda>s. (pfd_fd s, pfd_events s)) (pollfds e') = map (\<lambda>s. (pfd_fd s, pfd_events s)) (pollfds e)"
  shows "poll_ok h' e'"
  unfolding poll_ok_def
proof (intro conjI allI impI)
  have len: "length (pollfds e') = length (pollfds e)"
    using arg_cong [OF e'(3), of length] by simp
  fix fd p
  show "fdInpollfdsIdx e' fd = None \<longleftrightarrow> pchannels e' fd = None"
    using ok unfolding poll_ok_def by (simp add: e')
  show "\<exists>fd. fdInpollfdsIdx e' fd = Some (int i)" if "i < length (pollfds e')" for i
    using ok that unfolding poll_ok_def by (simp add: e' len)
  assume "pchannels e' fd = Some p"
  then have "pchannels e fd = Some p" by (simp add: e')
  then obtain c i where c: "h p = Some c" "m_socketFd c = fd" "0 \<le> fd" "valid_events (events c)"
    "fdInpollfdsIdx e fd = Some (int i)" "i < length (pollfds e)" "slot_ok (pollfds e ! i) c"
    by (rule poll_ok_known [OF ok]) blast
  obtain c' where c': "h' p = Some c'" "m_socketFd c' = m_socketFd c" "events c' = events c"
    by (rule registration_Some [OF r c(1)]) blast
  have "map (\<lambda>s. (pfd_fd s, pfd_events s)) (pollfds e') ! i = map (\<lambda>s. (pfd_fd s, pfd_events s)) (pollfds e) ! i"
    by (simp only: e'(3))
  then have "slot_ok (pollfds e' ! i) c'"
    using c(6,7) c' by (simp add: slot_ok_def len)
  then show "\<exists>c i. h' p = Some c \<and> m_socketFd c = fd \<and> 0 \<le> fd \<and> valid_events (events c) \<and>
      fdInpollfdsIdx e' fd = Some (int i) \<and> i < length (pollfds e') \<and> slot_ok (pollfds e' ! i) c"
    using c c' by (intro exI [of _ c'] exI [of _ i]) (simp add: e' len)
qed

fun poller_ok :: "(nat \<rightharpoonup> 'cb channel) \<Rightarrow> poller \<Rightarrow> bool" where
  "poller_ok h (EpollP e) = epoll_ok h e"
| "poller_ok h (PollP e) = poll_ok h e"

lemma poller_ok_registration:
  "poller_ok h po \<Longrightarrow> registration h' = registration h \<Longrightarrow> poller_ok h' po"
  by (cases po) (auto intro: epoll_ok_registration poll_ok_registration)

text \<open>What is relied on from the kernel: \<open>epoll_wait\<close> reports registered descriptors only, with
  the pointer they were registered with; \<open>poll\<close> writes one \<open>revents\<close> per entry, and none for
  a negative descriptor.\<close>

fun kernel_ok :: "'u env \<Rightarrow> poller \<Rightarrow> bool" where
  "kernel_ok env (EpollP e) \<longleftrightarrow>
     (\<forall>(ev, p) \<in> set (env_events env). \<exists>fd ev'. epoll_watched e fd = Some (ev', p))"
| "kernel_ok env (PollP e) \<longleftrightarrow>
     length (env_revents env) = length (pollfds e) \<and>
     (\<forall>(s, r) \<in> set (zip (pollfds e) (env_revents env)). sint r > 0 \<longrightarrow> 0 \<le> pfd_fd s)"

lemma registration_receive [simp]:
  "h p = Some c \<Longrightarrow> registration (h(p \<mapsto> SetReceiveEvent ev c)) = registration h"
  by (auto simp: registration_def SetReceiveEvent_def)

lemma epoll_fill:
  assumes "\<forall>p \<in> snd ` set evs. h p \<noteq> None"
  shows "\<exists>h'. epoll_fillActiveChannels evs h = Inr (map snd evs, h') \<and> registration h' = registration h"
  using assms
proof (induction evs arbitrary: h)
  case (Cons x evs)
  obtain ev p where x: "x = (ev, p)" by fastforce
  then obtain c where c: "h p = Some c" using Cons.prems by auto
  let ?h = "h(p \<mapsto> SetReceiveEvent ev c)"
  have "\<forall>q \<in> snd ` set evs. ?h q \<noteq> None" using Cons.prems by auto
  from Cons.IH [OF this] obtain h' where
    "epoll_fillActiveChannels evs ?h = Inr (map snd evs, h')" "registration h' = registration ?h"
    by blast
  then show ?case using c x by simp
qed simp

lemma poll_fill:
  assumes "\<forall>s \<in> set pfds. sint (pfd_revents s) > 0 \<longrightarrow> (\<exists>p. chs (pfd_fd s) = Some p \<and> h p \<noteq> None)"
  shows "\<exists>as h'. poll_fillActiveChannels n pfds chs h = Inr (as, h') \<and> registration h' = registration h \<and>
    (\<forall>p \<in> set as. h' p \<noteq> None)"
  using assms
proof (induction n pfds chs h rule: poll_fillActiveChannels.induct)
  case (2 n s pfds chs h)
  show ?case
  proof (cases "n > 0 \<and> sint (pfd_revents s) > 0")
    case True
    then obtain p c where p: "chs (pfd_fd s) = Some p" "h p = Some c" using 2(3) by auto
    let ?h = "h(p \<mapsto> SetReceiveEvent (scast (pfd_revents s)) c)"
    have "\<forall>s \<in> set pfds. sint (pfd_revents s) > 0 \<longrightarrow> (\<exists>p. chs (pfd_fd s) = Some p \<and> ?h p \<noteq> None)"
      using 2(3) by fastforce
    from 2(1) [OF _ _ p(1) this] True obtain as h' where
      r: "poll_fillActiveChannels (n - 1) pfds chs ?h = Inr (as, h')" "registration h' = registration ?h"
        "\<forall>p \<in> set as. h' p \<noteq> None"
      by blast
    have "h' p \<noteq> None"
      using registration_Some [OF r(2), of p] by auto
    then show ?thesis using True p r by auto
  next
    case False
    then show ?thesis using 2 by (cases "n > 0") auto
  qed
qed auto


lemma poll_slot_alive:
  assumes ok: "poll_ok h e" and i: "i < length (pollfds e)" "0 \<le> pfd_fd (pollfds e ! i)"
  shows "\<exists>p. pchannels e (pfd_fd (pollfds e ! i)) = Some p \<and> h p \<noteq> None"
proof -
  obtain fd where "fdInpollfdsIdx e fd = Some (int i)"
    using ok i(1) unfolding poll_ok_def by blast
  then obtain p c j where "pchannels e fd = Some p" "h p = Some c" "m_socketFd c = fd" "0 \<le> fd"
    "int i = int j" "slot_ok (pollfds e ! j) c"
    by (rule poll_ok_idx [OF ok]) blast
  then show ?thesis using i(2) by (auto simp: slot_ok_def split: if_splits)
qed

lemma poller_poll_spec:
  assumes ok: "poller_ok h po" and kernel: "kernel_ok env po"
  shows "\<exists>as h' po'. poller_poll env h po = Inr (as, h', po') \<and> registration h' = registration h \<and>
    poller_ok h' po' \<and> (\<forall>p \<in> set as. h' p \<noteq> None)"
proof (cases po)
  case (EpollP e)
  have "h p \<noteq> None" if mem: "(ev, p) \<in> set (env_events env)" for ev p
  proof -
    obtain fd ev' where "epoll_watched e fd = Some (ev', p)"
      using kernel mem EpollP by auto
    then show ?thesis
      using epoll.watched_ok [of h e] ok EpollP by (auto simp: wanted_def Option.bind_eq_Some_conv split: if_splits)
  qed
  then have "\<forall>p \<in> snd ` set (env_events env). h p \<noteq> None" by auto
  from epoll_fill [OF this] obtain h' where
    h': "epoll_fillActiveChannels (env_events env) h = Inr (map snd (env_events env), h')"
      "registration h' = registration h"
    by blast
  have alive: "\<forall>p \<in> snd ` set (env_events env). h' p \<noteq> None"
    using \<open>\<forall>p \<in> snd ` set (env_events env). h p \<noteq> None\<close> registration_Some [OF h'(2)] by blast
  have ok': "epoll_ok h' (e\<lparr>evlist_size := n\<rparr>)" "epoll_ok h' e" for n
    using epoll_ok_registration [OF _ h'(2), of e] ok EpollP by (simp_all add: epoll_ok_def)
  show ?thesis
  proof (cases "env_events env = []")
    case True
    then show ?thesis using EpollP ok by (simp add: epoll_poll_def)
  next
    case False
    then show ?thesis using EpollP h' alive ok' by (simp add: epoll_poll_def)
  qed
next
  case (PollP e)
  let ?pfds = "map2 (\<lambda>pfd r. pfd\<lparr>pfd_revents := r\<rparr>) (pollfds e) (env_revents env)"
  have ok: "poll_ok h e" and len: "length (env_revents env) = length (pollfds e)"
    and pos: "\<forall>(s, r) \<in> set (zip (pollfds e) (env_revents env)). sint r > 0 \<longrightarrow> 0 \<le> pfd_fd s"
    using ok kernel PollP by simp_all
  have "\<exists>p. pchannels e (pfd_fd s) = Some p \<and> h p \<noteq> None" if s: "s \<in> set ?pfds" "sint (pfd_revents s) > 0" for s
  proof -
    obtain i where i: "i < length (pollfds e)" "s = (pollfds e ! i)\<lparr>pfd_revents := env_revents env ! i\<rparr>"
      using s(1) len by (auto simp: set_zip)
    moreover from i(1) have "(pollfds e ! i, env_revents env ! i) \<in> set (zip (pollfds e) (env_revents env))"
      using len by (auto simp: set_zip)
    ultimately have "0 \<le> pfd_fd (pollfds e ! i)"
      using pos s(2) by fastforce
    from poll_slot_alive [OF ok i(1) this] show ?thesis by (simp add: i(2))
  qed
  then obtain as h' where f: "poll_fillActiveChannels (env_numEvents env) ?pfds (pchannels e) h = Inr (as, h')"
    "registration h' = registration h" "\<forall>p \<in> set as. h' p \<noteq> None"
    using poll_fill [of ?pfds "pchannels e" h "env_numEvents env"] by blast
  have same: "map (\<lambda>s. (pfd_fd s, pfd_events s)) ?pfds = map (\<lambda>s. (pfd_fd s, pfd_events s)) (pollfds e)"
    using len by (auto simp: list_eq_iff_nth_eq)
  have "poll_ok h' (e\<lparr>pollfds := ?pfds\<rparr>)"
    by (rule poll_ok_registration [OF ok f(2)]) (use same in simp_all)
  moreover have "poll_ok h (e\<lparr>pollfds := ?pfds\<rparr>)"
    by (rule poll_ok_registration [OF ok refl]) (use same in simp_all)
  ultimately show ?thesis
    using PollP f by (simp add: poll_poll_def Let_def)
qed

section \<open>A turn of the loop\<close>

definition ev_inv :: "'u evloop \<Rightarrow> bool" where
  "ev_inv s \<longleftrightarrow> tq_inv (set (timers_of (pending s))) s \<and> distinct (timers_of (pending s)) \<and>
     poller_ok (chan_heap s) (poller s)"

lemma registration_handling [simp]: "registration (set_handling p b h) = registration h"
  by (auto simp: registration_def set_handling_def option.map_comp comp_def)

lemma handle_active_spec:
  assumes "tq_inv E s" "chan_heap s p \<noteq> None"
  shows "case handle_active env p s of
      Inl e \<Rightarrow> e = BadAlloc
    | Inr s' \<Rightarrow> tq_inv E s' \<and> poller s' = poller s \<and> timers_of (pending s') = timers_of (pending s) \<and>
        registration (chan_heap s') = registration (chan_heap s) \<and> callingPending s' = callingPending s"
proof -
  obtain c where c: "chan_heap s p = Some c" using assms(2) by blast
  let ?s = "chan_heap_update (set_handling p True) s"
  have "tq_inv E ?s" using assms(1) by (simp add: tq_inv_def)
  from exec_handlers_inv [OF this, of env "due_callbacks c"] show ?thesis
    unfolding handle_active_def
    by (cases "rfold (exec_handler env) (due_callbacks c) ?s")
      (auto simp: ch.HandleEvent_eq [of s p c env, OF c] loop_frame_def tq_inv_def)
qed

lemma handle_actives_spec:
  assumes "tq_inv E s" "\<forall>p \<in> set ps. chan_heap s p \<noteq> None"
  shows "case rfold (handle_active env) ps s of
      Inl e \<Rightarrow> e = BadAlloc
    | Inr s' \<Rightarrow> tq_inv E s' \<and> poller s' = poller s \<and> timers_of (pending s') = timers_of (pending s) \<and>
        registration (chan_heap s') = registration (chan_heap s) \<and> callingPending s' = callingPending s"
  using assms
proof (induction ps arbitrary: s)
  case (Cons p ps)
  have p: "chan_heap s p \<noteq> None" using Cons.prems(2) by simp
  show ?case
  proof (cases "handle_active env p s")
    case (Inl e)
    then show ?thesis using handle_active_spec [OF Cons.prems(1) p, of env] by simp
  next
    case (Inr s1)
    then have s1: "tq_inv E s1" "poller s1 = poller s" "timers_of (pending s1) = timers_of (pending s)"
      "registration (chan_heap s1) = registration (chan_heap s)" "callingPending s1 = callingPending s"
      using handle_active_spec [OF Cons.prems(1) p, of env] by simp_all
    have "\<forall>q \<in> set ps. chan_heap s1 q \<noteq> None"
      using Cons.prems(2) registration_Some [OF s1(4)] by (metis list.set_intros(2) not_None_eq)
    from Cons.IH [OF s1(1) this] show ?thesis using Inr s1 by (auto split: sum.splits)
  qed
qed simp

lemma exec_functor_spec:
  assumes inv: "tq_inv (set (timers_of (f # fs @ pending s))) s" and "distinct (timers_of (f # fs @ pending s))"
  shows "case exec_functor env f s of
      Inl e \<Rightarrow> e = BadAlloc
    | Inr s' \<Rightarrow> tq_inv (set (timers_of (fs @ pending s'))) s' \<and> loop_frame s' = loop_frame s"
proof (cases f)
  case (FAddTimer p)
  let ?E = "set (timers_of (f # fs @ pending s))"
  have p: "p \<in> ?E" "p \<notin> set (timers_of (fs @ pending s))" using assms(2) FAddTimer by auto
  then obtain tm where tm: "timer_heap s p = Some tm"
    using inv by (auto simp: tq_inv_def dest!: tq_ok_sets(3))
  have E: "?E - {p} = set (timers_of (fs @ pending s))" using p FAddTimer by auto
  let ?s = "if timers s = [] \<or> expiration tm < fst (hd (timers s))
      then resetTimerFd (env_fclk env p) (expiration tm) (scheduled p tm s) else scheduled p tm s"
  have run: "exec_functor env f s = Inr ?s"
    using FAddTimer addTimerInLoop_eq [OF inv p(1) tm] by simp
  moreover have more: "tqueue.more ?s = tqueue.more s"
    by (simp add: resetTimerFd_def scheduled_def)
  moreover have "tq_inv (?E - {p}) ?s"
    using tq_insert_eq(2) [OF inv p(1) tm] by simp
  ultimately show ?thesis
    using evloop_more(3) [OF more] loop_frame_more [OF more] unfolding E by simp
next
  case (FCancel tid)
  have "tqueue.more (cancelled E tid s) = tqueue.more s" for E by (simp add: cancelled_def)
  with FCancel inv show ?thesis
    using tq_inv_cancelled [OF inv, of tid] evloop_more(3) [of "cancelled _ tid s" s]
      loop_frame_more [of "cancelled _ tid s" s]
    by (simp add: cancelInLoop_eq)
next
  case (FUser u)
  have frame: "run_user (env_calls env) u s = Inr s' \<Longrightarrow> timers_of (pending s') = timers_of (pending s)" for s'
    using run_user_frame [of "env_calls env" u s s'] by (simp add: loop_frame_def)
  show ?thesis
    using run_user_kept [OF inv, of "env_calls env" u] FUser frame
    by (cases "run_user (env_calls env) u s") (auto simp: timers_kept_def run_user_frame)
qed

lemma exec_functors_spec:
  assumes "tq_inv (set (timers_of (fs @ pending s))) s" and "distinct (timers_of (fs @ pending s))"
  shows "case rfold (exec_functor env) fs s of
      Inl e \<Rightarrow> e = BadAlloc
    | Inr s' \<Rightarrow> tq_inv (set (timers_of (pending s'))) s' \<and> loop_frame s' = loop_frame s"
  using assms
proof (induction fs arbitrary: s)
  case (Cons f fs)
  note spec = exec_functor_spec [of f fs s env] 
  show ?case
  proof (cases "exec_functor env f s")
    case (Inl e)
    then show ?thesis using spec Cons.prems by simp
  next
    case (Inr s1)
    then have s1: "tq_inv (set (timers_of (fs @ pending s1))) s1" "loop_frame s1 = loop_frame s"
      using spec Cons.prems by simp_all
    moreover have "distinct (timers_of (fs @ pending s1))"
      using Cons.prems(2) s1(2) by (cases f) (auto simp: loop_frame_def)
    ultimately show ?thesis using Cons.IH [of s1] Inr by (auto split: sum.splits)
  qed
qed simp


lemma handlePendingFunctors_spec:
  assumes "tq_inv (set (timers_of (pending s))) s" "distinct (timers_of (pending s))"
  shows "case handlePendingFunctors env s of
      Inl e \<Rightarrow> e = BadAlloc
    | Inr s' \<Rightarrow> tq_inv (set (timers_of (pending s'))) s' \<and> distinct (timers_of (pending s')) \<and>
        chan_heap s' = chan_heap s \<and> poller s' = poller s"
proof -
  let ?s = "s\<lparr>callingPending := True, pending := []\<rparr>"
  have "tq_inv (set (timers_of (pending s @ pending ?s))) ?s"
    using assms(1) by (simp add: tq_inv_def)
  from exec_functors_spec [OF this, of env] assms(2) show ?thesis
    by (cases "rfold (exec_functor env) (pending s) ?s")
      (auto simp: handlePendingFunctors_def loop_frame_def tq_inv_def)
qed

lemma loop_body_spec:
  assumes "ev_inv s" "kernel_ok env (poller s)"
  shows "case loop_body env s of Inl e \<Rightarrow> e = BadAlloc | Inr s' \<Rightarrow> ev_inv s'"
proof -
  note inv = assms(1) [unfolded ev_inv_def]
  obtain as h po where p: "poller_poll env (chan_heap s) (poller s) = Inr (as, h, po)"
    "registration h = registration (chan_heap s)" "poller_ok h po" "\<forall>q \<in> set as. h q \<noteq> None"
    using poller_poll_spec [OF _ assms(2), of "chan_heap s"] inv by blast
  let ?s = "s\<lparr>activeChanels := as, chan_heap := h, poller := po\<rparr>"
  have s: "tq_inv (set (timers_of (pending s))) ?s" "\<forall>q \<in> set as. chan_heap ?s q \<noteq> None"
    using inv p(4) by (simp_all add: tq_inv_def)
  note act = handle_actives_spec [OF s, of env]
  show ?thesis
  proof (cases "rfold (handle_active env) as ?s")
    case (Inl e)
    then show ?thesis using act by (simp add: loop_body_def p(1))
  next
    case (Inr s1)
    then have s1: "tq_inv (set (timers_of (pending s1))) s1" "poller s1 = po"
      "timers_of (pending s1) = timers_of (pending s)" "registration (chan_heap s1) = registration h"
      using act by simp_all
    then have "poller_ok (chan_heap s1) (poller s1)" "distinct (timers_of (pending s1))"
      using p(3) inv by (simp_all add: poller_ok_registration [OF p(3)])
    with handlePendingFunctors_spec [OF s1(1), of env] show ?thesis
      by (auto simp: loop_body_def p(1) Inr ev_inv_def split: sum.splits)
  qed
qed

lemma ev_inv_queueInLoop:
  assumes "ev_inv s" "timers_of [f] = []"
  shows "ev_inv (queueInLoop b f s)"
proof -
  have "loop_frame (queueInLoop b f s) = loop_frame s" by (rule queueInLoop_frame [OF assms(2)])
  then show ?thesis using assms(1) by (simp add: ev_inv_def loop_frame_def)
qed

lemma other_addTimer_spec:
  assumes "ev_inv s"
  shows "case other_addTimer p cb expir iv s of Inl e \<Rightarrow> e = BadAlloc | Inr s' \<Rightarrow> ev_inv s'"
proof (cases "new_timer p cb expir iv s")
  case (Inl e)
  then show ?thesis by (simp add: other_addTimer_def new_timer_Inl)
next
  case (Inr s1)
  note inv = assms [unfolded ev_inv_def]
  have n: "tq_inv (insert p (set (timers_of (pending s)))) s1" "timer_heap s p = None"
    using new_timer_Inr(1,2) [OF Inr] inv by blast+
  have more: "tqueue.more s1 = tqueue.more s" by (rule new_timer_more [OF Inr])
  have "set (timers_of (pending s)) \<subseteq> dom (timer_heap s)"
    using inv by (auto simp: tq_inv_def dest!: tq_ok_sets(3))
  then have "p \<notin> set (timers_of (pending s))" using n(2) by blast
  then have "ev_inv (queueInLoop False (FAddTimer p) s1)"
    using n(1) inv evloop_more [OF more]
    by (simp add: ev_inv_def) (simp add: queueInLoop_def wakeup_def Let_def)
  then show ?thesis by (simp add: other_addTimer_def Inr)
qed

lemma loop_exec_spec:
  assumes "ev_inv s" "\<And>env. x = Turn env \<Longrightarrow> kernel_ok env (poller s)"
  shows "case loop_exec x s of Inl e \<Rightarrow> e = BadAlloc | Inr s' \<Rightarrow> ev_inv s'"
proof (cases x)
  case (Turn env)
  then show ?thesis using loop_body_spec [OF assms(1)] assms(2) by simp
next
  case (OtherAddTimer p cb expir iv)
  then show ?thesis using other_addTimer_spec [OF assms(1)] by simp
qed (use ev_inv_queueInLoop [OF assms(1)] in simp_all)

text \<open>The kernel's part, along a history.\<close>

fun input_ok :: "'u loop_input \<Rightarrow> 'u evloop \<Rightarrow> bool" where
  "input_ok (Turn env) s \<longleftrightarrow> kernel_ok env (poller s)"
| "input_ok _ s \<longleftrightarrow> True"

abbreviation inputs_ok :: "'u loop_input list \<Rightarrow> 'u evloop \<Rightarrow> bool" where
  "inputs_ok \<equiv> legal_run loop_exec input_ok"

interpretation el: legal_system loop_exec input_ok ev_inv "\<lambda>e. e = BadAlloc"
proof
  fix s :: "'u evloop" and x
  assume "ev_inv s" "input_ok x s"
  then show "case loop_exec x s of Inl e \<Rightarrow> e = BadAlloc | Inr s' \<Rightarrow> ev_inv s'"
    by (intro loop_exec_spec) (cases x; simp)+
qed

lemmas loop_history = el.history

section \<open>The order of functors\<close>

fun users_of :: "'u loop_functor list \<Rightarrow> 'u list" where
  "users_of [] = []"
| "users_of (FUser u # fs) = u # users_of fs"
| "users_of (_ # fs) = users_of fs"

fun queues_of :: "'u ucall list \<Rightarrow> 'u list" where
  "queues_of [] = []"
| "queues_of (CQueue u # cs) = u # queues_of cs"
| "queues_of (_ # cs) = queues_of cs"

definition queued_up :: "'u list \<Rightarrow> 'u evloop \<Rightarrow> 'u evloop \<Rightarrow> bool" where
  "queued_up us s s' \<longleftrightarrow> pending s' = pending s @ map FUser us \<and> wakeups s \<le> wakeups s' \<and>
     callingPending s' = callingPending s \<and> (callingPending s \<longrightarrow> us \<noteq> [] \<longrightarrow> 0 < wakeups s')"

lemma queued_up_refl [simp]: "queued_up [] s s"
  by (simp add: queued_up_def)

lemma queued_up_trans: "queued_up us s t \<Longrightarrow> queued_up vs t u \<Longrightarrow> queued_up (us @ vs) s u"
  by (auto simp: queued_up_def)

lemma more_queued_up:
  assumes "tqueue.more s' = tqueue.more s"
  shows "queued_up [] s s' \<and> trace s' = trace s"
  using evloop_more [OF assms] by (simp add: queued_up_def)

lemma exec_ucall_queued: "exec_ucall c s = Inr s' \<Longrightarrow> queued_up (queues_of [c]) s s' \<and> trace s' = trace s"
proof (cases c)
  case (CQueue u)
  assume "exec_ucall c s = Inr s'"
  then show ?thesis
    using CQueue by (auto simp: queued_up_def queueInLoop_def wakeup_def Let_def split: if_splits)
qed (auto simp: timer_calls result_iffs dest!: addTimer_more cancelInLoop_more dest: more_queued_up)

lemma exec_ucalls_queued:
  "rfold exec_ucall cs s = Inr s' \<Longrightarrow> queued_up (queues_of cs) s s' \<and> trace s' = trace s"
proof (induction cs arbitrary: s)
  case (Cons c cs)
  then obtain s1 where s1: "exec_ucall c s = Inr s1" "rfold exec_ucall cs s1 = Inr s'"
    by (auto simp: rbind_Inr_iff)
  have "queues_of (c # cs) = queues_of [c] @ queues_of cs" by (cases c) simp_all
  then show ?case
    using exec_ucall_queued [OF s1(1)] Cons.IH [OF s1(2)] by (auto intro: queued_up_trans)
qed simp

lemma run_user_queued:
  assumes "run_user calls u s = Inr s'"
  shows "queued_up (queues_of (calls u)) s s' \<and> trace s' = trace s @ [u]"
  using exec_ucalls_queued [of "calls u" "s\<lparr>trace := trace s @ [u]\<rparr>" s'] assms
  by (simp add: run_user_def queued_up_def)

lemma exec_functors_queued:
  "rfold (exec_functor env) fs s = Inr s' \<Longrightarrow>
     queued_up (concat (map (\<lambda>u. queues_of (env_calls env u)) (users_of fs))) s s' \<and> trace s' = trace s @ users_of fs"
proof (induction fs arbitrary: s)
  case (Cons f fs)
  then obtain s1 where s1: "exec_functor env f s = Inr s1" "rfold (exec_functor env) fs s1 = Inr s'"
    by (auto simp: rbind_Inr_iff)
  show ?case
  proof (cases f)
    case (FUser u)
    then have "queued_up (queues_of (env_calls env u)) s s1 \<and> trace s1 = trace s @ [u]"
      using s1(1) by (simp add: run_user_queued)
    then show ?thesis using Cons.IH [OF s1(2)] FUser by (auto intro: queued_up_trans)
  qed (use s1 Cons.IH [OF s1(2)] more_queued_up [of s1 s] in
        \<open>auto dest!: addTimerInLoop_more cancelInLoop_more intro: queued_up_trans [where us = "[]", simplified]\<close>)
qed simp


section \<open>The constructor\<close>

lemma EventLoop_inv:
  assumes fds: "0 \<le> timefd" "0 \<le> wakeupFd" "timefd \<noteq> wakeupFd" "pt \<noteq> pw"
    and s: "EventLoop pollerType timefd wakeupFd pt pw = Inr s"
  shows "ev_inv s"
proof -
  have tq: "tq_inv {} s \<and> pending s = []"
    using s fds tq_inv_new
    by (auto simp: EventLoop_def loop_updateChannel_def rbind_Inr_iff Let_def tqueue.defs evloop.defs tq_inv_def)
  have "poller_ok (chan_heap s) (poller s)"
  proof (cases "pollerType = Some ''Poll''")
    case True
    then show ?thesis
      using s fds
      by (auto simp: EventLoop_def NewDefaultPoller_def loop_updateChannel_def SetReadCallback_def run_pollers
          tqueue.defs evloop.defs poll_ok_def slot_ok_def valid_events_def mask_eq_exp_minus_1 less_Suc_eq
          nth_Cons' split: if_splits)
  next
    case False
    then show ?thesis
      using s fds
      by (auto simp: EventLoop_def NewDefaultPoller_def loop_updateChannel_def SetReadCallback_def run_pollers
          tqueue.defs evloop.defs epoll_ok_def ctl_replay_def channel_registered_def split: if_splits)
  qed
  with tq show ?thesis by (simp add: ev_inv_def)
qed

section \<open>Properties\<close>

definition new_loop :: "nat evloop" where
  "new_loop = projr (EventLoop None 3 4 1 2)"


definition quiet_env :: "(events \<times> nat) list \<Rightarrow> timestamp \<Rightarrow> nat env" where
  "quiet_env evs t = \<lparr>env_events = evs, env_numEvents = 0, env_revents = [], env_now = t, env_clk = t,
     env_fclk = (\<lambda>_. t), env_calls = (\<lambda>_. [])\<rparr>"

lemmas run_loop =
  new_loop_def EventLoop_def NewDefaultPoller_def loop_updateChannel_def SetReadCallback_def run_pollers
  tqueue.defs evloop.defs tqueue_new_def quiet_env_def loop_body_def handle_active_def HandleEvent_def
  call_if_def set_handling_def SetReceiveEvent_def handlePendingFunctors_def epoll_poll_def run_user_def
  other_addTimer_def new_timer_def Timer_def queueInLoop_def wakeup_def addTimerInLoop_def tq_insert_def
  resetTimerFd_def UINTPTR_MAX_def dbl_positive_def


text \<open>\<open>HandleEvent\<close> on a channel of the loop runs exactly the callbacks its received events call
  for, once each and in the order close, read, write, although it reads the events again after every
  callback. Errors alone (\<open>POLLERR\<close>, \<open>POLLNVAL\<close>) call for none.\<close>

theorem handle_event_dispatch:
  assumes "chan_heap s p = Some c"
  shows "handle_active env p s =
      rbind (rfold (exec_handler env) (due_callbacks c) (chan_heap_update (set_handling p True) s))
        (\<lambda>s'. Inr (chan_heap_update (set_handling p False) s')) \<and>
    due_callbacks (c\<lparr>rEvents := POLLERR OR POLLNVAL\<rparr>) = []"
  using ch.HandleEvent_eq [OF assms]
  by (simp add: handle_active_def due_callbacks_def close_due_def read_due_def write_due_def poll_bits)

theorem handle_event_dispatch_witness:
  "\<exists>c. chan_heap new_loop 2 = Some c \<and>
     handle_active (quiet_env [] 0) 2 new_loop =
       rbind (rfold (exec_handler (quiet_env [] 0)) (due_callbacks c) (chan_heap_update (set_handling 2 True) new_loop))
         (\<lambda>s'. Inr (chan_heap_update (set_handling 2 False) s'))"
proof -
  obtain c where c: "chan_heap new_loop 2 = Some c"
    by (simp add: run_loop)
  then show ?thesis using handle_event_dispatch [OF c, of "quiet_env [] 0"] by blast
qed

text \<open>\<open>handlePendingFunctors\<close> runs the functors that were pending when it started, each once and in
  the order queued. What they queue stays pending for the next turn, and the loop
  has been woken for it.\<close>

theorem handlePendingFunctors_order:
  assumes "handlePendingFunctors env s = Inr s'"
  shows "trace s' = trace s @ users_of (pending s) \<and>
    pending s' = map FUser (concat (map (\<lambda>u. queues_of (env_calls env u)) (users_of (pending s)))) \<and>
    (pending s' = [] \<or> 0 < wakeups s') \<and> \<not> callingPending s'"
proof -
  let ?us = "concat (map (\<lambda>u. queues_of (env_calls env u)) (users_of (pending s)))"
  obtain r where r: "rfold (exec_functor env) (pending s) (s\<lparr>callingPending := True, pending := []\<rparr>) = Inr r"
    "s' = r\<lparr>callingPending := False\<rparr>"
    using assms by (auto simp: handlePendingFunctors_def rbind_Inr_iff)
  show ?thesis
    using exec_functors_queued [OF r(1)] r(2) by (cases "?us = []") (auto simp: queued_up_def)
qed

theorem handlePendingFunctors_order_witness:
  "\<exists>s s'. handlePendingFunctors ((quiet_env [] 0)\<lparr>env_calls := (\<lambda>u. if u = 7 then [CQueue 8] else [])\<rparr>)
       (new_loop\<lparr>pending := [FUser 7, FUser 9]\<rparr>) = Inr s' \<and> trace s' = [7, 9] \<and> pending s' = [FUser 8]"
proof -
  let ?env = "(quiet_env [] 0)\<lparr>env_calls := (\<lambda>u. if u = 7 then [CQueue 8] else [])\<rparr>"
  have "\<exists>s'. handlePendingFunctors ?env (new_loop\<lparr>pending := [FUser 7, FUser 9]\<rparr>) = Inr s'"
    by (simp add: run_loop)
  then obtain s' where s': "handlePendingFunctors ?env (new_loop\<lparr>pending := [FUser 7, FUser 9]\<rparr>) = Inr s'"
    by blast
  have "trace new_loop = []" by (simp add: run_loop)
  then show ?thesis
    using handlePendingFunctors_order [OF s'] s' by (auto simp: quiet_env_def)
qed


end
