(* ===== verification/Tcp_Connection.thy ===== *)
theory Tcp_Connection
  imports Net_Buffer Channel Timestamp "HOL-Library.Sublist"
begin

text \<open>
  \<open>net/TcpConnection.h\<close> and \<open>net/TcpConnection.cpp\<close>: one connection in its loop's thread.
  What it asks of the rest (updates of its channel at the poller, functors it queues,
  callbacks it calls, the shutdown of its socket) is recorded in order in
  \<open>effects\<close>; \<open>wire\<close> records the bytes the kernel took, \<open>handed\<close> those user code handed to
  \<open>send\<close> while connected. The answers of \<open>read\<close> and \<open>write\<close> are
  arguments. \<open>send\<close> takes a pointer into a memory, as the source does. User callbacks
  are a parameter; the locale \<open>conn_user\<close> states what they may do, and callbacks that send,
  shut down, force a close or read the input buffer meet it.
\<close>

section \<open>State\<close>

datatype StateE = KConnecting | KConnected | KDisconnecting | KDisconnected

datatype conn_cb = HandleRead | HandleWirte | HandleClose

text \<open>Functors queued to the loop: \<open>writeCompleteCallback_\<close>, \<open>highWaterMarkCallback_\<close> with
  its argument, \<open>forceCloseInLoop\<close>, \<open>sendInLoop\<close> with its pointer and length,
  \<open>shutdownInLoop\<close>.\<close>

datatype conn_functor =
    FWriteComplete | FHighWater nat | FForceCloseInLoop | FSendInLoop int nat | FShutdownInLoop

datatype user_cb = OnConnection | OnMessage | OnClose

datatype conn_effect =
    EChannel interest_op | ERemove | EQueue conn_functor | ERunAfter dbl | ECall user_cb | EShutdownWrite

record conn =
  state :: StateE
  channel :: "conn_cb channel"
  inputBuffer :: buffer
  outputBuffer :: buffer
  writeCompleteCallback :: bool
  highWaterMarkCallback :: bool
  highWaterMark :: nat
  effects :: "conn_effect list"
  wire :: "byte list"
  handed :: "byte list"

text \<open>The constructor does not set \<open>highWaterMark_\<close>: \<open>hw\<close> stands for its value.\<close>

definition TcpConnection :: "int \<Rightarrow> nat \<Rightarrow> conn" where
  "TcpConnection sockfd hw =
     \<lparr>state = KConnecting,
      channel = SetCloseCallback HandleClose (SetWirteCallback HandleWirte (SetReadCallback HandleRead (Channel 0 sockfd))),
      inputBuffer = buffer_new KInitSize, outputBuffer = buffer_new KInitSize,
      writeCompleteCallback = False, highWaterMarkCallback = False, highWaterMark = hw,
      effects = [], wire = [], handed = []\<rparr>"

definition setWriteCompleteCallback :: "conn \<Rightarrow> conn" where
  "setWriteCompleteCallback s = s\<lparr>writeCompleteCallback := True\<rparr>"

definition setHighWaterMarkCallback :: "nat \<Rightarrow> conn \<Rightarrow> conn" where
  "setHighWaterMarkCallback hw s = s\<lparr>highWaterMarkCallback := True, highWaterMark := hw\<rparr>"

definition stateToString :: "StateE \<Rightarrow> string" where
  "stateToString st = (case st of
     KDisconnected \<Rightarrow> ''kDisconnected'' | KConnecting \<Rightarrow> ''kConnecting''
   | KConnected \<Rightarrow> ''kConnected'' | KDisconnecting \<Rightarrow> ''kDisconnecting'')"

definition isConnected :: "conn \<Rightarrow> bool" where
  "isConnected s \<longleftrightarrow> state s = KConnected"

definition isDisconnected :: "conn \<Rightarrow> bool" where
  "isDisconnected s \<longleftrightarrow> state s = KDisconnected"

section \<open>Surroundings\<close>

definition emit :: "conn_effect \<Rightarrow> conn \<Rightarrow> conn" where
  "emit e s = s\<lparr>effects := effects s @ [e]\<rparr>"

definition upd_channel :: "interest_op \<Rightarrow> conn \<Rightarrow> conn" where
  "upd_channel x s = emit (EChannel x) (s\<lparr>channel := set_interest x (channel s)\<rparr>)"

text \<open>Memory and the system calls. An answer of \<open>write\<close> is a count or an \<open>errno\<close>.\<close>

type_synonym memory = "int \<Rightarrow> byte option"

fun read_mem :: "memory \<Rightarrow> int \<Rightarrow> nat \<Rightarrow> byte list result" where
  "read_mem mem a 0 = Inr []"
| "read_mem mem a (Suc n) =
     (case mem a of None \<Rightarrow> Inl Undefined | Some b \<Rightarrow> rbind (read_mem mem (a + 1) n) (\<lambda>bs. Inr (b # bs)))"

datatype syswrite = Wrote nat | WriteErr int

definition EWOULDBLOCK :: int where "EWOULDBLOCK = 11"
definition EPIPE :: int where "EPIPE = 32"
definition ECONNRESET :: int where "ECONNRESET = 104"

fun errno :: "syswrite \<Rightarrow> int" where
  "errno (Wrote n) = 0"
| "errno (WriteErr e) = e"

fun sys_write :: "byte list \<Rightarrow> syswrite \<Rightarrow> conn \<Rightarrow> (int \<times> conn) result" where
  "sys_write bytes (Wrote n) s =
     (if length bytes < n then Inl Undefined else Inr (int n, s\<lparr>wire := wire s @ take n bytes\<rparr>))"
| "sys_write bytes (WriteErr e) s = Inr (- 1, s)"

type_synonym callbacks = "user_cb \<Rightarrow> conn \<Rightarrow> conn result"

definition call :: "callbacks \<Rightarrow> user_cb \<Rightarrow> conn \<Rightarrow> conn result" where
  "call cbs c s = cbs c (emit (ECall c) s)"

section \<open>Operations\<close>

definition ConnectEstablished :: "bool \<Rightarrow> callbacks \<Rightarrow> conn \<Rightarrow> conn result" where
  "ConnectEstablished inLoop cbs s =
     assertInLoopThread inLoop
       (cassert (state s = KConnecting)
         (call cbs OnConnection (upd_channel EnableReadEvent (s\<lparr>state := KConnected\<rparr>))))"

definition ConnectDestoryed :: "bool \<Rightarrow> callbacks \<Rightarrow> conn \<Rightarrow> conn result" where
  "ConnectDestoryed inLoop cbs s =
     assertInLoopThread inLoop
       (rbind (if state s = KConnected
               then call cbs OnConnection (upd_channel DisableAllEvent (s\<lparr>state := KDisconnected\<rparr>))
               else Inr s)
         (\<lambda>s'. Inr (emit ERemove s')))"

definition shutdownInLoop :: "bool \<Rightarrow> conn \<Rightarrow> conn result" where
  "shutdownInLoop inLoop s =
     assertInLoopThread inLoop
       (Inr (if \<not> IsEnableWriteEvent (channel s) then emit EShutdownWrite s else s))"

definition shutdown :: "bool \<Rightarrow> conn \<Rightarrow> conn result" where
  "shutdown inLoop s =
     (if state s = KConnected
      then let s' = s\<lparr>state := KDisconnecting\<rparr>
           in if inLoop then shutdownInLoop True s' else Inr (emit (EQueue FShutdownInLoop) s')
      else Inr s)"

definition forceClose :: "conn \<Rightarrow> conn" where
  "forceClose s =
     (if state s = KConnected \<or> state s = KDisconnecting
      then emit (EQueue FForceCloseInLoop) (s\<lparr>state := KDisconnecting\<rparr>) else s)"

definition forceCloseWithDelay :: "dbl \<Rightarrow> conn \<Rightarrow> conn" where
  "forceCloseWithDelay seconds s =
     (if state s = KConnected \<or> state s = KDisconnecting
      then emit (ERunAfter seconds) (s\<lparr>state := KDisconnecting\<rparr>) else s)"

definition handleClose :: "bool \<Rightarrow> callbacks \<Rightarrow> conn \<Rightarrow> conn result" where
  "handleClose inLoop cbs s =
     assertInLoopThread inLoop
       (cassert (state s = KConnected \<or> state s = KDisconnecting)
         (rbind (call cbs OnConnection (upd_channel DisableAllEvent (s\<lparr>state := KDisconnected\<rparr>)))
           (call cbs OnClose)))"

definition forceCloseInLoop :: "bool \<Rightarrow> callbacks \<Rightarrow> conn \<Rightarrow> conn result" where
  "forceCloseInLoop inLoop cbs s =
     assertInLoopThread inLoop
       (if state s = KConnected \<or> state s = KDisconnecting then handleClose inLoop cbs s else Inr s)"

text \<open>\<open>size_t n = inputBuffer_.readFd(...)\<close> makes the -1 of a failed read a large number.\<close>

definition handleRead :: "bool \<Rightarrow> callbacks \<Rightarrow> sysread \<Rightarrow> conn \<Rightarrow> conn result" where
  "handleRead inLoop cbs rv s =
     rbind (readFd rv (inputBuffer s)) (\<lambda>(r, ib).
       let s' = s\<lparr>inputBuffer := ib\<rparr>; n = nat (r mod 2 ^ 64)
       in if 0 < n then call cbs OnMessage s'
          else if n = 0 then handleClose inLoop cbs s'
          else Inr s')"

definition handleWirte :: "bool \<Rightarrow> syswrite \<Rightarrow> conn \<Rightarrow> conn result" where
  "handleWirte inLoop w s =
     assertInLoopThread inLoop
       (if IsEnableWriteEvent (channel s)
        then rbind (sys_write (peek (readableBytes (outputBuffer s)) (outputBuffer s)) w s) (\<lambda>(n, s1).
               if 0 < n
               then rbind (retrieve (nat n) (outputBuffer s1)) (\<lambda>ob.
                      let s2 = s1\<lparr>outputBuffer := ob\<rparr>
                      in if readableBytes ob = 0
                         then let s3 = upd_channel DisableWriteEvent s2;
                                  s4 = (if writeCompleteCallback s3 then emit (EQueue FWriteComplete) s3 else s3)
                              in if state s4 = KDisconnecting then shutdownInLoop inLoop s4 else Inr s4
                         else Inr s2)
               else Inr s1)
        else Inr s)"

text \<open>The direct write at the start of \<open>sendInLoop\<close>: \<open>nWrote\<close>, \<open>remaining\<close>, \<open>errorOccurs\<close>.\<close>

definition send_direct ::
    "memory \<Rightarrow> int \<Rightarrow> nat \<Rightarrow> syswrite \<Rightarrow> conn \<Rightarrow> (int \<times> nat \<times> bool \<times> conn) result" where
  "send_direct mem data len w s =
     rbind (read_mem mem data len) (\<lambda>bytes. rbind (sys_write bytes w s) (\<lambda>(nWrote, s1).
       if nWrote \<ge> 0
       then let remaining = size_sub len (nat nWrote)
            in Inr (nWrote, remaining, False,
                 if remaining = 0 \<and> writeCompleteCallback s1 then emit (EQueue FWriteComplete) s1 else s1)
       else Inr (nWrote, len, errno w \<noteq> EWOULDBLOCK \<and> (errno w = EPIPE \<or> errno w = ECONNRESET), s1)))"

text \<open>The rest: the high-water mark, and the bytes that go to \<open>outputBuffer_\<close>.\<close>

definition check_highWaterMark :: "nat \<Rightarrow> conn \<Rightarrow> conn" where
  "check_highWaterMark remaining s =
     (let oldLen = readableBytes (outputBuffer s)
      in if highWaterMark s \<le> size_add oldLen remaining \<and> oldLen < highWaterMark s \<and> highWaterMarkCallback s
         then emit (EQueue (FHighWater (size_add oldLen remaining))) s else s)"

definition send_rest :: "memory \<Rightarrow> int \<Rightarrow> int \<Rightarrow> nat \<Rightarrow> conn \<Rightarrow> conn result" where
  "send_rest mem data nWrote remaining s =
     (let s1 = check_highWaterMark remaining s
      in rbind (read_mem mem (data + nWrote) remaining) (\<lambda>bytes.
           rbind (append bytes (outputBuffer s1)) (\<lambda>ob.
             let s2 = s1\<lparr>outputBuffer := ob\<rparr>
             in Inr (if \<not> IsEnableWriteEvent (channel s2) then upd_channel EnableWriteEvent s2 else s2))))"

definition sendInLoop :: "bool \<Rightarrow> memory \<Rightarrow> int \<Rightarrow> nat \<Rightarrow> syswrite \<Rightarrow> conn \<Rightarrow> conn result" where
  "sendInLoop inLoop mem data len w s =
     assertInLoopThread inLoop
       (if state s = KDisconnected then Inr s
        else
          (let canWriteDirect = \<not> IsEnableWriteEvent (channel s)
           in rbind (if canWriteDirect \<and> readableBytes (outputBuffer s) = 0
                     then send_direct mem data len w s else Inr (0, len, False, s))
                (\<lambda>(nWrote, remaining, errorOccurs, s1).
                   cassert (remaining \<le> len)
                     (if \<not> errorOccurs \<and> 0 < remaining then send_rest mem data nWrote remaining s1
                      else Inr s1))))"

definition send :: "bool \<Rightarrow> memory \<Rightarrow> int \<Rightarrow> nat \<Rightarrow> syswrite \<Rightarrow> conn \<Rightarrow> conn result" where
  "send inLoop mem data len w s =
     (if state s = KConnected
      then if inLoop then sendInLoop True mem data len w s
           else Inr (emit (EQueue (FSendInLoop data len)) s)
      else Inr s)"

text \<open>\<open>~TcpConnection\<close>.\<close>

definition conn_delete :: "conn \<Rightarrow> unit result" where
  "conn_delete s = cassert (state s = KDisconnected) (Inr ())"

text \<open>\<open>handed\<close> grows by the bytes of a \<open>sendInLoop\<close> that the connection takes: it is not disconnected,
  and its direct write did not fail.\<close>

definition writes_direct :: "conn \<Rightarrow> bool" where
  "writes_direct s \<longleftrightarrow> \<not> IsEnableWriteEvent (channel s) \<and> readableBytes (outputBuffer s) = 0"

definition log_handed :: "memory \<Rightarrow> int \<Rightarrow> nat \<Rightarrow> syswrite \<Rightarrow> conn \<Rightarrow> conn \<Rightarrow> conn" where
  "log_handed mem data len w s s' =
     (if state s \<noteq> KDisconnected \<and> \<not> (writes_direct s \<and> errno w \<noteq> 0)
      then s'\<lparr>handed := handed s' @ projr (read_mem mem data len)\<rparr> else s')"

definition logged_sendInLoop :: "memory \<Rightarrow> int \<Rightarrow> nat \<Rightarrow> syswrite \<Rightarrow> conn \<Rightarrow> conn result" where
  "logged_sendInLoop mem data len w s =
     rbind (sendInLoop True mem data len w s) (\<lambda>s'. Inr (log_handed mem data len w s s'))"

text \<open>The answer of a \<open>write\<close> of \<open>n\<close> bytes to a socket with room for \<open>k\<close>.\<close>

fun at_most :: "nat \<Rightarrow> syswrite \<Rightarrow> syswrite" where
  "at_most n (Wrote k) = Wrote (min k n)"
| "at_most n (WriteErr e) = WriteErr e"

text \<open>Running a queued functor, and the channel's callbacks. \<open>mem\<close> is the memory when it runs;
  the write-complete and high-water callbacks of the user do not touch the connection here, as the
  default ones of \<open>net/Callback.cpp\<close> do not.\<close>

fun exec_conn_functor :: "callbacks \<Rightarrow> memory \<Rightarrow> syswrite \<Rightarrow> conn_functor \<Rightarrow> conn \<Rightarrow> conn result" where
  "exec_conn_functor cbs mem w FForceCloseInLoop s = forceCloseInLoop True cbs s"
| "exec_conn_functor cbs mem w (FSendInLoop data len) s = logged_sendInLoop mem data len w s"
| "exec_conn_functor cbs mem w FShutdownInLoop s = shutdownInLoop True s"
| "exec_conn_functor cbs mem w FWriteComplete s = Inr s"
| "exec_conn_functor cbs mem w (FHighWater n) s = Inr s"

fun exec_conn_cb :: "callbacks \<Rightarrow> sysread \<Rightarrow> syswrite \<Rightarrow> conn_cb \<Rightarrow> conn \<Rightarrow> conn result" where
  "exec_conn_cb cbs rv w HandleRead s = handleRead True cbs rv s"
| "exec_conn_cb cbs rv w HandleWirte s = handleWirte True (at_most (readableBytes (outputBuffer s)) w) s"
| "exec_conn_cb cbs rv w HandleClose s = handleClose True cbs s"

text \<open>\<open>HandleEvent\<close> on the connection's own channel, which is address 0 of a heap of one.\<close>

definition conn_get :: "conn \<Rightarrow> nat \<rightharpoonup> conn_cb channel" where
  "conn_get s = [0 \<mapsto> channel s]"

definition conn_upd :: "((nat \<rightharpoonup> conn_cb channel) \<Rightarrow> (nat \<rightharpoonup> conn_cb channel)) \<Rightarrow> conn \<Rightarrow> conn" where
  "conn_upd f s = (case f (conn_get s) 0 of None \<Rightarrow> s | Some c \<Rightarrow> s\<lparr>channel := c\<rparr>)"

definition conn_HandleEvent :: "callbacks \<Rightarrow> sysread \<Rightarrow> syswrite \<Rightarrow> conn \<Rightarrow> conn result" where
  "conn_HandleEvent cbs rv w s = HandleEvent conn_get conn_upd (exec_conn_cb cbs rv w) 0 s"

section \<open>User code\<close>

text \<open>What a user's connection or message callback does with the connection. \<open>UEcho\<close> is
  \<open>defaultMessageCallback\<close>; its \<open>std::string\<close> is a memory of its own.\<close>

datatype conn_ucall =
    USend int nat syswrite
  | UShutdown
  | UForceClose
  | UForceCloseWithDelay dbl
  | URetrieve nat
  | UEcho syswrite

definition string_mem :: "byte list \<Rightarrow> memory" where
  "string_mem str a = (if 0 \<le> a \<and> a < int (length str) then Some (str ! nat a) else None)"

definition logged_send :: "memory \<Rightarrow> int \<Rightarrow> nat \<Rightarrow> syswrite \<Rightarrow> conn \<Rightarrow> conn result" where
  "logged_send mem data len w s =
     rbind (send True mem data len w s) (\<lambda>s'.
       Inr (if state s = KConnected then log_handed mem data len w s s' else s'))"

definition defaultMessageCallback :: "syswrite \<Rightarrow> conn \<Rightarrow> conn result" where
  "defaultMessageCallback w s =
     rbind (retrieveAllAsString (inputBuffer s)) (\<lambda>(str, ib).
       logged_send (string_mem str) 0 (length str) (at_most (length str) w) (s\<lparr>inputBuffer := ib\<rparr>))"

fun exec_conn_ucall :: "memory \<Rightarrow> conn_ucall \<Rightarrow> conn \<Rightarrow> conn result" where
  "exec_conn_ucall mem (USend data len w) s = logged_send mem data len w s"
| "exec_conn_ucall mem UShutdown s = shutdown True s"
| "exec_conn_ucall mem UForceClose s = Inr (forceClose s)"
| "exec_conn_ucall mem (UForceCloseWithDelay d) s = Inr (forceCloseWithDelay d s)"
| "exec_conn_ucall mem (URetrieve n) s =
     rbind (retrieve (min n (readableBytes (inputBuffer s))) (inputBuffer s)) (\<lambda>ib. Inr (s\<lparr>inputBuffer := ib\<rparr>))"
| "exec_conn_ucall mem (UEcho w) s = defaultMessageCallback w s"

text \<open>A user program: the memory it sends from, and the calls of its connection and message
  callbacks. The close callback is the server's or the client's own.\<close>

type_synonym user_prog = "memory \<times> (user_cb \<Rightarrow> conn_ucall list)"

definition user_callbacks :: "user_prog \<Rightarrow> callbacks" where
  "user_callbacks u c s = rfold (exec_conn_ucall (fst u)) (if c = OnClose then [] else snd u c) s"

section \<open>The invariant\<close>

text \<open>The channel operations in a list of effects, run on whether the poller knows the channel and on
  its event mask; \<open>None\<close> if a poller would reject one.\<close>

fun chan_run :: "conn_effect list \<Rightarrow> bool \<times> events \<Rightarrow> (bool \<times> events) option" where
  "chan_run [] r = Some r"
| "chan_run (EChannel x # es) r =
     (if fst r \<or> change_events x (snd r) \<noteq> 0 then chan_run es (True, change_events x (snd r)) else None)"
| "chan_run (ERemove # es) r = (if fst r \<and> snd r = 0 then chan_run es (False, snd r) else None)"
| "chan_run (_ # es) r = chan_run es r"

lemma chan_run_append: "chan_run (xs @ ys) r = Option.bind (chan_run xs r) (chan_run ys)"
  by (induction xs r rule: chan_run.induct) auto

text \<open>While a connection is up, writing is enabled exactly when bytes wait in \<open>outputBuffer_\<close>; its write
  side is only shut down (\<open>sh\<close>) when none wait and none can come.\<close>

definition out_ok :: "StateE \<Rightarrow> events \<Rightarrow> byte list \<Rightarrow> bool \<Rightarrow> bool" where
  "out_ok st ev out sh \<longleftrightarrow>
     (case st of
        KConnecting \<Rightarrow> ev = 0 \<and> out = [] \<and> \<not> sh
      | KConnected \<Rightarrow> (ev AND KWriteEvent \<noteq> 0 \<longleftrightarrow> out \<noteq> []) \<and> \<not> sh
      | KDisconnecting \<Rightarrow> (ev AND KWriteEvent \<noteq> 0 \<longleftrightarrow> out \<noteq> []) \<and> (sh \<longrightarrow> out = [])
      | KDisconnected \<Rightarrow> ev = 0)"

definition wired :: "conn_cb channel \<Rightarrow> bool" where
  "wired c \<longleftrightarrow> readCallback c = Some HandleRead \<and> writeCallback c = Some HandleWirte \<and>
     closeCallback c = Some HandleClose"

definition conn_inv :: "conn \<Rightarrow> bool" where
  "conn_inv s \<longleftrightarrow>
     wf_buffer (inputBuffer s) \<and> wf_buffer (outputBuffer s) \<and> wired (channel s) \<and>
     chan_run (effects s) (False, 0) = Some (state s \<noteq> KConnecting, events (channel s)) \<and>
     out_ok (state s) (events (channel s)) (content (outputBuffer s)) (EShutdownWrite \<in> set (effects s)) \<and>
     (EQueue FShutdownInLoop \<in> set (effects s) \<longrightarrow> state s = KDisconnecting \<or> state s = KDisconnected)"

lemma conn_inv_new: "conn_inv (TcpConnection sockfd hw)"
  by (simp add: conn_inv_def TcpConnection_def wf_buffer_new KInitSize_def vec_max_size_def out_ok_def wired_def
      SetReadCallback_def SetWirteCallback_def SetCloseCallback_def Channel_def KNoneEvent_def)

lemma conn_inv_ghosts [simp]:
  "conn_inv (s\<lparr>handed := h\<rparr>) = conn_inv s" "conn_inv (s\<lparr>wire := w\<rparr>) = conn_inv s"
  by (simp_all add: conn_inv_def)

abbreviation up :: "StateE \<Rightarrow> bool" where
  "up st \<equiv> st = KConnected \<or> st = KDisconnecting"

definition quiet :: "conn_effect \<Rightarrow> bool" where
  "quiet e \<longleftrightarrow> (case e of EChannel x \<Rightarrow> False | ERemove \<Rightarrow> False | EShutdownWrite \<Rightarrow> False
     | EQueue f \<Rightarrow> f \<noteq> FShutdownInLoop | _ \<Rightarrow> True)"

lemma quiet_simps [simp]: "quiet (EQueue f) \<longleftrightarrow> f \<noteq> FShutdownInLoop" "quiet (ERunAfter d)" "quiet (ECall c)"
  by (simp_all add: quiet_def)

lemma chan_run_quiet: "quiet e \<Longrightarrow> chan_run (es @ [e]) r = chan_run es r"
  by (cases "chan_run es r"; cases e) (simp_all add: chan_run_append quiet_def)

lemma conn_inv_emit: "conn_inv s \<Longrightarrow> quiet e \<Longrightarrow> conn_inv (emit e s)"
  by (cases "e = EShutdownWrite"; cases "e = EQueue FShutdownInLoop")
    (auto simp: conn_inv_def emit_def chan_run_quiet quiet_def)

lemma write_event_masks [simp]:
  "(e OR KReadEvent) AND KWriteEvent = e AND KWriteEvent" "(e OR KWriteEvent) AND KWriteEvent \<noteq> 0"
  "(e AND NOT KWriteEvent) AND KWriteEvent = 0" "KReadEvent AND KWriteEvent = 0" "KReadEvent \<noteq> 0" "KWriteEvent \<noteq> 0"
  by (simp_all add: event_masks bit.conj_disj_distrib2 and.assoc)

definition rank :: "StateE \<Rightarrow> nat" where
  "rank st = (case st of KConnecting \<Rightarrow> 0 | KConnected \<Rightarrow> 1 | KDisconnecting \<Rightarrow> 2 | KDisconnected \<Rightarrow> 3)"

text \<open>One update of the channel, with the new state and the new bytes waiting.\<close>

lemma conn_inv_upd:
  assumes "conn_inv s" and "state s \<noteq> KConnecting \<or> x = EnableReadEvent"
    and "wf_buffer ob" "out_ok st (change_events x (events (channel s))) (content ob) (EShutdownWrite \<in> set (effects s))"
    and "st \<noteq> KConnecting" and mono: "rank (state s) \<le> rank st"
  shows "conn_inv (upd_channel x (s\<lparr>state := st, outputBuffer := ob\<rparr>))"
proof -
  have "state s \<noteq> KConnecting \<or> change_events x (events (channel s)) \<noteq> 0"
    using assms(1,2) by (auto simp: conn_inv_def out_ok_def)
  moreover have "state s = KDisconnecting \<or> state s = KDisconnected \<Longrightarrow> st = KDisconnecting \<or> st = KDisconnected"
    using mono by (cases st) (auto simp: rank_def)
  ultimately show ?thesis
    using assms(1-5) by (auto simp: conn_inv_def upd_channel_def emit_def set_interest_def wired_def chan_run_append)
qed

text \<open>What one operation does: it overflows a vector, or it keeps the invariant and the stream (all
  bytes taken are on the wire or wait, in order), and moves the state forward.\<close>

definition conn_ok :: "conn \<Rightarrow> bool" where
  "conn_ok s \<longleftrightarrow> conn_inv s \<and> handed s = wire s @ content (outputBuffer s)"

definition conn_le :: "conn \<Rightarrow> conn \<Rightarrow> bool" where
  "conn_le s s' \<longleftrightarrow> rank (state s) \<le> rank (state s') \<and> same_dispatch (channel s) (channel s') \<and>
     prefix (wire s) (wire s') \<and> prefix (handed s) (handed s') \<and> prefix (effects s) (effects s')"

definition conn_post :: "conn \<Rightarrow> conn result \<Rightarrow> bool" where
  "conn_post s m \<longleftrightarrow> (case m of Inl e \<Rightarrow> e = LengthError | Inr s' \<Rightarrow> conn_ok s' \<and> conn_le s s')"

lemma conn_le_refl [simp]: "conn_le s s"
  by (simp add: conn_le_def)

lemma conn_le_trans: "conn_le a b \<Longrightarrow> conn_le b c \<Longrightarrow> conn_le a c"
  unfolding conn_le_def by (metis order.trans same_dispatch_trans prefix_order.trans)

lemma conn_post_simps [simp]:
  "conn_post s (Inr s') \<longleftrightarrow> conn_ok s' \<and> conn_le s s'" "conn_post s (Inl e) \<longleftrightarrow> e = LengthError"
  by (simp_all add: conn_post_def)

lemma conn_post_bind:
  assumes "conn_post s m" and "\<And>s'. m = Inr s' \<Longrightarrow> conn_ok s' \<Longrightarrow> conn_le s s' \<Longrightarrow> conn_post s' (f s')"
  shows "conn_post s (rbind m f)"
proof (cases m)
  case (Inr s')
  then have "conn_post s' (f s')" and "conn_le s s'" using assms by auto
  then show ?thesis using Inr by (cases "f s'") (auto intro: conn_le_trans)
qed (use assms in simp)

lemma conn_post_trans: "conn_le s s1 \<Longrightarrow> conn_post s1 m \<Longrightarrow> conn_post s m"
  by (cases m) (auto intro: conn_le_trans)

lemma conn_le_started: "conn_le s s' \<Longrightarrow> state s \<noteq> KConnecting \<Longrightarrow> state s' \<noteq> KConnecting"
  by (auto simp: conn_le_def rank_def split: StateE.splits)

lemma rfold_conn_post:
  assumes "\<And>x s. x \<in> set xs \<Longrightarrow> conn_ok s \<Longrightarrow> state s \<noteq> KConnecting \<Longrightarrow> conn_post s (f x s)"
    and "conn_ok s" "state s \<noteq> KConnecting"
  shows "conn_post s (rfold f xs s)"
  using assms
proof (induction xs arbitrary: s)
  case (Cons x xs)
  show ?case unfolding rfold.simps
    by (rule conn_post_bind) (use Cons in \<open>auto dest: conn_le_started\<close>)
qed simp

lemma conn_ok_emit: "conn_ok s \<Longrightarrow> quiet e \<Longrightarrow> conn_ok (emit e s)"
  by (simp add: conn_ok_def conn_inv_emit) (simp add: emit_def)

lemma emit_simps [simp]:
  "state (emit e s) = state s" "channel (emit e s) = channel s" "inputBuffer (emit e s) = inputBuffer s"
  "outputBuffer (emit e s) = outputBuffer s" "wire (emit e s) = wire s" "handed (emit e s) = handed s"
  "effects (emit e s) = effects s @ [e]" "writeCompleteCallback (emit e s) = writeCompleteCallback s"
  by (simp_all add: emit_def)

lemma upd_channel_simps [simp]:
  "state (upd_channel x s) = state s" "channel (upd_channel x s) = set_interest x (channel s)"
  "inputBuffer (upd_channel x s) = inputBuffer s" "outputBuffer (upd_channel x s) = outputBuffer s"
  "wire (upd_channel x s) = wire s" "handed (upd_channel x s) = handed s"
  "effects (upd_channel x s) = effects s @ [EChannel x]"
  "writeCompleteCallback (upd_channel x s) = writeCompleteCallback s"
  by (simp_all add: upd_channel_def)

lemma same_dispatch_interest [simp]: "same_dispatch c (set_interest x c)"
  by (simp add: same_dispatch_def set_interest_def)

lemma conn_le_emit [simp]: "conn_le s (emit e s)"
  by (simp add: conn_le_def)

section \<open>Sending\<close>

lemma read_mem_length: "read_mem mem a n = Inr xs \<Longrightarrow> length xs = n"
  by (induction n arbitrary: a xs) (auto simp: rbind_Inr_iff split: option.splits)

lemma read_mem_drop:
  "read_mem mem a n = Inr xs \<Longrightarrow> k \<le> n \<Longrightarrow> read_mem mem (a + int k) (n - k) = Inr (drop k xs)"
proof (induction n arbitrary: a xs k)
  case (Suc n)
  then obtain b bs where b: "mem a = Some b" "read_mem mem (a + 1) n = Inr bs" "xs = b # bs"
    by (auto simp: rbind_Inr_iff split: option.splits)
  show ?case
  proof (cases k)
    case 0
    then show ?thesis using Suc.prems by simp
  next
    case (Suc j)
    then show ?thesis using Suc.IH [OF b(2), of j] Suc.prems(2) b(3) by (simp add: ac_simps)
  qed
qed simp

lemma conn_inv_facts:
  assumes "conn_inv s" "up (state s)"
  shows "wf_buffer (outputBuffer s)" "wf_buffer (inputBuffer s)" "wired (channel s)"
    "chan_run (effects s) (False, 0) = Some (True, events (channel s))"
    "events (channel s) AND KWriteEvent \<noteq> 0 \<longleftrightarrow> content (outputBuffer s) \<noteq> []"
    "EShutdownWrite \<in> set (effects s) \<Longrightarrow> content (outputBuffer s) = []"
  using assms by (auto simp: conn_inv_def out_ok_def split: StateE.splits)

text \<open>The tail of \<open>sendInLoop\<close>: the bytes join those waiting, and writing gets enabled.\<close>

lemma send_rest_spec:
  assumes inv: "conn_inv s" and up: "up (state s)"
    and mem: "read_mem mem (data + nWrote) remaining = Inr xs" and "xs \<noteq> []" "remaining \<le> vec_max_size"
    and no: "EShutdownWrite \<notin> set (effects s)"
  shows "case send_rest mem data nWrote remaining s of
      Inl e \<Rightarrow> e = LengthError
    | Inr s' \<Rightarrow> conn_inv s' \<and> state s' = state s \<and> wire s' = wire s \<and> inputBuffer s' = inputBuffer s \<and>
        content (outputBuffer s') = content (outputBuffer s) @ xs \<and> handed s' = handed s \<and>
        same_dispatch (channel s) (channel s') \<and> prefix (effects s) (effects s')"
proof -
  note facts = conn_inv_facts [OF inv up]
  let ?s1 = "check_highWaterMark remaining s"
  have s1: "state ?s1 = state s" "channel ?s1 = channel s" "outputBuffer ?s1 = outputBuffer s" "wire ?s1 = wire s"
    "inputBuffer ?s1 = inputBuffer s" "handed ?s1 = handed s" "conn_inv ?s1" "prefix (effects s) (effects ?s1)"
    "EShutdownWrite \<notin> set (effects ?s1)"
    using inv no by (simp_all add: check_highWaterMark_def Let_def conn_inv_emit)
  have len: "length xs \<le> vec_max_size" using read_mem_length [OF mem] assms(5) by simp
  show ?thesis
  proof (cases "append xs (outputBuffer s)")
    case (Inl e)
    then show ?thesis
      using append_spec [OF facts(1) len] mem s1(3) by (simp add: send_rest_def Let_def)
  next
    case (Inr ob)
    note ob = append_Inr [OF Inr facts(1) len]
    let ?s2 = "?s1\<lparr>outputBuffer := ob\<rparr>"
    have run: "send_rest mem data nWrote remaining s =
        Inr (if \<not> IsEnableWriteEvent (channel s) then upd_channel EnableWriteEvent ?s2 else ?s2)"
      using mem Inr s1(2,3) by (simp add: send_rest_def Let_def)
    have ne: "content ob \<noteq> []" using ob(2) \<open>xs \<noteq> []\<close> by simp
    have "conn_inv (upd_channel EnableWriteEvent (?s1\<lparr>state := state s, outputBuffer := ob\<rparr>))"
      by (rule conn_inv_upd) (use s1 up ob ne in \<open>auto simp: out_ok_def\<close>)
    moreover have "?s1\<lparr>state := state s, outputBuffer := ob\<rparr> = ?s2" using s1(1) by simp
    moreover have "conn_inv ?s2" if "IsEnableWriteEvent (channel s)"
      using s1 up ob ne that by (auto simp: conn_inv_def out_ok_def IsEnableWriteEvent_def)
    ultimately show ?thesis
      using s1 ob by (simp add: run)
  qed
qed

text \<open>What the kernel answers to a direct write of \<open>n\<close> bytes, \<open>EWOULDBLOCK\<close> and other errors that
  the code does not treat as a close aside (\<open>send_ewouldblock\<close> below). After the shutdown of
  the write side a write fails.\<close>

definition write_ok :: "nat \<Rightarrow> syswrite \<Rightarrow> bool" where
  "write_ok n w \<longleftrightarrow> (case w of Wrote k \<Rightarrow> k \<le> n | WriteErr e \<Rightarrow> e = EPIPE \<or> e = ECONNRESET)"

definition shut_write_fails :: "conn \<Rightarrow> syswrite \<Rightarrow> bool" where
  "shut_write_fails s w \<longleftrightarrow> (EShutdownWrite \<in> set (effects s) \<longrightarrow> errno w \<noteq> 0)"

lemma writes_direct_iff:
  "conn_inv s \<Longrightarrow> up (state s) \<Longrightarrow> writes_direct s \<longleftrightarrow> content (outputBuffer s) = []"
  using conn_inv_facts [of s] by (auto simp: writes_direct_def IsEnableWriteEvent_def)

text \<open>A direct write that the kernel takes in part.\<close>

lemma send_direct_spec:
  assumes ok: "conn_ok s" "up (state s)" and out: "content (outputBuffer s) = []"
    and mem: "read_mem mem data len = Inr bs" and n: "n \<le> len" "len \<le> vec_max_size"
    and no: "EShutdownWrite \<notin> set (effects s)"
  shows "conn_post s (rbind (send_direct mem data len (Wrote n) s) (\<lambda>(nWrote, remaining, errorOccurs, s1).
      cassert (remaining \<le> len)
        (rbind (if \<not> errorOccurs \<and> 0 < remaining then send_rest mem data nWrote remaining s1 else Inr s1)
          (\<lambda>s'. Inr (s'\<lparr>handed := handed s' @ bs\<rparr>)))))"
proof -
  note inv = conn_inv_facts [OF _ ok(2)]
  have ci: "conn_inv s" "handed s = wire s" using ok(1) out by (simp_all add: conn_ok_def)
  have len: "length bs = len" using read_mem_length [OF mem] .
  define s1 where "s1 = s\<lparr>wire := wire s @ take n bs\<rparr>"
  define s2 where "s2 = (if n = len \<and> writeCompleteCallback s1 then emit (EQueue FWriteComplete) s1 else s1)"
  have i1: "conn_inv s1" using ci(1) by (simp add: conn_inv_def s1_def)
  have i2: "conn_inv s2" "state s2 = state s" "channel s2 = channel s" "outputBuffer s2 = outputBuffer s"
    "wire s2 = wire s @ take n bs" "handed s2 = handed s" "prefix (effects s) (effects s2)"
    "EShutdownWrite \<notin> set (effects s2)"
    using i1 no by (auto simp: s2_def conn_inv_emit) (simp_all add: s1_def)
  have eq: "len - n = 0 \<longleftrightarrow> n = len" using n by auto
  have run: "send_direct mem data len (Wrote n) s = Inr (int n, len - n, False, s2)"
    using n len mem eq by (simp add: send_direct_def s2_def s1_def [symmetric] split del: if_split)
  show ?thesis
  proof (cases "n = len")
    case True
    then show ?thesis
      unfolding run using i2 ci out True len by (simp add: conn_ok_def conn_le_def)
  next
    case False
    then have rest: "0 < len - n" "drop n bs \<noteq> []" using n len by auto
    have m: "read_mem mem (data + int n) (len - n) = Inr (drop n bs)" by (rule read_mem_drop [OF mem n(1)])
    have pre: "len - n \<le> vec_max_size" using n by simp
    have up2: "up (state s2)" using ok(2) i2(2) by simp
    note spec = send_rest_spec [OF i2(1) up2 m rest(2) pre i2(8)]
    show ?thesis
    proof (cases "send_rest mem data (int n) (len - n) s2")
      case (Inl e)
      then show ?thesis unfolding run using spec rest by simp
    next
      case (Inr s')
      have s': "conn_inv s'" "state s' = state s" "wire s' = wire s @ take n bs"
        "content (outputBuffer s') = drop n bs" "handed s' = wire s"
        "same_dispatch (channel s) (channel s')" "prefix (effects s) (effects s')"
        using spec Inr i2 out ci by (auto intro: prefix_order.trans)
      then show ?thesis
        unfolding run using s' Inr rest ci by (simp add: conn_ok_def conn_le_def)
    qed
  qed
qed

lemma sendInLoop_eq:
  "state s \<noteq> KDisconnected \<Longrightarrow> sendInLoop True mem data len w s =
     rbind (if writes_direct s then send_direct mem data len w s else Inr (0, len, False, s))
       (\<lambda>(nWrote, remaining, errorOccurs, s1). cassert (remaining \<le> len)
         (if \<not> errorOccurs \<and> 0 < remaining then send_rest mem data nWrote remaining s1 else Inr s1))"
  by (simp add: sendInLoop_def writes_direct_def)

lemma logged_sendInLoop_post:
  assumes ok: "conn_ok s" "state s \<noteq> KConnecting" and mem: "read_mem mem data len = Inr bs"
    and len: "len \<le> vec_max_size" and w: "write_ok len w" "shut_write_fails s w"
  shows "conn_post s (logged_sendInLoop mem data len w s)"
proof (cases "state s = KDisconnected")
  case True
  then show ?thesis using ok by (simp add: logged_sendInLoop_def sendInLoop_def log_handed_def)
next
  case False
  then have up: "up (state s)" using ok(2) by (cases "state s") auto
  have ci: "conn_inv s" "handed s = wire s @ content (outputBuffer s)" using ok(1) by (auto simp: conn_ok_def)
  note inv = conn_inv_facts [OF ci(1) up]
  have length_bs: "length bs = len" using read_mem_length [OF mem] .
  show ?thesis
  proof (cases "writes_direct s")
    case True
    then have out: "content (outputBuffer s) = []" using writes_direct_iff [OF ci(1) up] by simp
    show ?thesis
    proof (cases w)
      case (Wrote n)
      have "EShutdownWrite \<notin> set (effects s)" using w(2) Wrote by (auto simp: shut_write_fails_def)
      moreover have "n \<le> len" using w(1) Wrote by (simp add: write_ok_def)
      ultimately have "conn_post s (rbind (send_direct mem data len (Wrote n) s) (\<lambda>(nWrote, remaining, errorOccurs, s1).
          cassert (remaining \<le> len)
            (rbind (if \<not> errorOccurs \<and> 0 < remaining then send_rest mem data nWrote remaining s1 else Inr s1)
              (\<lambda>s'. Inr (s'\<lparr>handed := handed s' @ bs\<rparr>)))))"
        using send_direct_spec [OF ok(1) up out mem] len by blast
      also have "rbind (send_direct mem data len (Wrote n) s) (\<lambda>(nWrote, remaining, errorOccurs, s1).
          cassert (remaining \<le> len)
            (rbind (if \<not> errorOccurs \<and> 0 < remaining then send_rest mem data nWrote remaining s1 else Inr s1)
              (\<lambda>s'. Inr (s'\<lparr>handed := handed s' @ bs\<rparr>)))) = logged_sendInLoop mem data len w s"
        using True False mem Wrote
        by (cases "send_direct mem data len w s")
          (auto simp: logged_sendInLoop_def sendInLoop_eq log_handed_def cassert_def)
      finally show ?thesis .
    next
      case (WriteErr e)
      then have "e = EPIPE \<or> e = ECONNRESET" using w(1) by (simp add: write_ok_def)
      then show ?thesis
        using True False mem WriteErr ok(1)
        by (auto simp: logged_sendInLoop_def sendInLoop_eq log_handed_def send_direct_def
            EPIPE_def ECONNRESET_def EWOULDBLOCK_def)
    qed
  next
    case nd: False
    then have out: "content (outputBuffer s) \<noteq> []" using writes_direct_iff [OF ci(1) up] by simp
    have run: "logged_sendInLoop mem data len w s =
        rbind (if 0 < len then send_rest mem data 0 len s else Inr s) (\<lambda>s'. Inr (s'\<lparr>handed := handed s' @ bs\<rparr>))"
      using nd False mem by (simp add: logged_sendInLoop_def sendInLoop_eq log_handed_def split del: if_split)
    show ?thesis
    proof (cases "len = 0")
      case True
      then have "bs = []" using length_bs by simp
      then show ?thesis using ok(1) True unfolding run by simp
    next
      case False
      then have ne: "bs \<noteq> []" using length_bs by auto
      have no: "EShutdownWrite \<notin> set (effects s)" using inv(6) out by blast
      have m: "read_mem mem (data + 0) len = Inr bs" using mem by simp
      note spec = send_rest_spec [OF ci(1) up m ne len no]
      show ?thesis
      proof (cases "send_rest mem data 0 len s")
        case (Inl e)
        then show ?thesis using spec False unfolding run by simp
      next
        case (Inr s')
        then show ?thesis
          using spec Inr False ci(2) unfolding run by (simp add: conn_ok_def conn_le_def)
      qed
    qed
  qed
qed

lemma logged_send_post:
  assumes "conn_ok s" "state s \<noteq> KConnecting" "state s = KConnected \<Longrightarrow> read_mem mem data len = Inr bs"
    "len \<le> vec_max_size" "write_ok len w"
  shows "conn_post s (logged_send mem data len w s)"
proof (cases "state s = KConnected")
  case True
  then have "EShutdownWrite \<notin> set (effects s)" using assms(1) by (simp add: conn_ok_def conn_inv_def out_ok_def)
  then have "conn_post s (logged_sendInLoop mem data len w s)"
    using assms True by (intro logged_sendInLoop_post) (auto simp: shut_write_fails_def)
  then show ?thesis using True by (simp add: logged_send_def send_def logged_sendInLoop_def)
qed (use assms in \<open>simp add: logged_send_def send_def\<close>)

section \<open>Closing, reading and writing\<close>

lemma shutdownInLoop_post:
  assumes "conn_ok s" "state s = KDisconnecting \<or> state s = KDisconnected"
  shows "conn_post s (shutdownInLoop True s)"
proof (cases "IsEnableWriteEvent (channel s)")
  case False
  have "conn_inv (emit EShutdownWrite s)"
    using assms False by (auto simp: conn_ok_def conn_inv_def chan_run_append out_ok_def IsEnableWriteEvent_def)
  then show ?thesis using assms(1) False by (simp add: shutdownInLoop_def conn_ok_def)
qed (use assms in \<open>simp add: shutdownInLoop_def\<close>)

text \<open>Moving to \<open>KDisconnecting\<close>.\<close>

lemma conn_ok_disconnecting:
  "conn_ok s \<Longrightarrow> up (state s) \<Longrightarrow> conn_ok (s\<lparr>state := KDisconnecting\<rparr>) \<and> conn_le s (s\<lparr>state := KDisconnecting\<rparr>)"
  by (auto simp: conn_ok_def conn_inv_def out_ok_def conn_le_def rank_def split: StateE.splits)

lemma shutdown_post:
  assumes "conn_ok s" shows "conn_post s (shutdown inLoop s)"
proof (cases "state s = KConnected")
  case True
  let ?s = "s\<lparr>state := KDisconnecting\<rparr>"
  have d: "conn_ok ?s" "conn_le s ?s" using conn_ok_disconnecting [OF assms] True by auto
  have "conn_post s (shutdownInLoop True ?s)"
    by (rule conn_post_trans [OF d(2)], rule shutdownInLoop_post) (use d in auto)
  moreover have "conn_inv (emit (EQueue FShutdownInLoop) ?s)"
    using d(1) by (auto simp: conn_ok_def conn_inv_def chan_run_append)
  then have "conn_post s (Inr (emit (EQueue FShutdownInLoop) ?s))"
    using d by (simp add: conn_ok_def conn_le_trans [of s ?s])
  ultimately show ?thesis
    using True by (simp add: shutdown_def Let_def)
qed (use assms in \<open>simp add: shutdown_def\<close>)

lemma force_post:
  assumes "conn_ok s" shows "conn_post s (Inr (forceClose s))" "conn_post s (Inr (forceCloseWithDelay d s))"
proof -
  have "conn_post s (Inr (emit e (s\<lparr>state := KDisconnecting\<rparr>)))" if "up (state s)" "quiet e" for e
  proof -
    note m = conn_ok_disconnecting [OF assms that(1)]
    show ?thesis using m that(2) by (auto intro: conn_ok_emit conn_le_trans)
  qed
  then show "conn_post s (Inr (forceClose s))" "conn_post s (Inr (forceCloseWithDelay d s))"
    using assms unfolding forceClose_def forceCloseWithDelay_def by (cases "up (state s)"; simp)+
qed

text \<open>Answers of \<open>readv\<close> are bounded by the room it was offered.\<close>

definition read_ok :: "sysread \<Rightarrow> conn \<Rightarrow> bool" where
  "read_ok rv s \<longleftrightarrow> (case rv of ReadErr \<Rightarrow> True | ReadOk bytes \<Rightarrow> length bytes \<le> readv_room (inputBuffer s))"

lemma readFd_conn:
  assumes "conn_ok s" "read_ok rv s"
  shows "case readFd rv (inputBuffer s) of
      Inl e \<Rightarrow> e = LengthError
    | Inr (r, ib) \<Rightarrow> conn_ok (s\<lparr>inputBuffer := ib\<rparr>) \<and> conn_le s (s\<lparr>inputBuffer := ib\<rparr>) \<and>
        (nat (r mod 2 ^ 64) = 0 \<longleftrightarrow> rv = ReadOk [])"
proof (cases rv)
  case ReadErr
  then show ?thesis using assms(1) by (simp add: readFd_def Let_def)
next
  case (ReadOk bytes)
  have wf: "wf_buffer (inputBuffer s)" using assms(1) by (simp add: conn_ok_def conn_inv_def)
  have room: "length bytes \<le> readv_room (inputBuffer s)" using assms(2) ReadOk by (simp add: read_ok_def)
  then have "int (length bytes) < 2 ^ 64"
    using wf_bufferD [OF wf] wf by (simp add: readv_room_def Let_def ExtraBufSize_def writable_wf split: if_splits)
  then have "nat (int (length bytes) mod 2 ^ 64) = length bytes" by simp
  then show ?thesis
    using readFd_spec [OF wf room] assms(1) ReadOk
    by (auto simp: conn_ok_def conn_inv_def conn_le_def split: sum.splits)
qed

lemma handleWirte_post:
  assumes ok: "conn_ok s" "state s \<noteq> KConnecting"
    and w: "\<And>n. w = Wrote n \<Longrightarrow> n \<le> readableBytes (outputBuffer s)"
  shows "conn_post s (handleWirte True w s)"
proof (cases "IsEnableWriteEvent (channel s)")
  case en: True
  have ci: "conn_inv s" "handed s = wire s @ content (outputBuffer s)" using ok(1) by (auto simp: conn_ok_def)
  have up: "up (state s)"
    using ci(1) ok(2) en by (cases "state s") (auto simp: conn_inv_def out_ok_def IsEnableWriteEvent_def)
  note inv = conn_inv_facts [OF ci(1) up]
  have out: "content (outputBuffer s) \<noteq> []" using inv(5) en by (simp add: IsEnableWriteEvent_def)
  then have no: "EShutdownWrite \<notin> set (effects s)" using inv(6) by blast
  let ?out = "content (outputBuffer s)"
  show ?thesis
  proof (cases "\<exists>n. w = Wrote n \<and> 0 < n")
    case False
    then show ?thesis using ok(1) by (cases w) (auto simp: handleWirte_def)
  next
    case True
    then obtain n where n: "w = Wrote n" "0 < n" "n \<le> length ?out" using w inv(1) by auto
    obtain ob where ob: "retrieve n (outputBuffer s) = Inr ob" "wf_buffer ob" "content ob = drop n ?out"
      using retrieve_spec [OF inv(1), of n] n(3) by (cases "retrieve n (outputBuffer s)") auto
    define s2 where "s2 = s\<lparr>wire := wire s @ take n ?out, outputBuffer := ob\<rparr>"
    define s3 where "s3 = upd_channel DisableWriteEvent s2"
    define s4 where "s4 = (if writeCompleteCallback s3 then emit (EQueue FWriteComplete) s3 else s3)"
    have run: "handleWirte True w s =
        (if n = length ?out then if state s4 = KDisconnecting then shutdownInLoop True s4 else Inr s4 else Inr s2)"
      using en n ob inv(1) eq_commute [of "length ?out" n]
      by (auto simp: handleWirte_def peek_content Let_def s2_def s3_def s4_def split del: if_split cong: if_cong)
    show ?thesis
    proof (cases "n = length ?out")
      case False
      then have "conn_ok s2"
        using ci n ob no up inv unfolding s2_def conn_ok_def conn_inv_def
        by (auto simp: out_ok_def split: StateE.splits)
      then show ?thesis using False unfolding run by (simp add: s2_def conn_le_def)
    next
      case full: True
      have "conn_inv (upd_channel DisableWriteEvent (s\<lparr>state := state s, outputBuffer := ob\<rparr>))"
        by (rule conn_inv_upd [OF ci(1)]) (use up ob full no in \<open>auto simp: out_ok_def\<close>)
      moreover have "upd_channel DisableWriteEvent (s\<lparr>state := state s, outputBuffer := ob\<rparr>)\<lparr>wire := wire s3\<rparr> = s3"
        by (simp add: s3_def s2_def upd_channel_def emit_def)
      ultimately have "conn_inv s3" by (metis conn_inv_ghosts(2))
      then have "conn_ok s3" using ci ob full by (simp add: conn_ok_def) (simp add: s3_def s2_def)
      then have "conn_ok s4" by (simp add: s4_def conn_ok_emit)
      moreover have le: "conn_le s s4"
        by (simp add: s4_def s3_def s2_def conn_le_def)
      ultimately show ?thesis
        using full unfolding run by (auto intro: conn_post_trans [OF le] shutdownInLoop_post)
    qed
  qed
qed (use ok in \<open>simp add: handleWirte_def\<close>)

section \<open>The contract of the user's callbacks\<close>

text \<open>
  User callbacks, for a program \<open>u\<close> that is \<open>ok\<close>, do what an operation does: keep the connection's
  invariant and its stream, move its state forward only, or overflow a vector.
\<close>

locale conn_user =
  fixes ok :: "'u \<Rightarrow> bool" and cbs :: "'u \<Rightarrow> callbacks"
  assumes cbs_post: "ok u \<Longrightarrow> conn_ok s \<Longrightarrow> state s \<noteq> KConnecting \<Longrightarrow> conn_post s (cbs u c s)"
begin

lemma call_post: "ok u \<Longrightarrow> conn_ok s \<Longrightarrow> state s \<noteq> KConnecting \<Longrightarrow> conn_post s (call (cbs u) c s)"
  unfolding call_def
  by (rule conn_post_trans [OF conn_le_emit], rule cbs_post) (auto intro: conn_ok_emit)

text \<open>A change of state and channel, then the connection callback.\<close>

lemma upd_call_post:
  assumes "ok u" "conn_ok s" "rank (state s) \<le> rank st" "st \<noteq> KConnecting"
    and "state s \<noteq> KConnecting \<or> x = EnableReadEvent"
    and "out_ok st (change_events x (events (channel s))) (content (outputBuffer s)) (EShutdownWrite \<in> set (effects s))"
  shows "conn_post s (call (cbs u) OnConnection (upd_channel x (s\<lparr>state := st\<rparr>)))"
proof -
  let ?s = "upd_channel x (s\<lparr>state := st\<rparr>)"
  have wf: "conn_inv s" "wf_buffer (outputBuffer s)" using assms(2) by (simp_all add: conn_ok_def conn_inv_def)
  have "conn_inv (upd_channel x (s\<lparr>state := st, outputBuffer := outputBuffer s\<rparr>))"
    by (rule conn_inv_upd) (use assms wf in auto)
  then have "conn_ok ?s" using assms(2) by (simp add: conn_ok_def)
  moreover have "conn_le s ?s" using assms(3) by (simp add: conn_le_def)
  ultimately show ?thesis
    using call_post [OF assms(1), of ?s OnConnection] assms(4) by (simp add: conn_post_trans [of s ?s])
qed

lemma established_post:
  "ok u \<Longrightarrow> conn_ok s \<Longrightarrow> state s = KConnecting \<Longrightarrow> conn_post s (ConnectEstablished True (cbs u) s)"
  unfolding ConnectEstablished_def
  by (simp, rule upd_call_post) (auto simp: rank_def conn_ok_def conn_inv_def out_ok_def)

lemma handleClose_post:
  assumes "ok u" "conn_ok s" "up (state s)"
  shows "conn_post s (handleClose True (cbs u) s)" "\<And>s'. handleClose True (cbs u) s = Inr s' \<Longrightarrow> state s' = KDisconnected"
proof -
  let ?m = "call (cbs u) OnConnection (upd_channel DisableAllEvent (s\<lparr>state := KDisconnected\<rparr>))"
  have m: "conn_post s ?m"
    by (rule upd_call_post) (use assms in \<open>auto simp: rank_def out_ok_def KNoneEvent_def\<close>)
  have dead: "state s' = KDisconnected" if "conn_le s1 s'" "state s1 = KDisconnected" for s1 s' :: conn
    using that by (cases "state s'") (auto simp: conn_le_def rank_def)
  have m1: "state s1 = KDisconnected" if "?m = Inr s1" for s1
  proof -
    have "conn_post (upd_channel DisableAllEvent (s\<lparr>state := KDisconnected\<rparr>)) ?m"
    proof (rule call_post [OF assms(1)])
      have "conn_inv (upd_channel DisableAllEvent (s\<lparr>state := KDisconnected, outputBuffer := outputBuffer s\<rparr>))"
        by (rule conn_inv_upd) (use assms in \<open>auto simp: conn_ok_def conn_inv_def out_ok_def KNoneEvent_def rank_def\<close>)
      then show "conn_ok (upd_channel DisableAllEvent (s\<lparr>state := KDisconnected\<rparr>))"
        using assms(2) by (simp add: conn_ok_def)
    qed simp
    then show ?thesis using that dead [of "upd_channel DisableAllEvent (s\<lparr>state := KDisconnected\<rparr>)"] by simp
  qed
  have run: "handleClose True (cbs u) s = rbind ?m (call (cbs u) OnClose)" using assms(3) by (simp add: handleClose_def)
  show "conn_post s (handleClose True (cbs u) s)"
    unfolding run by (rule conn_post_bind [OF m], rule call_post [OF assms(1)]) (auto dest: m1)
  show "state s' = KDisconnected" if "handleClose True (cbs u) s = Inr s'" for s'
  proof -
    from that obtain s1 where s1: "?m = Inr s1" "call (cbs u) OnClose s1 = Inr s'"
      unfolding run by (auto simp: rbind_Inr_iff)
    then have "conn_post s1 (call (cbs u) OnClose s1)"
      using m m1 [OF s1(1)] by (intro call_post assms(1)) auto
    then show ?thesis using s1(2) m1 [OF s1(1)] dead [of s1 s'] by simp
  qed
qed

lemma forceCloseInLoop_post:
  "ok u \<Longrightarrow> conn_ok s \<Longrightarrow> conn_post s (forceCloseInLoop True (cbs u) s)"
  by (simp add: forceCloseInLoop_def handleClose_post(1))

lemma handleRead_post:
  assumes "ok u" "conn_ok s" "up (state s)" "read_ok rv s"
  shows "conn_post s (handleRead True (cbs u) rv s)"
proof (cases "readFd rv (inputBuffer s)")
  case (Inl e)
  then show ?thesis using readFd_conn [OF assms(2,4)] by (simp add: handleRead_def)
next
  case (Inr p)
  obtain r ib where p: "p = (r, ib)" by force
  let ?s = "s\<lparr>inputBuffer := ib\<rparr>"
  have ok: "conn_ok ?s" "conn_le s ?s" using readFd_conn [OF assms(2,4)] Inr p by auto
  have "conn_post ?s (call (cbs u) OnMessage ?s)" "conn_post ?s (handleClose True (cbs u) ?s)"
    by (rule call_post handleClose_post(1); use ok assms in auto)+
  then show ?thesis
    using Inr p ok by (auto simp: handleRead_def Let_def intro: conn_post_trans)
qed

end

text \<open>The program sends from memory it can read, and no direct write is answered \<open>EWOULDBLOCK\<close>.\<close>

fun ucall_ok :: "memory \<Rightarrow> conn_ucall \<Rightarrow> bool" where
  "ucall_ok mem (USend data len w) \<longleftrightarrow> len \<le> vec_max_size \<and> write_ok len w \<and> (case read_mem mem data len of Inl _ \<Rightarrow> False | Inr _ \<Rightarrow> True)"
| "ucall_ok mem (UEcho w) \<longleftrightarrow> write_ok 0 (at_most 0 w)"
| "ucall_ok mem _ \<longleftrightarrow> True"

definition user_ok :: "user_prog \<Rightarrow> bool" where
  "user_ok u \<longleftrightarrow> (\<forall>c. \<forall>x \<in> set (snd u c). ucall_ok (fst u) x)"

lemma string_mem_nth: "k < length str \<Longrightarrow> string_mem str (int k) = Some (str ! k)"
  by (simp add: string_mem_def)

lemma read_string_mem: "read_mem (string_mem str) 0 (length str) = Inr str"
proof -
  have "n \<le> length str \<Longrightarrow> read_mem (string_mem str) (int (length str - n)) n = Inr (drop (length str - n) str)" for n
  proof (induction n)
    case (Suc n)
    have d: "drop (length str - Suc n) str = str ! (length str - Suc n) # drop (length str - n) str"
      using Suc.prems Cons_nth_drop_Suc [of "length str - Suc n" str] by (simp add: Suc_diff_Suc)
    have a: "int (length str - Suc n) + 1 = int (length str - n)" using Suc.prems by simp
    have b: "string_mem str (int (length str - Suc n)) = Some (str ! (length str - Suc n))"
      using Suc.prems by (intro string_mem_nth) simp
    show ?case using Suc unfolding d read_mem.simps a b by simp
  qed simp
  from this [of "length str"] show ?thesis by simp
qed

lemma exec_conn_ucall_post:
  assumes x: "ucall_ok mem x" and ok: "conn_ok s" "state s \<noteq> KConnecting"
  shows "conn_post s (exec_conn_ucall mem x s)"
proof (cases x)
  case (USend data len w)
  then obtain bs where "read_mem mem data len = Inr bs" using x by (cases "read_mem mem data len") auto
  then show ?thesis using USend x by (simp add: logged_send_post [OF ok])
next
  case (URetrieve n)
  have wf: "wf_buffer (inputBuffer s)" using ok(1) by (simp add: conn_ok_def conn_inv_def)
  show ?thesis
    using retrieve_spec [OF wf, of "min n (readableBytes (inputBuffer s))"] wf ok(1) URetrieve
    by (auto simp: conn_ok_def conn_inv_def conn_le_def split: sum.splits)
next
  case (UEcho w)
  have wf: "wf_buffer (inputBuffer s)" using ok(1) by (simp add: conn_ok_def conn_inv_def)
  let ?str = "content (inputBuffer s)"
  obtain ib where ib: "retrieveAllAsString (inputBuffer s) = Inr (?str, ib)" "wf_buffer ib"
    using retrieveAsString_spec [OF wf, of "length ?str"] wf
    by (cases "retrieveAsString (length ?str) (inputBuffer s)") (auto simp: retrieveAllAsString_def)
  let ?s = "s\<lparr>inputBuffer := ib\<rparr>"
  have s1: "conn_ok ?s" "conn_le s ?s" "state ?s \<noteq> KConnecting"
    using ok ib(2) by (auto simp: conn_ok_def conn_inv_def conn_le_def)
  have "length ?str \<le> vec_max_size" using wf_bufferD [OF wf] by (simp add: length_content [OF wf])
  moreover have "write_ok (length ?str) (at_most (length ?str) w)" using x UEcho by (cases w) (auto simp: write_ok_def)
  ultimately have "conn_post ?s (logged_send (string_mem ?str) 0 (length ?str) (at_most (length ?str) w) ?s)"
    by (intro logged_send_post [OF s1(1,3) read_string_mem])
  then show ?thesis using UEcho ib s1(2) by (simp add: defaultMessageCallback_def conn_post_trans)
qed (use ok shutdown_post force_post in auto)

interpretation cu: conn_user user_ok user_callbacks
proof
  fix u c s
  assume u: "user_ok u" and ok: "conn_ok s" "state s \<noteq> KConnecting"
  show "conn_post s (user_callbacks u c s)"
    unfolding user_callbacks_def
    by (rule rfold_conn_post) (use u ok in \<open>auto simp: user_ok_def intro: exec_conn_ucall_post split: if_splits\<close>)
qed

section \<open>Histories\<close>

text \<open>What happens to a connection: the server or client sets its callbacks and establishes it, the loop reports events
  on its channel, runs a functor of it, or user code elsewhere in the loop's thread or in
  another thread calls it. (\<open>state_\<close> is not atomic; the calls of other threads are taken to happen
  between the operations of the loop's thread.)\<close>

datatype conn_act =
    ASetWriteComplete
  | ASetHighWaterMark nat
  | AEstablish
  | AEvent events sysread syswrite
  | AFunctor conn_functor memory syswrite
  | ACall memory conn_ucall
  | AOtherSend int nat
  | AOtherShutdown
  | AOtherForceClose

fun conn_exec :: "callbacks \<Rightarrow> conn_act \<Rightarrow> conn \<Rightarrow> conn result" where
  "conn_exec cbs AEstablish s = ConnectEstablished True cbs s"
| "conn_exec cbs ASetWriteComplete s = Inr (setWriteCompleteCallback s)"
| "conn_exec cbs (ASetHighWaterMark hw) s = Inr (setHighWaterMarkCallback hw s)"
| "conn_exec cbs (AEvent r rv w) s = conn_HandleEvent cbs rv w (s\<lparr>channel := SetReceiveEvent r (channel s)\<rparr>)"
| "conn_exec cbs (AFunctor f mem w) s = exec_conn_functor cbs mem w f s"
| "conn_exec cbs (ACall mem x) s = exec_conn_ucall mem x s"
| "conn_exec cbs (AOtherSend data len) s = send False (\<lambda>_. None) data len (Wrote 0) s"
| "conn_exec cbs AOtherShutdown s = shutdown False s"
| "conn_exec cbs AOtherForceClose s = Inr (forceClose s)"

text \<open>Events come while the channel is watched, and not as a hangup with a read event but without
  \<open>POLLIN\<close> (\<open>hangup_closes_twice\<close>). A functor has been queued, and the memory its pointer
  names is still readable.\<close>

definition hup_and_read :: "events \<Rightarrow> bool" where
  "hup_and_read r \<longleftrightarrow> r AND POLLHUP \<noteq> 0 \<and> r AND POLLIN = 0 \<and> r AND (POLLIN OR POLLPRI OR POLLRDHUP) \<noteq> 0"

definition functor_pending :: "conn_functor \<Rightarrow> conn \<Rightarrow> bool" where
  "functor_pending f s \<longleftrightarrow>
     EQueue f \<in> set (effects s) \<or>
     (f = FForceCloseInLoop \<and> (\<exists>e \<in> set (effects s). case e of ERunAfter _ \<Rightarrow> True | _ \<Rightarrow> False))"

fun functor_ok :: "memory \<Rightarrow> syswrite \<Rightarrow> conn_functor \<Rightarrow> conn \<Rightarrow> bool" where
  "functor_ok mem w (FSendInLoop data len) s \<longleftrightarrow> ucall_ok mem (USend data len w) \<and> shut_write_fails s w"
| "functor_ok mem w _ s \<longleftrightarrow> True"

fun act_ok :: "conn_act \<Rightarrow> conn \<Rightarrow> bool" where
  "act_ok AEstablish s \<longleftrightarrow> state s = KConnecting"
| "act_ok (AEvent r rv w) s \<longleftrightarrow> up (state s) \<and> read_ok rv s \<and> \<not> hup_and_read r"
| "act_ok (AFunctor f mem w) s \<longleftrightarrow> state s \<noteq> KConnecting \<and> functor_pending f s \<and> functor_ok mem w f s"
| "act_ok (ACall mem x) s \<longleftrightarrow> state s \<noteq> KConnecting \<and> ucall_ok mem x"
| "act_ok _ s \<longleftrightarrow> True"

abbreviation acts_ok :: "callbacks \<Rightarrow> conn_act list \<Rightarrow> conn \<Rightarrow> bool" where
  "acts_ok cbs \<equiv> legal_run (conn_exec cbs) act_ok"

text \<open>Like \<open>conn_le\<close>, but for the events received, which the poller sets.\<close>

definition conn_fwd :: "conn \<Rightarrow> conn \<Rightarrow> bool" where
  "conn_fwd s s' \<longleftrightarrow> rank (state s) \<le> rank (state s') \<and> prefix (wire s) (wire s') \<and>
     prefix (handed s) (handed s') \<and> prefix (effects s) (effects s')"

lemma conn_le_fwd: "conn_le s s' \<Longrightarrow> conn_fwd s s'"
  by (simp add: conn_le_def conn_fwd_def)

lemma conn_fwd_refl [simp]: "conn_fwd s s"
  by (simp add: conn_fwd_def)

lemma conn_fwd_trans: "conn_fwd a b \<Longrightarrow> conn_fwd b c \<Longrightarrow> conn_fwd a c"
  unfolding conn_fwd_def by (metis order.trans prefix_order.trans)

lemma conn_ok_channel:
  "wired c \<Longrightarrow> events c = events (channel s) \<Longrightarrow> conn_ok s \<Longrightarrow> conn_ok (s\<lparr>channel := c\<rparr>)"
  by (simp add: conn_ok_def conn_inv_def)

lemma conn_upd_handling: "conn_upd (set_handling 0 b) s = s\<lparr>channel := (channel s)\<lparr>eventHandling := b\<rparr>\<rparr>"
  by (simp add: conn_upd_def conn_get_def set_handling_def)

lemma conn_ok_handling: "conn_ok s \<Longrightarrow> conn_ok (conn_upd (set_handling 0 b) s)"
  unfolding conn_upd_handling
  by (rule conn_ok_channel) (auto simp: conn_ok_def conn_inv_def wired_def)

lemma conn_le_handling: "conn_le s (conn_upd (set_handling 0 b) s)"
  by (simp add: conn_upd_handling conn_le_def same_dispatch_def)

lemma conn_HandleEvent_eq:
  "conn_HandleEvent cbs rv w s =
     rbind (call_if (rEvents (channel s) AND POLLHUP \<noteq> 0 \<and> rEvents (channel s) AND POLLIN = 0) (exec_conn_cb cbs rv w)
              (closeCallback (channel s)) (conn_upd (set_handling 0 True) s)) (\<lambda>s1.
     rbind (call_if (rEvents (channel s1) AND (POLLIN OR POLLPRI OR POLLRDHUP) \<noteq> 0) (exec_conn_cb cbs rv w)
              (readCallback (channel s1)) s1) (\<lambda>s2.
     rbind (call_if (rEvents (channel s2) AND POLLOUT \<noteq> 0) (exec_conn_cb cbs rv w)
              (writeCallback (channel s2)) s2) (\<lambda>s3.
     Inr (conn_upd (set_handling 0 False) s3))))"
  by (simp add: conn_HandleEvent_def HandleEvent_def conn_get_def)

lemma dispatch_wired:
  "conn_ok s \<Longrightarrow> closeCallback (channel s) = Some HandleClose \<and> readCallback (channel s) = Some HandleRead \<and>
     writeCallback (channel s) = Some HandleWirte"
  by (simp add: conn_ok_def conn_inv_def wired_def)

lemma at_most_le: "at_most n w = Wrote k \<Longrightarrow> k \<le> n"
  by (cases w) auto

context conn_user
begin

lemma event_post:
  assumes u: "ok u" and s: "conn_ok s" "up (state s)" "read_ok rv s" "\<not> hup_and_read (rEvents (channel s))"
  shows "conn_post s (conn_HandleEvent (cbs u) rv w s)"
proof -
  let ?run = "exec_conn_cb (cbs u) rv w" and ?s0 = "conn_upd (set_handling 0 True) s" and ?r = "rEvents (channel s)"
  let ?hup = "?r AND POLLHUP \<noteq> 0 \<and> ?r AND POLLIN = 0"
  have s0: "conn_ok ?s0" "state ?s0 = state s" "inputBuffer ?s0 = inputBuffer s" "same_dispatch (channel s) (channel ?s0)"
    using s(1) conn_le_handling [of s True] by (auto simp: conn_ok_handling conn_le_def) (auto simp: conn_upd_handling)
  have close: "conn_post ?s0 (call_if ?hup ?run (closeCallback (channel s)) ?s0)"
    using handleClose_post(1) [OF u s0(1)] s0 s(2) dispatch_wired [OF s(1)] by (simp add: call_if_def)
  have ro: "read_ok rv ?s0" using s(3) s0(3) by (cases rv) (simp_all add: read_ok_def)
  have read: "conn_post s1 (call_if (rEvents (channel s1) AND (POLLIN OR POLLPRI OR POLLRDHUP) \<noteq> 0) ?run
      (readCallback (channel s1)) s1)"
    if s1: "call_if ?hup ?run (closeCallback (channel s)) ?s0 = Inr s1" "conn_ok s1" "conn_le ?s0 s1" for s1
  proof (cases "?hup")
    case True
    have "rEvents (channel s1) = ?r" using s1(3) s0(4) by (simp add: conn_le_def same_dispatch_def)
    then show ?thesis using True s(4) s1(2) by (simp add: hup_and_read_def call_if_def)
  next
    case False
    then have "s1 = ?s0" using s1(1) by (auto simp: call_if_def)
    then show ?thesis
      using handleRead_post [OF u s0(1) _ ro] s0 s(2) dispatch_wired [OF s0(1)] by (simp add: call_if_def)
  qed
  have wr: "conn_post s2 (call_if (rEvents (channel s2) AND POLLOUT \<noteq> 0) ?run (writeCallback (channel s2)) s2)"
    if "conn_ok s2" "state s2 \<noteq> KConnecting" for s2
    using handleWirte_post [OF that] that(1) dispatch_wired [OF that(1)] by (simp add: call_if_def at_most_le)
  have up0: "state ?s0 \<noteq> KConnecting" using s0(2) s(2) by auto
  show ?thesis
    unfolding conn_HandleEvent_eq
    by (rule conn_post_trans [OF conn_le_handling [of s True]], rule conn_post_bind [OF close],
        rule conn_post_bind [OF read], assumption+, rule conn_post_bind [OF wr], assumption)
      (use up0 in \<open>auto simp: conn_ok_handling conn_le_handling dest!: conn_le_started\<close>)
qed

lemma functor_post:
  assumes "ok u" "conn_ok s" "state s \<noteq> KConnecting" "functor_pending f s" "functor_ok mem w f s"
  shows "conn_post s (exec_conn_functor (cbs u) mem w f s)"
proof (cases f)
  case (FSendInLoop data len)
  then obtain bs where "read_mem mem data len = Inr bs" using assms(5) by (cases "read_mem mem data len") auto
  then show ?thesis using assms FSendInLoop by (simp add: logged_sendInLoop_post)
next
  case FShutdownInLoop
  have "state s = KDisconnecting \<or> state s = KDisconnected" 
    using assms(2,4) FShutdownInLoop by (auto simp: conn_ok_def conn_inv_def functor_pending_def)
  then show ?thesis using FShutdownInLoop shutdownInLoop_post [OF assms(2)] by simp
qed (use assms forceCloseInLoop_post in auto)

lemma act_post:
  assumes u: "ok u" "\<And>mem x s. conn_ok s \<Longrightarrow> state s \<noteq> KConnecting \<Longrightarrow> ucall_ok mem x \<Longrightarrow> conn_post s (exec_conn_ucall mem x s)"
    and s: "conn_ok s" "act_ok a s"
  shows "case conn_exec (cbs u) a s of Inl e \<Rightarrow> e = LengthError | Inr s' \<Rightarrow> conn_ok s' \<and> conn_fwd s s'"
proof -
  have post: ?thesis if "conn_post s (conn_exec (cbs u) a s)"
    using that by (auto simp: conn_post_def conn_le_fwd split: sum.splits)
  show ?thesis
  proof (cases a)
    case (AEvent r rv w)
    let ?s = "s\<lparr>channel := SetReceiveEvent r (channel s)\<rparr>"
    have ok: "conn_ok ?s"
      by (rule conn_ok_channel) (use s(1) in \<open>auto simp: conn_ok_def conn_inv_def wired_def SetReceiveEvent_def\<close>)
    have "conn_post ?s (conn_HandleEvent (cbs u) rv w ?s)"
      by (rule event_post [OF u(1) ok]) (use s(2) AEvent in \<open>auto simp: read_ok_def SetReceiveEvent_def split: sysread.splits\<close>)
    moreover have "conn_fwd s ?s" by (simp add: conn_fwd_def)
    ultimately show ?thesis
      using AEvent by (auto simp: conn_post_def split: sum.splits dest!: conn_le_fwd intro: conn_fwd_trans)
  next
    case ASetWriteComplete
    then show ?thesis using s
      by (simp add: setWriteCompleteCallback_def conn_ok_def conn_inv_def conn_fwd_def)
  next
    case (ASetHighWaterMark hw)
    then show ?thesis using s
      by (simp add: setHighWaterMarkCallback_def conn_ok_def conn_inv_def conn_fwd_def)
  next
    case AEstablish
    then show ?thesis using s by (intro post) (simp add: established_post u(1))
  next
    case (AFunctor f mem w)
    then show ?thesis using s by (intro post) (simp add: functor_post u(1))
  next
    case (ACall mem x)
    then show ?thesis using s by (intro post) (simp add: u(2))
  next
    case (AOtherSend data len)
    then show ?thesis using s by (simp add: send_def conn_ok_emit conn_le_fwd)
  next
    case AOtherShutdown
    then show ?thesis using shutdown_post [OF s(1), of False] by (intro post) simp
  next
    case AOtherForceClose
    then show ?thesis using force_post(1) [OF s(1)] by (intro post) simp
  qed
qed

end

interpretation cs: legal_system "conn_exec (user_callbacks u)" act_ok "\<lambda>s. user_ok u \<and> conn_ok s \<and> conn_fwd s0 s"
  "\<lambda>e. e = LengthError" for u :: user_prog and s0 :: conn
proof
  fix s a
  assume s: "user_ok u \<and> conn_ok s \<and> conn_fwd s0 s" and a: "act_ok a s"
  then have "case conn_exec (user_callbacks u) a s of Inl e \<Rightarrow> e = LengthError | Inr s' \<Rightarrow> conn_ok s' \<and> conn_fwd s s'"
    by (intro cu.act_post exec_conn_ucall_post) simp_all
  then show "case conn_exec (user_callbacks u) a s of
      Inl e \<Rightarrow> e = LengthError | Inr s' \<Rightarrow> user_ok u \<and> conn_ok s' \<and> conn_fwd s0 s'"
    using s by (auto split: sum.splits intro: conn_fwd_trans)
qed

lemma conn_history:
  assumes "user_ok u" "conn_ok s" "acts_ok (user_callbacks u) as s"
  shows "case rfold (conn_exec (user_callbacks u)) as s of Inl e \<Rightarrow> e = LengthError | Inr s' \<Rightarrow> conn_ok s' \<and> conn_fwd s s'"
  using cs.history [of u s s as] assms by (simp split: sum.splits)

lemma conn_ok_new: "conn_ok (TcpConnection fd hw)"
  by (simp add: conn_ok_def conn_inv_new) (simp add: TcpConnection_def)

lemma conn_from_new:
  assumes "user_ok u" "acts_ok (user_callbacks u) as (TcpConnection fd hw)"
    and "rfold (conn_exec (user_callbacks u)) as (TcpConnection fd hw) = Inr s"
  shows "conn_ok s"
  using conn_history [OF assms(1) conn_ok_new assms(2)] assms(3) by simp

end
