(* ===== verification/Tcp_Stream.thy ===== *)
theory Tcp_Stream
  imports Tcp_Connection
begin

text \<open>
  What the connection of \<open>Tcp_Connection\<close> promises over its whole history: the bytes handed to it reach
  the wire in order, write interest is on exactly while bytes wait, the write side is shut
  down only after the last byte, its state only moves forward, waiting bytes drain. Then the cases
  in which the code does something else.
\<close>

section \<open>A user program to run\<close>

text \<open>It sends two bytes from address 8 when the connection is up; the kernel takes one.\<close>

definition mem2 :: memory where
  "mem2 = [7 \<mapsto> 3, 8 \<mapsto> 5, 9 \<mapsto> 6]"

definition user2 :: user_prog where
  "user2 = (mem2, \<lambda>c. if c = OnConnection then [USend 8 2 (Wrote 1)] else [])"

lemma read_mem_numeral [simp]:
  "read_mem mem a (numeral n) =
     (case mem a of None \<Rightarrow> Inl Undefined
      | Some b \<Rightarrow> rbind (read_mem mem (a + 1) (pred_numeral n)) (\<lambda>bs. Inr (b # bs)))"
  by (simp add: numeral_eq_Suc)

lemma user2_ok: "user_ok user2"
  by (simp add: user_ok_def user2_def write_ok_def vec_max_size_def mem2_def)

definition conn2 :: conn where
  "conn2 = TcpConnection 9 65536"

lemma append_new:
  assumes "length bs \<le> 1024"
  obtains ob where "append bs (buffer_new KInitSize) = Inr ob" "wf_buffer ob" "content ob = bs"
    "length (buf ob) = 1024"
proof -
  have wf: "wf_buffer (buffer_new KInitSize)" by (rule wf_buffer_new) (simp add: KInitSize_def vec_max_size_def)
  have len: "length bs \<le> vec_max_size" using assms by (simp add: vec_max_size_def)
  have "writerIdx (buffer_new KInitSize) = 0" by (simp add: buffer_new_def kCheapPrepend_def)
  then obtain ob where "append bs (buffer_new KInitSize) = Inr ob"
    using append_spec [OF wf len] assms
    by (cases "append bs (buffer_new KInitSize)") (auto simp: vec_max_size_def)
  moreover have "length (buf (buffer_new KInitSize)) = 1024" "writableBytes (buffer_new KInitSize) = 1024"
    by (simp_all add: buffer_new_def KInitSize_def kCheapPrepend_def writableBytes_def)
  ultimately show ?thesis
    using append_spec [OF wf len] assms that by (simp split: if_splits)
qed

lemma append_fits:
  assumes "wf_buffer b" "length (buf b) + length bs \<le> vec_max_size"
  shows "\<exists>b'. append bs b = Inr b'"
  using append_spec [OF assms(1), of bs] wf_bufferD [OF assms(1)] assms(2)
  by (cases "append bs b") auto

lemmas run_conn =
  conn2_def TcpConnection_def Channel_def SetReadCallback_def SetWirteCallback_def SetCloseCallback_def
  KNoneEvent_def ConnectEstablished_def call_def user_callbacks_def user2_def emit_def upd_channel_def
  set_interest_def logged_send_def send_def sendInLoop_eq writes_direct_def IsEnableWriteEvent_def
  send_direct_def send_rest_def check_highWaterMark_def log_handed_def Let_def

lemma conn2_up: "\<exists>s. conn_exec (user_callbacks user2) AEstablish conn2 = Inr s \<and> state s = KConnected \<and>
    wire s = [5] \<and> handed s = [5, 6] \<and> content (outputBuffer s) = [6] \<and> inputBuffer s = buffer_new KInitSize \<and>
    length (buf (outputBuffer s)) = 1024"
proof -
  obtain ob where "append [6] (buffer_new KInitSize) = Inr ob" "wf_buffer ob" "content ob = [6]" "length (buf ob) = 1024"
    by (rule append_new [of "[6]"]) auto
  moreover have "readableBytes (buffer_new KInitSize) = 0" 
    by (simp add: readableBytes_def buffer_new_def)
  ultimately show ?thesis
    by (simp add: run_conn mem2_def)
qed

text \<open>And one that sends both bytes, then shuts down.\<close>

definition user3 :: user_prog where
  "user3 = (mem2, \<lambda>c. if c = OnConnection then [USend 8 2 (Wrote 2), UShutdown] else [])"

lemma user3_ok: "user_ok user3"
  by (simp add: user_ok_def user3_def write_ok_def vec_max_size_def mem2_def)

lemma readable_new [simp]: "readableBytes (buffer_new n) = 0"
  by (simp add: readableBytes_def buffer_new_def)

lemma conn3_up: "\<exists>s. conn_exec (user_callbacks user3) AEstablish conn2 = Inr s \<and> state s = KDisconnecting \<and>
    wire s = [5, 6] \<and> EShutdownWrite \<in> set (effects s)"
  by (simp add: run_conn user3_def mem2_def shutdown_def shutdownInLoop_def event_masks)

section \<open>The stream\<close>


lemma conn2_history: "acts_ok (user_callbacks user2) [AEstablish] conn2"
  by (simp add: conn2_def TcpConnection_def split: sum.splits)


text \<open>C10: while a connection is up, its channel asks for write events exactly while bytes wait in
  \<open>outputBuffer_\<close>: none wait without an event to come, and the poller does not report an idle
  socket over and over.\<close>

theorem tcp_write_interest:
  assumes "user_ok u" and "acts_ok (user_callbacks u) as (TcpConnection fd hw)"
    and "rfold (conn_exec (user_callbacks u)) as (TcpConnection fd hw) = Inr s"
    and "state s = KConnected \<or> state s = KDisconnecting"
  shows "IsEnableWriteEvent (channel s) \<longleftrightarrow> content (outputBuffer s) \<noteq> []"
  using conn_from_new [OF assms(1-3)] conn_inv_facts(5) [OF _ assms(4)]
  by (simp add: conn_ok_def IsEnableWriteEvent_def)

theorem tcp_write_interest_witness:
  "\<exists>s. rfold (conn_exec (user_callbacks user2)) [AEstablish] conn2 = Inr s \<and> IsEnableWriteEvent (channel s)"
proof -
  obtain s where s: "conn_exec (user_callbacks user2) AEstablish conn2 = Inr s" "state s = KConnected"
    "content (outputBuffer s) = [6]"
    using conn2_up by blast
  then show ?thesis
    using tcp_write_interest [OF user2_ok, of "[AEstablish]" 9 65536 s] conn2_history by (simp add: conn2_def)
qed



text \<open>a connection only moves forward through connecting, connected, disconnecting and
  disconnected; what is on the wire and what was handed over is never taken back.\<close>

theorem tcp_state_forward:
  assumes "user_ok u" and "acts_ok (user_callbacks u) (as @ bs) (TcpConnection fd hw)"
    and "rfold (conn_exec (user_callbacks u)) as (TcpConnection fd hw) = Inr s"
    and "rfold (conn_exec (user_callbacks u)) (as @ bs) (TcpConnection fd hw) = Inr s'"
  shows "rank (state s) \<le> rank (state s') \<and> prefix (wire s) (wire s') \<and> prefix (handed s) (handed s')"
proof -
  have split: "acts_ok cbs as x \<and> acts_ok cbs bs y"
    if "acts_ok cbs (as @ bs) x" "rfold (conn_exec cbs) as x = Inr y" for cbs x y
    using that by (induction as arbitrary: x) (auto simp: rbind_Inr_iff)
  note both = split [OF assms(2,3)]
  have ok: "conn_ok s" using conn_from_new [OF assms(1) _ assms(3)] both by blast
  have "rfold (conn_exec (user_callbacks u)) bs s = Inr s'"
    using assms(3,4) by (simp add: rfold_append)
  then show ?thesis
    using conn_history [OF assms(1) ok] both by (fastforce simp: conn_fwd_def)
qed

theorem tcp_state_forward_witness:
  "\<exists>s s'. rfold (conn_exec (user_callbacks user2)) [AEstablish] conn2 = Inr s \<and>
     rfold (conn_exec (user_callbacks user2)) ([AEstablish] @ [AOtherForceClose]) conn2 = Inr s' \<and>
     rank (state s) \<le> rank (state s') \<and> prefix (wire s) (wire s') \<and> state s \<noteq> state s'"
proof -
  obtain s where s: "conn_exec (user_callbacks user2) AEstablish conn2 = Inr s" "state s = KConnected"
    using conn2_up by blast
  moreover from this have "rfold (conn_exec (user_callbacks user2)) ([AEstablish] @ [AOtherForceClose]) conn2 = Inr (forceClose s)"
    by simp
  moreover have "acts_ok (user_callbacks user2) ([AEstablish] @ [AOtherForceClose]) conn2"
    by (simp add: conn2_def TcpConnection_def split: sum.splits)
  moreover have "state (forceClose s) = KDisconnecting" using s(2) by (simp add: forceClose_def)
  ultimately show ?thesis
    using tcp_state_forward [OF user2_ok, of "[AEstablish]" "[AOtherForceClose]" 9 65536 s "forceClose s"]
    by (simp add: conn2_def)
qed

section \<open>Draining\<close>

text \<open>One write event of which the kernel takes \<open>k\<close> bytes or all.\<close>

lemma write_event_progress:
  assumes ok: "conn_ok s" "up (state s)" and k: "0 < k"
  shows "\<exists>s'. conn_exec cbs (AEvent POLLOUT ReadErr (Wrote k)) s = Inr s' \<and> conn_ok s' \<and> state s' = state s \<and>
    wire s' = wire s @ take k (content (outputBuffer s)) \<and> content (outputBuffer s') = drop k (content (outputBuffer s)) \<and>
    prefix (effects s) (effects s') \<and>
    (content (outputBuffer s) \<noteq> [] \<and> content (outputBuffer s') = [] \<and> state s = KDisconnecting \<longrightarrow>
       EShutdownWrite \<in> set (effects s'))"
proof -
  let ?c = "(channel s)\<lparr>rEvents := POLLOUT, eventHandling := True\<rparr>"
  let ?s = "s\<lparr>channel := ?c\<rparr>" and ?out = "content (outputBuffer s)"
  have inv: "conn_inv s" using ok(1) by (simp add: conn_ok_def)
  note facts = conn_inv_facts [OF inv ok(2)]
  have sok: "conn_ok ?s"
    by (rule conn_ok_channel) (use ok(1) in \<open>auto simp: conn_ok_def conn_inv_def wired_def\<close>)
  have masks: "POLLOUT AND POLLHUP = 0" "POLLOUT AND (POLLIN OR POLLPRI OR POLLRDHUP) = 0" "POLLOUT AND POLLOUT \<noteq> 0"
    by (simp_all add: poll_bits)
  have run: "conn_exec cbs (AEvent POLLOUT ReadErr (Wrote k)) s =
      rbind (handleWirte True (Wrote (min k (length ?out))) ?s) (\<lambda>s3. Inr (conn_upd (set_handling 0 False) s3))"
    using facts(3) masks facts(1)
    by (simp add: conn_HandleEvent_eq conn_upd_handling call_if_def SetReceiveEvent_def wired_def)
  show ?thesis
  proof (cases "?out = []")
    case True
    then have "\<not> IsEnableWriteEvent ?c" using facts(5) by (simp add: IsEnableWriteEvent_def)
    then show ?thesis
      using True sok conn_ok_handling [of ?s False] unfolding run
      by (simp add: handleWirte_def) (simp add: conn_upd_handling)
  next
    case False
    then have en: "IsEnableWriteEvent ?c" using facts(5) by (simp add: IsEnableWriteEvent_def)
    let ?n = "min k (length ?out)"
    obtain ob where ob: "retrieve ?n (outputBuffer s) = Inr ob" "wf_buffer ob" "content ob = drop ?n ?out"
      using retrieve_spec [OF facts(1), of ?n] by (cases "retrieve ?n (outputBuffer s)") auto
    have n: "0 < ?n" "?n \<le> length ?out" using k False by auto
    have post: "conn_post ?s (handleWirte True (Wrote ?n) ?s)"
      by (rule handleWirte_post [OF sok]) (use ok(2) facts(1) in auto)
    have "\<exists>s3. handleWirte True (Wrote ?n) ?s = Inr s3 \<and> state s3 = state s \<and>
        wire s3 = wire s @ take ?n ?out \<and> content (outputBuffer s3) = drop ?n ?out \<and>
        (drop ?n ?out = [] \<and> state s = KDisconnecting \<longrightarrow> EShutdownWrite \<in> set (effects s3))"
      using en n ob facts(1)
      by (auto simp: handleWirte_def peek_content Let_def shutdownInLoop_def IsEnableWriteEvent_def set_interest_def)
    then obtain s3 where s3: "handleWirte True (Wrote ?n) ?s = Inr s3" "state s3 = state s"
      "wire s3 = wire s @ take ?n ?out" "content (outputBuffer s3) = drop ?n ?out"
      "drop ?n ?out = [] \<and> state s = KDisconnecting \<longrightarrow> EShutdownWrite \<in> set (effects s3)"
      by blast
    have le: "conn_ok s3" "conn_le ?s s3" using post s3(1) by simp_all
    have tk: "take ?n ?out = take k ?out" "drop ?n ?out = drop k ?out" by (simp_all add: min_def)
    have "conn_ok (conn_upd (set_handling 0 False) s3)" using le(1) by (rule conn_ok_handling)
    then show ?thesis
      using s3 tk le(2) unfolding run by (auto simp: conn_le_def) (auto simp: conn_upd_handling)
  qed
qed

text \<open>C14: as long as the socket takes at least one byte per write event, as many write events as
  there are waiting bytes send them all, in order, after what is on the wire already; writing is then switched
  off, and a pending shutdown is carried out.\<close>

theorem tcp_drains:
  assumes "user_ok u" and "acts_ok (user_callbacks u) as (TcpConnection fd hw)"
    and "rfold (conn_exec (user_callbacks u)) as (TcpConnection fd hw) = Inr s"
    and "state s = KConnected \<or> state s = KDisconnecting"
    and "\<forall>k \<in> set ks. 0 < k" and "length (content (outputBuffer s)) \<le> length ks"
  shows "\<exists>s'. rfold (conn_exec (user_callbacks u)) (map (\<lambda>k. AEvent POLLOUT ReadErr (Wrote k)) ks) s = Inr s' \<and>
    wire s' = handed s \<and> content (outputBuffer s') = [] \<and> \<not> IsEnableWriteEvent (channel s') \<and>
    (content (outputBuffer s) \<noteq> [] \<and> state s = KDisconnecting \<longrightarrow> EShutdownWrite \<in> set (effects s'))"
proof -
  let ?cbs = "user_callbacks u"
  have "\<exists>s'. rfold (conn_exec ?cbs) (map (\<lambda>k. AEvent POLLOUT ReadErr (Wrote k)) ks) t = Inr s' \<and> conn_ok s' \<and>
      state s' = state t \<and> wire s' = wire t @ content (outputBuffer t) \<and> content (outputBuffer s') = [] \<and>
      prefix (effects t) (effects s') \<and>
      (content (outputBuffer t) \<noteq> [] \<and> state t = KDisconnecting \<longrightarrow> EShutdownWrite \<in> set (effects s'))"
    if "conn_ok t" "up (state t)" "\<forall>k \<in> set ks. 0 < k" "length (content (outputBuffer t)) \<le> length ks" for t
    using that
  proof (induction ks arbitrary: t)
    case (Cons k ks)
    then obtain t1 where t1: "conn_exec ?cbs (AEvent POLLOUT ReadErr (Wrote k)) t = Inr t1" "conn_ok t1" "state t1 = state t"
      "wire t1 = wire t @ take k (content (outputBuffer t))" "content (outputBuffer t1) = drop k (content (outputBuffer t))"
      "prefix (effects t) (effects t1)"
      "content (outputBuffer t) \<noteq> [] \<and> content (outputBuffer t1) = [] \<and> state t = KDisconnecting \<longrightarrow>
         EShutdownWrite \<in> set (effects t1)"
      using write_event_progress [OF Cons.prems(1,2), of k ?cbs] Cons.prems(3) by (metis list.set_intros(1))
    have "length (content (outputBuffer t1)) \<le> length ks" using Cons.prems(3,4) t1(5) by (cases k) auto
    then obtain s' where s': "rfold (conn_exec ?cbs) (map (\<lambda>k. AEvent POLLOUT ReadErr (Wrote k)) ks) t1 = Inr s'" "conn_ok s'"
      "state s' = state t1" "wire s' = wire t1 @ content (outputBuffer t1)" "content (outputBuffer s') = []"
      "prefix (effects t1) (effects s')"
      "content (outputBuffer t1) \<noteq> [] \<and> state t1 = KDisconnecting \<longrightarrow> EShutdownWrite \<in> set (effects s')"
      using Cons.IH [of t1] Cons.prems t1 by auto
    have "set (effects t1) \<subseteq> set (effects s')" using s'(6) by (auto simp: prefix_def)
    then show ?case
      using t1 s' by (auto intro: prefix_order.trans simp del: conn_exec.simps)
  qed simp
  from this [OF conn_from_new [OF assms(1-3)] assms(4-6)] obtain s' where
    s': "rfold (conn_exec ?cbs) (map (\<lambda>k. AEvent POLLOUT ReadErr (Wrote k)) ks) s = Inr s'" "conn_ok s'" "state s' = state s"
    "wire s' = wire s @ content (outputBuffer s)" "content (outputBuffer s') = []"
    "content (outputBuffer s) \<noteq> [] \<and> state s = KDisconnecting \<longrightarrow> EShutdownWrite \<in> set (effects s')"
    by blast
  have "\<not> IsEnableWriteEvent (channel s')"
    using conn_inv_facts(5) [of s'] s'(2,3,5) assms(4) by (auto simp: conn_ok_def IsEnableWriteEvent_def)
  moreover have "handed s = wire s @ content (outputBuffer s)"
    using conn_from_new [OF assms(1-3)] by (simp add: conn_ok_def)
  ultimately show ?thesis using s' by simp
qed

theorem tcp_drains_witness:
  "\<exists>s s'. rfold (conn_exec (user_callbacks user2)) [AEstablish] conn2 = Inr s \<and> wire s = [5] \<and>
     rfold (conn_exec (user_callbacks user2)) (map (\<lambda>k. AEvent POLLOUT ReadErr (Wrote k)) [3]) s = Inr s' \<and> wire s' = [5, 6]"
proof -
  obtain s where s: "conn_exec (user_callbacks user2) AEstablish conn2 = Inr s" "state s = KConnected" "wire s = [5]"
    "handed s = [5, 6]" "content (outputBuffer s) = [6]"
    using conn2_up by blast
  have "\<exists>s'. rfold (conn_exec (user_callbacks user2)) (map (\<lambda>k. AEvent POLLOUT ReadErr (Wrote k)) [3]) s = Inr s' \<and> wire s' = handed s"
    using tcp_drains [OF user2_ok, of "[AEstablish]" 9 65536 s "[3]"] conn2_history s by (auto simp add: conn2_def simp del: conn_exec.simps)
  then show ?thesis using s by (auto simp del: conn_exec.simps)
qed

section \<open>Back pressure and the echo\<close>

text \<open>A send behind bytes that wait already: all of it joins them.\<close>

lemma check_highWaterMark_simps [simp]:
  "outputBuffer (check_highWaterMark n s) = outputBuffer s" "channel (check_highWaterMark n s) = channel s"
  by (simp_all add: check_highWaterMark_def Let_def)

lemma send_behind:
  assumes "state s = KConnected" "IsEnableWriteEvent (channel s)" "read_mem mem data len = Inr bs" "0 < len"
  shows "send True mem data len w s =
    rbind (append bs (outputBuffer s)) (\<lambda>ob. Inr ((check_highWaterMark len s)\<lparr>outputBuffer := ob\<rparr>))"
  using assms by (simp add: send_def sendInLoop_eq writes_direct_def send_rest_def Let_def)

text \<open>the high-water callback fires on the rising edge only: when bytes already wait, a send queues
  it exactly if the bytes waiting were below the mark before and are not after, with the new
  number of waiting bytes; it queues nothing else.\<close>

theorem send_high_water:
  assumes "conn_ok s" and "state s = KConnected" and "content (outputBuffer s) \<noteq> []"
    and "read_mem mem data len = Inr bs" and "0 < len" "len \<le> vec_max_size"
    and "send True mem data len w s = Inr s'"
  shows "effects s' = effects s @
      (if highWaterMarkCallback s \<and> length (content (outputBuffer s)) < highWaterMark s \<and>
          highWaterMark s \<le> length (content (outputBuffer s'))
       then [EQueue (FHighWater (length (content (outputBuffer s'))))] else [])"
proof -
  have inv: "conn_inv s" using assms(1) by (simp add: conn_ok_def)
  have up: "up (state s)" using assms(2) by simp
  note facts = conn_inv_facts [OF inv up]
  have en: "IsEnableWriteEvent (channel s)" using facts(5) assms(3) by (simp add: IsEnableWriteEvent_def)
  have len: "length bs = len" using read_mem_length [OF assms(4)] .
  have bs_max: "length bs \<le> vec_max_size" using len assms(6) by simp
  obtain ob where ob: "append bs (outputBuffer s) = Inr ob" "s' = (check_highWaterMark len s)\<lparr>outputBuffer := ob\<rparr>"
    using assms(7) send_behind [OF assms(2) en assms(4,5)] by (auto simp: rbind_Inr_iff)
  note obs = append_Inr [OF ob(1) facts(1) bs_max]
  have "length (content (outputBuffer s)) < 2 ^ 63"
    using wf_bufferD [OF facts(1)] by (simp add: length_content [OF facts(1)])
  then have "size_add (length (content (outputBuffer s))) len = length (content ob)"
    using obs(2) len assms(6) by (simp add: vec_max_size_def)
  then show ?thesis
    using facts(1) by (auto simp: ob(2) check_highWaterMark_def Let_def)
qed

theorem send_high_water_witness:
  "\<exists>s s'. send True mem2 8 2 (Wrote 0) s = Inr s' \<and> effects s' = effects s @ [EQueue (FHighWater 3)]"
proof -
  obtain s where s: "conn_exec (user_callbacks user2) AEstablish conn2 = Inr s" "state s = KConnected"
    "content (outputBuffer s) = [6]" "length (buf (outputBuffer s)) = 1024"
    using conn2_up by blast
  let ?s = "setHighWaterMarkCallback 3 s"
  have ok: "conn_ok s" "conn_ok ?s"
    using conn_from_new [OF user2_ok, of "[AEstablish]" 9 65536 s] conn2_history s(1)
    by (simp_all add: conn2_def setHighWaterMarkCallback_def conn_ok_def conn_inv_def)
  have up: "up (state s)" and inv: "conn_inv s" using s(2) ok(1) by (simp_all add: conn_ok_def)
  have st: "state ?s = KConnected" "outputBuffer ?s = outputBuffer s" "highWaterMark ?s = 3" "highWaterMarkCallback ?s"
    "IsEnableWriteEvent (channel ?s)"
    using conn_inv_facts(5) [OF inv up] s(2,3) by (simp_all add: setHighWaterMarkCallback_def IsEnableWriteEvent_def)
  have rd: "read_mem mem2 8 2 = Inr [5, 6]" by (simp add: mem2_def)
  obtain ob where ob: "append [5, 6] (outputBuffer s) = Inr ob"
    using append_fits [OF conn_inv_facts(1) [OF inv up], of "[5, 6]"] s(4) by (auto simp: vec_max_size_def)
  then have "content ob = [6, 5, 6]"
    using append_Inr [OF ob conn_inv_facts(1) [OF inv up]] s(3) by (simp add: vec_max_size_def)
  moreover have run: "send True mem2 8 2 (Wrote 0) ?s = Inr ((check_highWaterMark 2 ?s)\<lparr>outputBuffer := ob\<rparr>)"
    using send_behind [OF st(1,5) rd] ob st(2) by simp
  ultimately show ?thesis
    using send_high_water [OF ok(2) st(1) _ rd _ _ run] st s(3) run by (force simp: vec_max_size_def)
qed

lemma logged_send_takes:
  assumes "conn_ok s" "state s = KConnected" "read_mem mem data len = Inr bs" "len \<le> vec_max_size"
    and "k \<le> len" and "logged_send mem data len (Wrote k) s = Inr s'"
  shows "handed s' = handed s @ bs \<and> inputBuffer s' = inputBuffer s \<and> state s' = state s"
proof -
  have keep: "send_direct mem data len (Wrote k) t = Inr (n, r, e, t') \<Longrightarrow> handed t' = handed t \<and> inputBuffer t' = inputBuffer t \<and> state t' = state t"
    for t t' n r e
    by (auto simp: send_direct_def rbind_Inr_iff Let_def split: if_splits)
  have rest: "send_rest mem data n r t = Inr t' \<Longrightarrow> handed t' = handed t \<and> inputBuffer t' = inputBuffer t \<and> state t' = state t" for t t' n r
    by (auto simp: send_rest_def check_highWaterMark_def rbind_Inr_iff Let_def split: if_splits)
  obtain s1 where s1: "sendInLoop True mem data len (Wrote k) s = Inr s1" "s' = log_handed mem data len (Wrote k) s s1"
    using assms(2,6) by (auto simp: logged_send_def send_def rbind_Inr_iff)
  have "handed s1 = handed s \<and> inputBuffer s1 = inputBuffer s \<and> state s1 = state s"
    using s1(1) assms(2)
    by (auto simp: sendInLoop_eq rbind_Inr_iff cassert_Inr_iff split: if_splits dest!: keep rest)
  then show ?thesis using s1(2) assms(2,3) by (simp add: log_handed_def)
qed

text \<open>With the default message callback the server echoes: after a read event on a connected
  socket, what was unread and the bytes just read have been handed to \<open>send\<close>, in order, and
  nothing stays in \<open>inputBuffer_\<close>.\<close>

lemma echo_returns_input:
  assumes "conn_ok s" and "state s = KConnected" and "bytes \<noteq> []" and "read_ok (ReadOk bytes) s"
    and "cbs OnMessage = defaultMessageCallback (Wrote k)" and "handleRead True cbs (ReadOk bytes) s = Inr s'"
  shows "handed s' = handed s @ content (inputBuffer s) @ bytes \<and> content (inputBuffer s') = [] \<and> state s' = state s"
proof -
  have wf: "wf_buffer (inputBuffer s)" using assms(1) by (simp add: conn_ok_def conn_inv_def)
  obtain r ib where ib: "readFd (ReadOk bytes) (inputBuffer s) = Inr (r, ib)"
    using assms(6) by (auto simp: handleRead_def rbind_Inr_iff)
  have ibs: "wf_buffer ib" "content ib = content (inputBuffer s) @ bytes" "0 < nat (r mod 2 ^ 64)"
    using readFd_spec [OF wf, of bytes] readFd_conn [OF assms(1,4)] assms(3,4) ib by (auto simp: read_ok_def)
  let ?s = "emit (ECall OnMessage) (s\<lparr>inputBuffer := ib\<rparr>)" and ?str = "content ib"
  have run: "defaultMessageCallback (Wrote k) ?s = Inr s'"
    using assms(5,6) ib ibs(3) by (simp add: handleRead_def Let_def call_def)
  obtain ib2 where ib2: "retrieveAllAsString ib = Inr (?str, ib2)" "wf_buffer ib2" "content ib2 = []"
    using retrieveAsString_spec [OF ibs(1), of "length ?str"] ibs(1)
    by (cases "retrieveAsString (length ?str) ib") (auto simp: retrieveAllAsString_def)
  have "conn_ok (?s\<lparr>inputBuffer := ib2\<rparr>)"
    using assms(1) ib2(2) by (simp add: conn_ok_def conn_inv_def chan_run_append)
  moreover have "length ?str \<le> vec_max_size" using wf_bufferD [OF ibs(1)] by (simp add: length_content [OF ibs(1)])
  moreover have "logged_send (string_mem ?str) 0 (length ?str) (Wrote (min k (length ?str))) (?s\<lparr>inputBuffer := ib2\<rparr>) = Inr s'"
    using run ib2(1) by (simp add: defaultMessageCallback_def)
  ultimately have "handed s' = handed s @ ?str \<and> inputBuffer s' = ib2 \<and> state s' = state s"
    using logged_send_takes [of "?s\<lparr>inputBuffer := ib2\<rparr>" "string_mem ?str" 0 "length ?str" ?str "min k (length ?str)" s']
      assms(2) by (simp add: read_string_mem)
  then show ?thesis using ibs(2) ib2(3) by simp
qed

definition user0 :: user_prog where
  "user0 = (mem2, \<lambda>c. [])"

lemma user0_ok: "user_ok user0"
  by (simp add: user_ok_def user0_def)

text \<open>An idle connection.\<close>

lemma conn_idle: "\<exists>s. conn_exec (user_callbacks user0) AEstablish conn2 = Inr s \<and> conn_ok s \<and> state s = KConnected \<and>
    handed s = [] \<and> wire s = [] \<and> outputBuffer s = buffer_new KInitSize \<and> inputBuffer s = buffer_new KInitSize \<and>
    \<not> IsEnableWriteEvent (channel s) \<and> wired (channel s)"
proof -
  have "acts_ok (user_callbacks user0) [AEstablish] conn2"
    by (simp add: conn2_def TcpConnection_def split: sum.splits)
  from conn_history [OF user0_ok conn_ok_new this [unfolded conn2_def]] show ?thesis
    by (simp add: run_conn user0_def wired_def event_masks)
qed

section \<open>Where the code does something else\<close>

text \<open>C33: a direct write answered \<open>EWOULDBLOCK\<close> leaves \<open>nWrote\<close> at -1, and the bytes that go to
  \<open>outputBuffer_\<close> start one before the data: the byte in front of the caller's buffer is
  sent and the last byte is not.\<close>

theorem send_ewouldblock:
  assumes "conn_ok s" and "state s = KConnected" and "content (outputBuffer s) = []"
    and "read_mem mem (data - 1) (Suc len) = Inr (b # bs)" and "0 < len" "len \<le> vec_max_size"
    and "send True mem data len (WriteErr EWOULDBLOCK) s = Inr s'"
  shows "read_mem mem data len = Inr bs \<and> content (outputBuffer s') = b # butlast bs"
proof -
  have inv: "conn_inv s" using assms(1) by (simp add: conn_ok_def)
  have up: "up (state s)" using assms(2) by simp
  have no: "EShutdownWrite \<notin> set (effects s)" using inv assms(2) by (simp add: conn_inv_def out_ok_def)
  have wd: "writes_direct s" using writes_direct_iff [OF inv up] assms(3) by simp
  have bs: "read_mem mem data len = Inr bs" "mem (data - 1) = Some b"
    using assms(4) by (auto simp: rbind_Inr_iff split: option.splits)
  have lbs: "length bs = len" using read_mem_length [OF bs(1)] .
  have pre: "read_mem mem a n = Inr (take n xs)" if "read_mem mem a m = Inr xs" "n \<le> m" for a n m xs
    using that
  proof (induction n arbitrary: a m xs)
    case (Suc n)
    then obtain m' where m': "m = Suc m'" by (cases m) auto
    then show ?case using Suc by (auto simp: rbind_Inr_iff split: option.splits)
  qed simp
  have rd: "read_mem mem (data + - 1) len = Inr (b # butlast bs)"
    using pre [OF assms(4), of len] lbs assms(5) by (cases len) (simp_all add: butlast_conv_take)
  have run: "send True mem data len (WriteErr EWOULDBLOCK) s = send_rest mem data (- 1) len s"
    using assms(2,5) wd bs by (simp add: send_def sendInLoop_eq send_direct_def)
  show ?thesis
    using send_rest_spec [OF inv up rd _ assms(6) no] assms(3,7) bs(1) by (simp add: run)
qed

theorem send_ewouldblock_witness:
  "\<exists>s s'. send True mem2 8 2 (WriteErr EWOULDBLOCK) s = Inr s' \<and> content (outputBuffer s') = [3, 5]"
proof -
  obtain s where s: "conn_ok s" "state s = KConnected" "outputBuffer s = buffer_new KInitSize"
    "\<not> IsEnableWriteEvent (channel s)"
    using conn_idle by blast
  obtain ob where "append [3, 5] (buffer_new KInitSize) = Inr ob"
    by (rule append_new [of "[3, 5]"]) auto
  then have "\<exists>s'. send True mem2 8 2 (WriteErr EWOULDBLOCK) s = Inr s'"
    using s by (simp add: send_def sendInLoop_eq writes_direct_def send_direct_def send_rest_def Let_def mem2_def)
  then obtain s' where s': "send True mem2 8 2 (WriteErr EWOULDBLOCK) s = Inr s'" by blast
  have "read_mem mem2 (8 - 1) (Suc 2) = Inr (3 # [5, 6])" by (simp add: mem2_def)
  from send_ewouldblock [OF s(1,2) _ this _ _ s'] show ?thesis
    using s(3) s' by (auto simp: vec_max_size_def)
qed

text \<open>A hangup reported together with a read event but without \<open>POLLIN\<close> closes the connection in
  the close callback, and the read callback then closes it again: on the end of the stream the
  assertion of \<open>handleClose\<close> fails.\<close>

theorem hangup_closes_twice:
  assumes "user_ok u" and "conn_ok s" and "state s = KConnected \<or> state s = KDisconnecting"
    and "hup_and_read (rEvents (channel s))"
  shows "case conn_HandleEvent (user_callbacks u) (ReadOk []) w s of
      Inl e \<Rightarrow> e = AssertFail \<or> e = LengthError | Inr s' \<Rightarrow> False"
proof -
  let ?cbs = "user_callbacks u" and ?s = "conn_upd (set_handling 0 True) s" and ?r = "rEvents (channel s)"
  have s: "conn_ok ?s" "up (state ?s)"
    using assms(2,3) by (auto simp: conn_ok_handling) (auto simp: conn_upd_handling)
  have r: "?r AND POLLHUP \<noteq> 0" "?r AND POLLIN = 0" "?r AND (POLLIN OR POLLPRI OR POLLRDHUP) \<noteq> 0"
    using assms(4) by (simp_all add: hup_and_read_def)
  note close = cu.handleClose_post [OF assms(1) s]
  show ?thesis
  proof (cases "handleClose True ?cbs ?s")
    case (Inl e)
    then show ?thesis using close(1) r(1,2) dispatch_wired [OF assms(2)] by (simp add: conn_HandleEvent_eq call_if_def)
  next
    case (Inr s1)
    have s1: "conn_ok s1" "conn_le ?s s1" "state s1 = KDisconnected" using close Inr by auto
    have "rEvents (channel s1) = ?r"
      using s1(2) conn_le_handling [of s True] by (simp add: conn_le_def same_dispatch_def)
    moreover have "\<exists>e. handleRead True ?cbs (ReadOk []) s1 = Inl e \<and> (e = AssertFail \<or> e = LengthError)"
    proof -
      have "read_ok (ReadOk []) s1" by (simp add: read_ok_def)
      from readFd_conn [OF s1(1) this] show ?thesis
        using s1(3) by (auto simp: handleRead_def Let_def handleClose_def split: sum.splits)
    qed
    ultimately show ?thesis
      using Inr r dispatch_wired [OF assms(2)] dispatch_wired [OF s1(1)] by (auto simp: conn_HandleEvent_eq call_if_def)
  qed
qed

theorem hangup_closes_twice_witness:
  "\<exists>s e. conn_HandleEvent (user_callbacks user0) (ReadOk []) (Wrote 0) s = Inl e \<and> conn_ok s"
proof -
  obtain s where s: "conn_ok s" "state s = KConnected" using conn_idle by blast
  let ?s = "s\<lparr>channel := SetReceiveEvent (POLLHUP OR POLLRDHUP) (channel s)\<rparr>"
  have ok: "conn_ok ?s"
    by (rule conn_ok_channel) (use s(1) in \<open>auto simp: conn_ok_def conn_inv_def wired_def SetReceiveEvent_def\<close>)
  have "hup_and_read (rEvents (channel ?s))" by (simp add: hup_and_read_def SetReceiveEvent_def poll_bits)
  then have "case conn_HandleEvent (user_callbacks user0) (ReadOk []) (Wrote 0) ?s of
      Inl e \<Rightarrow> e = AssertFail \<or> e = LengthError | Inr s' \<Rightarrow> False"
    using s(2) by (intro hangup_closes_twice [OF user0_ok ok]) auto
  then show ?thesis using ok by (auto split: sum.splits)
qed

text \<open>\<open>ConnectDestoryed\<close> on a connection that is still disconnecting removes a channel whose
  events are not off, and leaves the state for the destructor's assertion to fail on.\<close>

theorem destroy_half_closed:
  assumes "state s = KDisconnecting" and "ConnectDestoryed True cbs s = Inr s'"
  shows "effects s' = effects s @ [ERemove] \<and> channel s' = channel s \<and> conn_delete s' = Inl AssertFail"
  using assms by (auto simp: ConnectDestoryed_def conn_delete_def cassert_def)

theorem destroy_half_closed_witness:
  "\<exists>s s'. ConnectDestoryed True (user_callbacks user3) s = Inr s' \<and> conn_delete s' = Inl AssertFail"
proof -
  obtain s :: conn where s: "state s = KDisconnecting" using conn3_up by blast
  then have r: "ConnectDestoryed True (user_callbacks user3) s = Inr (emit ERemove s)" by (simp add: ConnectDestoryed_def)
  from destroy_half_closed [OF s r] show ?thesis using r by blast
qed

text \<open>A failed read runs the message callback, like one that brought data.\<close>

lemma handleRead_error: "handleRead inLoop cbs ReadErr s = call cbs OnMessage s"
  by (simp add: handleRead_def readFd_def Let_def)

end
