(* ===== verification/Tcp_Close.thy ===== *)
theory Tcp_Close
  imports Tcp_Connection
begin

text \<open>
  When a connection calls its close callback: exactly once, in the step that disconnects it.
  \<open>Tcp_Server\<close> and \<open>Tcp_Client\<close>, which learn of the end of a connection from that callback, rest on this.
\<close>

definition closes :: "conn \<Rightarrow> nat" where
  "closes s = length (filter ((=) (ECall OnClose)) (effects s))"

text \<open>An operation that neither disconnects nor calls the close callback.\<close>

definition no_close :: "conn \<Rightarrow> conn \<Rightarrow> bool" where
  "no_close s s' \<longleftrightarrow> closes s' = closes s \<and> (state s' = KDisconnected \<longleftrightarrow> state s = KDisconnected)"

lemma no_close_refl [simp]: "no_close s s"
  by (simp add: no_close_def)

lemma no_close_emit [simp]: "e \<noteq> ECall OnClose \<Longrightarrow> no_close s (emit e s)"
  by (auto simp: no_close_def closes_def)

lemma no_close_upd [simp]: "no_close s (upd_channel x s)"
  by (auto simp: no_close_def closes_def)

lemma closes_fields [simp]:
  "closes (s\<lparr>state := st\<rparr>) = closes s" "closes (s\<lparr>channel := c\<rparr>) = closes s" "closes (s\<lparr>inputBuffer := b\<rparr>) = closes s"
  "closes (s\<lparr>outputBuffer := b\<rparr>) = closes s" "closes (s\<lparr>wire := w\<rparr>) = closes s" "closes (s\<lparr>handed := h\<rparr>) = closes s"
  "closes (s\<lparr>writeCompleteCallback := x\<rparr>) = closes s" "closes (s\<lparr>highWaterMarkCallback := x, highWaterMark := n\<rparr>) = closes s"
  by (simp_all add: closes_def)

section \<open>Relations that every operation respects\<close>

text \<open>A preorder on connections that holds across the smallest changes the operations make holds across
  every operation that does not close the connection.\<close>

locale conn_relation =
  fixes R :: "conn \<Rightarrow> conn \<Rightarrow> bool"
  assumes refl: "R s s"
    and trans: "R s t \<Longrightarrow> R t v \<Longrightarrow> R s v"
    and emits: "(\<And>x. e \<noteq> EChannel x) \<Longrightarrow> e \<noteq> ECall OnClose \<Longrightarrow> e \<noteq> ERemove \<Longrightarrow> R s (emit e s)"
    and upd: "R s (upd_channel x s)"
    and fields: "R s (s\<lparr>inputBuffer := b\<rparr>)" "R s (s\<lparr>outputBuffer := b\<rparr>)" "R s (s\<lparr>wire := w\<rparr>)" "R s (s\<lparr>handed := h\<rparr>)"
    and disconnecting: "up (state s) \<Longrightarrow> R s (s\<lparr>state := KDisconnecting\<rparr>)"
begin

lemma sys_write: "sys_write bs w s = Inr (n, s') \<Longrightarrow> R s s'"
  by (cases w) (auto simp: refl fields split: if_splits)

lemma direct: "send_direct mem data len w s = Inr (n, r, e, s') \<Longrightarrow> R s s'"
  by (auto simp: send_direct_def rbind_Inr_iff Let_def dest!: sys_write intro: trans emits split: if_splits)

lemma rest: "send_rest mem data n r s = Inr s' \<Longrightarrow> R s s'"
proof -
  assume "send_rest mem data n r s = Inr s'"
  then obtain ob where s': "s' = (let s2 = (check_highWaterMark r s)\<lparr>outputBuffer := ob\<rparr>
      in if \<not> IsEnableWriteEvent (channel s2) then upd_channel EnableWriteEvent s2 else s2)"
    by (auto simp: send_rest_def Let_def rbind_Inr_iff)
  have "R s (check_highWaterMark r s)" by (auto simp: check_highWaterMark_def Let_def intro: emits refl)
  then have "R s ((check_highWaterMark r s)\<lparr>outputBuffer := ob\<rparr>)" using fields(2) by (rule trans)
  then show ?thesis unfolding s' Let_def by (auto intro: trans upd)
qed

lemma sends: "sendInLoop b mem data len w s = Inr s' \<Longrightarrow> R s s'"
  by (auto simp: sendInLoop_def result_iffs Let_def refl split: if_splits dest!: direct rest intro: trans)

lemma logs: "R s s' \<Longrightarrow> R s (log_handed mem data len w t s')"
  by (auto simp: log_handed_def intro: trans fields)

lemma logged_sends: "logged_send mem data len w s = Inr s' \<Longrightarrow> R s s'"
  by (auto simp: logged_send_def send_def rbind_Inr_iff refl dest: sends intro: logs split: if_splits)

lemma shuts: "shutdownInLoop b s = Inr s' \<Longrightarrow> R s s'"
  by (auto simp: shutdownInLoop_def result_iffs intro: emits refl split: if_splits)

lemma shutdowns: "shutdown b s = Inr s' \<Longrightarrow> R s s'"
  by (auto simp: shutdown_def Let_def refl split: if_splits dest!: shuts intro: trans [OF disconnecting] emits)

lemma forces: "R s (forceClose s)" "R s (forceCloseWithDelay d s)"
  by (auto simp: forceClose_def forceCloseWithDelay_def refl intro: trans [OF disconnecting] emits)

lemma echoes: "defaultMessageCallback w s = Inr s' \<Longrightarrow> R s s'"
  by (auto simp: defaultMessageCallback_def rbind_Inr_iff dest!: logged_sends intro: trans [OF fields(1)])

lemma ucall: "exec_conn_ucall mem x s = Inr s' \<Longrightarrow> R s s'"
  by (cases x) (auto simp: rbind_Inr_iff fields forces logged_sends shutdowns echoes)

lemma ucalls: "rfold (exec_conn_ucall mem) xs s = Inr s' \<Longrightarrow> R s s'"
  by (induction xs arbitrary: s) (auto simp: rbind_Inr_iff refl dest: ucall intro: trans)

lemma calls: "call (user_callbacks u) c s = Inr s' \<Longrightarrow> c \<noteq> OnClose \<Longrightarrow> R s s'"
  by (auto simp: call_def user_callbacks_def dest!: ucalls intro: trans [OF emits])

lemma writes:
  assumes "handleWirte b w s = Inr s'"
  shows "R s s'"
proof (cases "IsEnableWriteEvent (channel s)")
  case True
  define bs where "bs = peek (readableBytes (outputBuffer s)) (outputBuffer s)"
  obtain n s1 where sw: "sys_write bs w s = Inr (n, s1)" and b
    using assms True unfolding handleWirte_def bs_def [symmetric] by (auto simp: result_iffs)
  have s1: "R s s1" by (rule sys_write [OF sw])
  show ?thesis
  proof (cases "0 < n")
    case False
    then show ?thesis using assms True sw s1 \<open>b\<close> by (simp add: handleWirte_def bs_def)
  next
    case pos: True
    obtain ob where ob: "retrieve (nat n) (outputBuffer s1) = Inr ob"
      using assms True sw pos \<open>b\<close> by (auto simp: handleWirte_def bs_def rbind_Inr_iff)
    define s3 where "s3 = upd_channel DisableWriteEvent (s1\<lparr>outputBuffer := ob\<rparr>)"
    define s4 where "s4 = (if writeCompleteCallback s3 then emit (EQueue FWriteComplete) s3 else s3)"
    have s2: "R s (s1\<lparr>outputBuffer := ob\<rparr>)" by (rule trans [OF s1 fields(2)])
    then have "R s s3" unfolding s3_def by (rule trans) (rule upd)
    then have "R s s4" by (auto simp: s4_def intro: trans emits)
    moreover have "s' = s1\<lparr>outputBuffer := ob\<rparr> \<or> s' = s4 \<or> shutdownInLoop True s4 = Inr s'"
      using assms True sw pos ob \<open>b\<close>
      by (auto simp: handleWirte_def bs_def Let_def s3_def [symmetric] s4_def [symmetric] split: if_splits)
    ultimately show ?thesis using s2 by (auto dest: shuts intro: trans)
  qed
qed (use assms in \<open>simp add: handleWirte_def result_iffs refl\<close>)

end

interpretation nc: conn_relation no_close
  by unfold_locales (auto simp: no_close_def closes_def)

section \<open>Once, and only when disconnecting\<close>

definition close_inv :: "conn \<Rightarrow> bool" where
  "close_inv s \<longleftrightarrow> closes s = (if state s = KDisconnected then 1 else 0)"

lemma close_inv_no_close: "no_close s s' \<Longrightarrow> close_inv s \<Longrightarrow> close_inv s'"
  by (auto simp: close_inv_def no_close_def)

lemma close_inv_handleClose:
  assumes "handleClose b (user_callbacks u) s = Inr s'" "close_inv s"
  shows "close_inv s'"
proof -
  let ?t = "upd_channel DisableAllEvent (s\<lparr>state := KDisconnected\<rparr>)"
  obtain s1 where s1: "state s = KConnected \<or> state s = KDisconnecting" "call (user_callbacks u) OnConnection ?t = Inr s1"
    "s' = emit (ECall OnClose) s1"
    using assms(1) by (auto simp: handleClose_def result_iffs call_def user_callbacks_def)
  have "no_close ?t s1" using nc.calls [OF s1(2)] by simp
  then show ?thesis
    using s1(1,3) assms(2) by (auto simp: close_inv_def no_close_def closes_def)
qed

lemma close_inv_cb:
  assumes "exec_conn_cb (user_callbacks u) rv w cb s = Inr s'" "close_inv s"
  shows "close_inv s'"
proof (cases cb)
  case HandleRead
  then obtain ib where "call (user_callbacks u) OnMessage (s\<lparr>inputBuffer := ib\<rparr>) = Inr s' \<or>
      handleClose True (user_callbacks u) (s\<lparr>inputBuffer := ib\<rparr>) = Inr s'"
    using assms(1) by (auto simp: handleRead_def rbind_Inr_iff Let_def split: if_splits)
  moreover have "close_inv (s\<lparr>inputBuffer := ib\<rparr>)" using assms(2) by (simp add: close_inv_def)
  ultimately show ?thesis
    by (auto intro: close_inv_handleClose close_inv_no_close dest: nc.calls)
next
  case HandleWirte
  then show ?thesis using assms by (auto dest: nc.writes intro: close_inv_no_close)
next
  case HandleClose
  then show ?thesis using assms by (auto intro: close_inv_handleClose)
qed

lemma close_inv_call_if:
  "call_if b (exec_conn_cb (user_callbacks u) rv w) cb s = Inr s' \<Longrightarrow> close_inv s \<Longrightarrow> close_inv s'"
  by (auto simp: call_if_def dest: close_inv_cb split: if_splits option.splits)

lemma close_inv_channel [simp]: "close_inv (s\<lparr>channel := c\<rparr>) = close_inv s"
  by (simp add: close_inv_def)

lemma close_inv_event:
  assumes "conn_HandleEvent (user_callbacks u) rv w s = Inr s'" "close_inv s"
  shows "close_inv s'"
proof -
  have h: "close_inv (conn_upd (set_handling 0 b) t) = close_inv t" for b t by (simp add: conn_upd_handling)
  show ?thesis
    using assms unfolding conn_HandleEvent_eq
    by (auto simp: rbind_Inr_iff h dest!: close_inv_call_if)
qed

lemma close_inv_exec:
  assumes "conn_exec (user_callbacks u) a s = Inr s'" "close_inv s"
  shows "close_inv s'"
proof (cases a)
  case (AEvent r rv w)
  then show ?thesis using assms close_inv_event by simp
next
  case AEstablish
  then obtain t where "call (user_callbacks u) OnConnection t = Inr s'" "close_inv t"
    using assms by (auto simp: ConnectEstablished_def cassert_Inr_iff close_inv_def closes_def)
  then show ?thesis by (auto dest: nc.calls intro: close_inv_no_close)
next
  case (AFunctor f mem w)
  then show ?thesis
    using assms
    by (cases f) (auto simp: logged_sendInLoop_def forceCloseInLoop_def rbind_Inr_iff split: if_splits
        dest!: nc.sends nc.shuts
        intro: close_inv_handleClose close_inv_no_close nc.logs)
next
  case (ACall mem x)
  then show ?thesis using assms by (auto dest: nc.ucall intro: close_inv_no_close)
next
  case AOtherShutdown
  then show ?thesis using assms by (auto dest: nc.shutdowns intro: close_inv_no_close)
next
  case AOtherForceClose
  then show ?thesis using assms nc.forces(1) by (auto intro: close_inv_no_close)
next
  case (AOtherSend d n)
  then show ?thesis using assms by (auto simp: send_def split: if_splits intro: close_inv_no_close [OF no_close_emit])
qed (use assms in \<open>auto simp: setWriteCompleteCallback_def setHighWaterMarkCallback_def close_inv_def\<close>)

lemma close_inv_new: "close_inv (TcpConnection fd hw)"
  by (simp add: close_inv_def closes_def TcpConnection_def)

section \<open>Steps of one connection\<close>

lemma establish_body:
  assumes "user_ok u" "conn_ok b" "close_inv b" "state b = KConnecting"
  shows "case ConnectEstablished True (user_callbacks u) b of
      Inl e \<Rightarrow> e = LengthError | Inr b' \<Rightarrow> conn_ok b' \<and> close_inv b' \<and> up (state b')"
proof (cases "ConnectEstablished True (user_callbacks u) b")
  case (Inl e)
  then show ?thesis using cu.established_post [OF assms(1,2,4)] by simp
next
  case (Inr b')
  let ?t = "upd_channel EnableReadEvent (b\<lparr>state := KConnected\<rparr>)"
  have "conn_inv (upd_channel EnableReadEvent (b\<lparr>state := KConnected, outputBuffer := outputBuffer b\<rparr>))"
    by (rule conn_inv_upd) (use assms(2,4) in \<open>auto simp: conn_ok_def conn_inv_def out_ok_def rank_def\<close>)
  then have "conn_ok ?t" using assms(2) by (simp add: conn_ok_def)
  moreover have run: "call (user_callbacks u) OnConnection ?t = Inr b'"
    using Inr assms(4) by (simp add: ConnectEstablished_def)
  ultimately have "conn_le ?t b'" using cu.call_post [OF assms(1), of ?t OnConnection] by simp
  then have "state b' \<noteq> KConnecting" using conn_le_started [of ?t b'] by simp
  moreover have "no_close ?t b'" using nc.calls [OF run] by simp
  then have "state b' \<noteq> KDisconnected" by (simp add: no_close_def)
  ultimately have "up (state b')" by (cases "state b'") auto
  moreover have "conn_exec (user_callbacks u) AEstablish b = Inr b'" using Inr by simp
  from close_inv_exec [OF this assms(3)] have "close_inv b'" .
  ultimately show ?thesis
    using Inr cu.established_post [OF assms(1,2,4)] by auto
qed

lemma connecting_stays:
  assumes "state b = KConnecting" "act_ok a b" "a \<noteq> AEstablish" "conn_exec cbs a b = Inr b'"
  shows "state b' = KConnecting"
  using assms by (cases a) (auto simp: setWriteCompleteCallback_def setHighWaterMarkCallback_def send_def shutdown_def forceClose_def)

lemma act_body:
  assumes "user_ok u" "conn_ok b" "close_inv b" "act_ok a b"
  shows "case conn_exec (user_callbacks u) a b of
      Inl e \<Rightarrow> e = LengthError
    | Inr b' \<Rightarrow> conn_ok b' \<and> close_inv b' \<and> rank (state b) \<le> rank (state b') \<and>
        closes b' - closes b = (if state b \<noteq> KDisconnected \<and> state b' = KDisconnected then 1 else 0)"
proof -
  have "case conn_exec (user_callbacks u) a b of Inl e \<Rightarrow> e = LengthError | Inr b' \<Rightarrow> conn_ok b' \<and> conn_fwd b b'"
    by (rule cu.act_post [OF assms(1) _ assms(2,4)]) (rule exec_conn_ucall_post)
  moreover have "close_inv b'" if "conn_exec (user_callbacks u) a b = Inr b'" for b'
    using close_inv_exec [OF that assms(3)] .
  ultimately show ?thesis
    using assms(3) by (auto simp: conn_fwd_def close_inv_def split: sum.splits)
qed

lemma destroy_body:
  "state b = KDisconnected \<Longrightarrow> ConnectDestoryed True cbs b = Inr (emit ERemove b)"
  by (simp add: ConnectDestoryed_def)

end
