(* ===== verification/Loop_Pool.thy ===== *)
theory Loop_Pool
  imports Prelude
begin

text \<open>
  \<open>net/EventLoopThread.cpp\<close>: how \<open>startLoop\<close> hands the loop of a new thread to its caller, and the
  destructor, as a step relation of the two threads. Each step is what one thread does while it holds \<open>mutex_\<close>, or
  without it. \<open>net/EventLoopThreadPool.cpp\<close>: the pool of loops and its round robin, with the addresses of
  the loops that \<open>startLoop\<close> returns as arguments.
\<close>

section \<open>One thread with its loop\<close>

text \<open>The caller is before \<open>startLoop\<close>, about to test the predicate of \<open>wait\<close>, asleep in it, or has
  returned; or it waits in the destructor's \<open>join\<close>, has destroyed the object, or has been ended by \<open>std::terminate\<close>.
  The thread does not exist, has been created, has constructed its loop and run
  \<open>callback_\<close>, has published the loop and runs it, or has ended. \<open>quit_\<close> is the member of its loop.\<close>

datatype caller = NotStarted | Testing | Asleep | Returned nat | Joining | Deleted | Terminated

datatype runner = NoThread | Created | Constructed | Looping | Ended

record loop_thread =
  caller :: caller
  runner :: runner
  loop_ptr :: "nat option"
  callback :: bool
  called_back :: bool
  quit :: bool

definition EventLoopThread :: "bool \<Rightarrow> loop_thread" where
  "EventLoopThread cb =
     \<lparr>caller = NotStarted, runner = NoThread, loop_ptr = None, callback = cb, called_back = False, quit = False\<rparr>"

text \<open>\<open>assert(!thread_)\<close>, then the thread is made.\<close>

definition startLoop_begin :: "loop_thread \<Rightarrow> loop_thread result" where
  "startLoop_begin s = cassert (runner s = NoThread) (Inr (s\<lparr>caller := Testing, runner := Created\<rparr>))"

definition startLoop_wait :: "loop_thread \<Rightarrow> loop_thread option" where
  "startLoop_wait s =
     (if caller s = Testing
      then Some (s\<lparr>caller := (case loop_ptr s of None \<Rightarrow> Asleep | Some l \<Rightarrow> Returned l)\<rparr>) else None)"

definition spurious_wakeup :: "loop_thread \<Rightarrow> loop_thread option" where
  "spurious_wakeup s = (if caller s = Asleep then Some (s\<lparr>caller := Testing\<rparr>) else None)"

definition threadFunc_construct :: "loop_thread \<Rightarrow> loop_thread option" where
  "threadFunc_construct s =
     (if runner s = Created then Some (s\<lparr>runner := Constructed, called_back := callback s, quit := False\<rparr>) else None)"

definition threadFunc_publish :: "nat \<Rightarrow> loop_thread \<Rightarrow> loop_thread option" where
  "threadFunc_publish l s =
     (if runner s = Constructed
      then Some (s\<lparr>runner := Looping, loop_ptr := Some l,
                  caller := (if caller s = Asleep then Testing else caller s)\<rparr>) else None)"

text \<open>\<open>loop\<close> returns when it finds \<open>quit_\<close> set; then \<open>loop_\<close> is reset.\<close>

definition threadFunc_end :: "loop_thread \<Rightarrow> loop_thread option" where
  "threadFunc_end s =
     (if runner s = Looping \<and> quit s then Some (s\<lparr>runner := Ended, loop_ptr := None\<rparr>) else None)"

text \<open>\<open>~EventLoopThread\<close> joins the thread if \<open>loop_\<close> is set; then the destructor of \<open>thread_\<close> terminates
  the program if the thread was made and not joined.\<close>

definition thread_delete :: "loop_thread \<Rightarrow> loop_thread option" where
  "thread_delete s =
     (if caller s = NotStarted \<or> (\<exists>l. caller s = Returned l)
      then Some (s\<lparr>caller := (if loop_ptr s \<noteq> None then Joining
                           else if runner s = NoThread then Deleted else Terminated)\<rparr>) else None)"

definition thread_join :: "loop_thread \<Rightarrow> loop_thread option" where
  "thread_join s = (if caller s = Joining \<and> runner s = Ended then Some (s\<lparr>caller := Deleted\<rparr>) else None)"

datatype lt_label = Begin | Wait | Spurious | Construct | Publish nat | End | Delete | Join

fun lt_exec :: "lt_label \<Rightarrow> loop_thread \<Rightarrow> loop_thread option" where
  "lt_exec Begin s =
     (if caller s = NotStarted then (case startLoop_begin s of Inl _ \<Rightarrow> None | Inr s' \<Rightarrow> Some s') else None)"
| "lt_exec Wait s = startLoop_wait s"
| "lt_exec Spurious s = spurious_wakeup s"
| "lt_exec Construct s = threadFunc_construct s"
| "lt_exec (Publish l) s = threadFunc_publish l s"
| "lt_exec End s = threadFunc_end s"
| "lt_exec Delete s = thread_delete s"
| "lt_exec Join s = thread_join s"

inductive lt_step :: "loop_thread \<Rightarrow> loop_thread \<Rightarrow> bool" where
  "lt_exec a s = Some s' \<Longrightarrow> lt_step s s'"

inductive_simps lt_step_iff: "lt_step s s'"

definition lt_init :: "loop_thread \<Rightarrow> bool" where
  "lt_init s \<longleftrightarrow> (\<exists>cb. s = EventLoopThread cb)"

definition lt_inv :: "loop_thread \<Rightarrow> bool" where
  "lt_inv s \<longleftrightarrow>
     (loop_ptr s \<noteq> None \<longleftrightarrow> runner s = Looping) \<and> (runner s = NoThread \<longleftrightarrow> caller s = NotStarted \<or> caller s = Deleted) \<and>
     \<not> quit s \<and> runner s \<noteq> Ended \<and> caller s \<noteq> Terminated \<and> (caller s = Joining \<longrightarrow> runner s = Looping) \<and>
     (caller s = Asleep \<longrightarrow> runner s \<noteq> Looping) \<and> (\<forall>l. caller s = Returned l \<longrightarrow> loop_ptr s = Some l) \<and>
     (runner s \<in> {Constructed, Looping} \<longrightarrow> called_back s = callback s)"

lemmas lt_ops = startLoop_begin_def startLoop_wait_def spurious_wakeup_def threadFunc_construct_def threadFunc_publish_def
  threadFunc_end_def thread_delete_def thread_join_def

lemma lt_inv_step: "lt_inv s \<Longrightarrow> lt_exec a s = Some s' \<Longrightarrow> lt_inv s'"
  by (cases a) (auto simp: lt_inv_def lt_ops cassert_def split: if_splits option.splits)

interpretation lt: invariant_system lt_init lt_step lt_inv
proof
  show "lt_init s \<Longrightarrow> lt_inv s" for s by (auto simp: lt_init_def EventLoopThread_def lt_inv_def)
  show "lt_inv s \<Longrightarrow> lt_step s t \<Longrightarrow> lt_inv t" for s t by (auto elim!: lt_step.cases intro: lt_inv_step)
qed

text \<open>The steps left before \<open>startLoop\<close> returns, spurious wakeups aside.\<close>

fun caller_left :: "caller \<Rightarrow> nat" where
  "caller_left NotStarted = 3"
| "caller_left Testing = 2"
| "caller_left Asleep = 1"
| "caller_left _ = 0"

fun runner_left :: "runner \<Rightarrow> nat" where
  "runner_left NoThread = 6"
| "runner_left Created = 4"
| "runner_left Constructed = 2"
| "runner_left _ = 0"

definition steps_left :: "loop_thread \<Rightarrow> nat" where
  "steps_left s = caller_left (caller s) + runner_left (runner s)"

text \<open>C31: \<open>startLoop\<close> returns. In every reachable state after its call and before the destructor's, unless it has
  returned, one of the two threads can take a step that is no spurious wakeup; each such step brings the return
  closer; and what it returns is the loop the thread runs, after the init callback, never a null pointer.\<close>

theorem startLoop_returns:
  assumes "reach lt_init lt_step s" and "caller s \<notin> {NotStarted, Joining, Deleted}"
  shows "((\<exists>l. caller s = Returned l \<and> loop_ptr s = Some l \<and> runner s = Looping \<and> called_back s = callback s) \<or>
      (\<exists>a s'. a \<notin> {Spurious, Delete} \<and> lt_exec a s = Some s')) \<and>
    (\<forall>a s'. a \<notin> {Spurious, Delete} \<and> lt_exec a s = Some s' \<longrightarrow> steps_left s' < steps_left s)"
proof (intro conjI allI impI)
  have inv: "lt_inv s" by (rule lt.reach_inv [OF assms(1)])
  show "(\<exists>l. caller s = Returned l \<and> loop_ptr s = Some l \<and> runner s = Looping \<and> called_back s = callback s) \<or>
      (\<exists>a s'. a \<notin> {Spurious, Delete} \<and> lt_exec a s = Some s')"
  proof (cases "caller s")
    case Testing
    then obtain t where "lt_exec Wait s = Some t" by (simp add: lt_ops)
    then show ?thesis by blast
  next
    case Asleep
    then have "runner s = Created \<or> runner s = Constructed" using inv by (cases "runner s") (auto simp: lt_inv_def)
    then have "lt_exec Construct s \<noteq> None \<or> lt_exec (Publish 0) s \<noteq> None" by (auto simp: lt_ops)
    then show ?thesis by blast
  next
    case (Returned l)
    then show ?thesis using inv by (auto simp: lt_inv_def)
  qed (use assms(2) inv in \<open>simp_all add: lt_inv_def\<close>)
next
  fix a s' assume a: "a \<notin> {Spurious, Delete} \<and> lt_exec a s = Some s'"
  show "steps_left s' < steps_left s"
    using a assms(2) lt.reach_inv [OF assms(1)]
    by (cases a) (auto simp: lt_inv_def steps_left_def lt_ops split: if_splits option.splits)
qed

lemma lt_run_reach: "reach lt_init lt_step s \<Longrightarrow> lt_exec a s = Some s' \<Longrightarrow> reach lt_init lt_step s'"
  by (rule reach_step) (auto simp: lt_step_iff)

theorem startLoop_returns_witness:
  "\<exists>s. reach lt_init lt_step s \<and> caller s = Asleep \<and>
     (\<forall>a s'. a \<notin> {Spurious, Delete} \<and> lt_exec a s = Some s' \<longrightarrow> steps_left s' < steps_left s)"
proof -
  let ?s0 = "EventLoopThread True"
  have r0: "reach lt_init lt_step ?s0" by (rule reach_init) (auto simp: lt_init_def)
  obtain s1 where s1: "lt_exec Begin ?s0 = Some s1" by (simp add: lt_ops EventLoopThread_def)
  obtain s2 where s2: "lt_exec Wait s1 = Some s2" "caller s2 = Asleep"
    using s1 by (auto simp: lt_ops EventLoopThread_def)
  have r: "reach lt_init lt_step s2" by (rule lt_run_reach [OF lt_run_reach [OF r0 s1] s2(1)])
  show ?thesis using startLoop_returns [OF r] s2(2) r by auto
qed

text \<open>C34: The destructor of a thread object that was never started destroys it at once. That of a started one
  waits for the thread: \<open>quit_\<close> is set by nothing, so the loop never ends, and neither does the \<open>join\<close>. The object
  of a started thread is never destroyed.\<close>

theorem thread_destructor:
  assumes "reach lt_init lt_step s"
  shows "(caller s = NotStarted \<longrightarrow> (\<exists>s'. lt_exec Delete s = Some s' \<and> caller s' = Deleted)) \<and>
    (\<forall>l. caller s = Returned l \<longrightarrow> (\<exists>s'. lt_exec Delete s = Some s' \<and> caller s' = Joining)) \<and>
    (caller s = Joining \<longrightarrow> (\<forall>t. lt_step\<^sup>*\<^sup>* s t \<longrightarrow> caller t = Joining \<and> runner t = Looping))"
proof (intro conjI allI impI)
  have inv: "lt_inv s" by (rule lt.reach_inv [OF assms])
  show "\<exists>s'. lt_exec Delete s = Some s' \<and> caller s' = Deleted" if "caller s = NotStarted"
    using that inv by (simp add: lt_ops lt_inv_def)
  show "\<exists>s'. lt_exec Delete s = Some s' \<and> caller s' = Joining" if "caller s = Returned l" for l
    using that inv by (simp add: lt_ops lt_inv_def)
  fix t assume "caller s = Joining" and run: "lt_step\<^sup>*\<^sup>* s t"
  have "lt_inv t \<and> caller t = Joining"
    using run
  proof (induction rule: rtranclp_induct)
    case (step t u)
    then obtain a where a: "lt_exec a t = Some u" by (auto simp: lt_step_iff)
    then have "caller u = Joining"
      using step.IH by (cases a) (auto simp: lt_ops lt_inv_def split: if_splits)
    then show ?case using lt_inv_step [OF _ a] step.IH by blast
  qed (use inv \<open>caller s = Joining\<close> in simp)
  then show "caller t = Joining" "runner t = Looping" by (simp_all add: lt_inv_def)
qed

theorem thread_destructor_witness:
  "\<exists>s. reach lt_init lt_step s \<and> caller s = Joining \<and> (\<forall>t. lt_step\<^sup>*\<^sup>* s t \<longrightarrow> caller t = Joining)"
proof -
  let ?s = "EventLoopThread False"
  let ?exec = "\<lambda>a s. Option.bind s (lt_exec a)"
  have "reach lt_init lt_step ?s" by (rule reach_init) (auto simp: lt_init_def)
  then have run: "fold ?exec as (Some ?s) = Some t \<Longrightarrow> reach lt_init lt_step t" for as t
  proof (induction as arbitrary: t rule: rev_induct)
    case (snoc a as)
    then obtain u where "fold ?exec as (Some ?s) = Some u" "lt_exec a u = Some t"
      by (auto simp: Option.bind_eq_Some_conv)
    then show ?case using snoc lt_run_reach by blast
  qed simp
  have "\<exists>t. fold ?exec [Begin, Construct, Publish 7, Wait, Delete] (Some ?s) = Some t \<and> caller t = Joining"
    by (simp add: lt_ops EventLoopThread_def)
  then obtain t where t: "fold ?exec [Begin, Construct, Publish 7, Wait, Delete] (Some ?s) = Some t" "caller t = Joining"
    by blast
  from thread_destructor [OF run [OF t(1)]] t(2) show ?thesis using run [OF t(1)] by blast
qed

section \<open>The pool\<close>

record lpool =
  baseloop :: nat
  bStartd :: bool
  numThreads :: int
  nextLoopIdx :: nat
  loops :: "nat list"
  inits :: "nat list"

definition EventLoopThreadPool :: "nat \<Rightarrow> lpool" where
  "EventLoopThreadPool base =
     \<lparr>baseloop = base, bStartd = False, numThreads = 0, nextLoopIdx = 0, loops = [], inits = []\<rparr>"

definition setThreadNum :: "int \<Rightarrow> lpool \<Rightarrow> lpool" where
  "setThreadNum n s = s\<lparr>numThreads := n\<rparr>"

text \<open>\<open>addr i\<close> is what the \<open>i\<close>-th \<open>startLoop\<close> returns; \<open>inits\<close> records the loops the init callback ran on.\<close>

definition pool_start :: "bool \<Rightarrow> bool \<Rightarrow> (nat \<Rightarrow> nat) \<Rightarrow> lpool \<Rightarrow> lpool result" where
  "pool_start inLoop cb addr s =
     cassert (\<not> bStartd s)
       (assertInLoopThread inLoop
         (let started = map addr [0..<nat (numThreads s)];
              s1 = s\<lparr>bStartd := True, loops := loops s @ started, inits := inits s @ (if cb then started else [])\<rparr>
          in Inr (if numThreads s1 = 0 \<and> cb then s1\<lparr>inits := inits s1 @ [baseloop s1]\<rparr> else s1)))"

definition getNextLoop :: "bool \<Rightarrow> lpool \<Rightarrow> (nat \<times> lpool) result" where
  "getNextLoop inLoop s =
     assertInLoopThread inLoop
       (cassert (bStartd s)
         (if loops s = [] then Inr (baseloop s, s)
          else if nextLoopIdx s < length (loops s)
          then Inr (loops s ! nextLoopIdx s, s\<lparr>nextLoopIdx := (nextLoopIdx s + 1) mod length (loops s)\<rparr>)
          else Inl Undefined))"

definition getAllLoops :: "bool \<Rightarrow> lpool \<Rightarrow> nat list result" where
  "getAllLoops inLoop s =
     assertInLoopThread inLoop
       (cassert (bStartd s) (Inr (if loops s = [] then [baseloop s] else loops s)))"

text \<open>The loops of the next \<open>m\<close> connections.\<close>

fun next_loops :: "nat \<Rightarrow> lpool \<Rightarrow> (nat list \<times> lpool) result" where
  "next_loops 0 s = Inr ([], s)"
| "next_loops (Suc m) s =
     rbind (getNextLoop True s) (\<lambda>(l, s1). rbind (next_loops m s1) (\<lambda>(ls, s2). Inr (l # ls, s2)))"

definition pool_ok :: "lpool \<Rightarrow> bool" where
  "pool_ok s \<longleftrightarrow> bStartd s \<and> (loops s = [] \<longrightarrow> nextLoopIdx s = 0) \<and> (loops s \<noteq> [] \<longrightarrow> nextLoopIdx s < length (loops s))"

lemma getNextLoop_ok:
  assumes "pool_ok s" "getAllLoops True s = Inr all"
  shows "getNextLoop True s = Inr (all ! nextLoopIdx s, s\<lparr>nextLoopIdx := (nextLoopIdx s + 1) mod length all\<rparr>) \<and>
    pool_ok (s\<lparr>nextLoopIdx := (nextLoopIdx s + 1) mod length all\<rparr>) \<and> all \<noteq> [] \<and> nextLoopIdx s < length all"
  using assms by (auto simp: pool_ok_def getNextLoop_def getAllLoops_def split: if_splits)

text \<open>the pool hands out its loops in turn, starting with the first, or always the base loop when it has no
  threads: the \<open>k\<close>-th connection gets loop \<open>k\<close> modulo their number, and none is left out.\<close>

theorem getNextLoop_round_robin:
  assumes "pool_start True cb addr (setThreadNum n (EventLoopThreadPool base)) = Inr s"
  shows "\<exists>s'. next_loops m s =
    Inr (map (\<lambda>k. if n \<le> 0 then base else addr (k mod nat n)) [0..<m], s')"
proof -
  let ?all = "if n \<le> 0 then [base] else map addr [0..<nat n]"
  have s: "pool_ok s" "getAllLoops True s = Inr ?all" "nextLoopIdx s = 0"
    using assms
    by (auto simp: pool_start_def setThreadNum_def EventLoopThreadPool_def cassert_Inr_iff Let_def pool_ok_def
        getAllLoops_def split: if_splits)
  have "\<exists>t'. next_loops m t = Inr (map (\<lambda>k. all ! ((nextLoopIdx t + k) mod length all)) [0..<m], t')"
    if "pool_ok t" "getAllLoops True t = Inr all" for t all
    using that
  proof (induction m arbitrary: t)
    case (Suc m)
    let ?t = "t\<lparr>nextLoopIdx := (nextLoopIdx t + 1) mod length all\<rparr>"
    have g: "getNextLoop True t = Inr (all ! nextLoopIdx t, ?t)" "pool_ok ?t" "nextLoopIdx t < length all"
      using getNextLoop_ok [OF Suc.prems] by blast+
    have "getAllLoops True ?t = Inr all" using Suc.prems(2) by (auto simp: getAllLoops_def)
    then obtain t' where t': "next_loops m ?t =
        Inr (map (\<lambda>k. all ! ((nextLoopIdx ?t + k) mod length all)) [0..<m], t')"
      using Suc.IH [OF g(2)] by blast
    have "map (\<lambda>k. all ! ((nextLoopIdx t + k) mod length all)) [0..<Suc m] =
        all ! nextLoopIdx t # map (\<lambda>k. all ! ((nextLoopIdx ?t + k) mod length all)) [0..<m]"
      using g(3) by (subst upt_conv_Cons) (auto simp del: upt_Suc simp: map_Suc_upt [symmetric] mod_simps)
    then show ?case using g(1) t' by (simp del: upt_Suc)
  qed simp
  from this [OF s(1,2)] obtain s' where
    "next_loops m s = Inr (map (\<lambda>k. ?all ! (k mod length ?all)) [0..<m], s')"
    using s(3) by auto
  moreover have "?all ! (k mod length ?all) = (if n \<le> 0 then base else addr (k mod nat n))" for k
    by auto
  ultimately show ?thesis by auto
qed

theorem getNextLoop_round_robin_witness:
  "\<exists>s s'. pool_start True False (\<lambda>i. 10 + i) (setThreadNum 3 (EventLoopThreadPool 1)) = Inr s \<and>
     next_loops 5 s = Inr ([10, 11, 12, 10, 11], s')"
proof -
  obtain s where s: "pool_start True False (\<lambda>i. 10 + i) (setThreadNum 3 (EventLoopThreadPool 1)) = Inr s"
    by (simp add: pool_start_def setThreadNum_def EventLoopThreadPool_def Let_def)
  show ?thesis
    using getNextLoop_round_robin [OF s, of 5] s by (simp add: upt_rec)
qed

end
