(* ===== verification/Tcp_Server.thy ===== *)
theory Tcp_Server
  imports Tcp_Close Loop_Pool
begin

text \<open>
  \<open>net/Acceptor.cpp\<close> and \<open>net/TcpServer.cpp\<close>: the listening socket, the map of connections and their life
  across the loops. A state holds the server's members, the connections as \<open>Tcp_Connection\<close>
  models them, at their addresses, and for each loop the functors of the server queued to it (the
  order of queueing is that of \<open>Loop_Wakeup\<close>). A step is an accept, a functor run by its loop, or
  something that happens to a connection in its own loop; when it calls the close callback,
  \<open>removeConnection\<close> runs there. \<open>shared_ptr\<close> keeps a connection alive as long as the map or a functor holds it.
\<close>

section \<open>The acceptor\<close>

record acceptor =
  isListening :: bool
  acceptChannel :: "unit channel"

definition Acceptor :: "int \<Rightarrow> acceptor" where
  "Acceptor fd = \<lparr>isListening = False, acceptChannel = SetReadCallback () (Channel 0 fd)\<rparr>"

definition acceptor_listen :: "acceptor \<Rightarrow> acceptor" where
  "acceptor_listen a =
     (if isListening a then a
      else a\<lparr>isListening := True, acceptChannel := set_interest EnableReadEvent (acceptChannel a)\<rparr>)"

section \<open>The server\<close>

datatype srv_functor = SEstablish nat | SRemove nat | SDestroy nat

text \<open>A connection object: its name, its loop, the connection, and whether \<open>ConnectDestoryed\<close> has run.\<close>

record sconn =
  cname :: string
  cloop :: nat
  cbody :: conn
  cgone :: bool

record server =
  eventloop :: nat
  acceptor :: acceptor
  connections :: "string \<rightharpoonup> nat"
  nextConnId :: int
  threadPool :: lpool
  srvHighWaterMark :: nat
  conns :: "nat \<rightharpoonup> sconn"
  queues :: "nat \<Rightarrow> srv_functor list"

definition TcpServer :: "nat \<Rightarrow> int \<Rightarrow> server" where
  "TcpServer base listenFd =
     \<lparr>eventloop = base, acceptor = Acceptor listenFd, connections = Map.empty, nextConnId = 1,
      threadPool = EventLoopThreadPool base, srvHighWaterMark = 64 * 1024, conns = Map.empty, queues = (\<lambda>_. [])\<rparr>"

text \<open>\<open>setThreadNum\<close> takes a \<open>size_t\<close>, the pool an \<open>int\<close>.\<close>

definition srv_setThreadNum :: "64 word \<Rightarrow> server \<Rightarrow> server" where
  "srv_setThreadNum n s = s\<lparr>threadPool := setThreadNum (sint (ucast n :: 32 word)) (threadPool s)\<rparr>"

text \<open>\<open>start\<close> in the base loop's thread, as \<open>EventLoopThreadPool::start\<close> demands.\<close>

definition srv_start :: "bool \<Rightarrow> bool \<Rightarrow> (nat \<Rightarrow> nat) \<Rightarrow> server \<Rightarrow> server result" where
  "srv_start inLoop cb addr s =
     rbind (pool_start inLoop cb addr (threadPool s)) (\<lambda>tp.
       cassert (\<not> isListening (acceptor s))
         (Inr (s\<lparr>threadPool := tp, acceptor := acceptor_listen (acceptor s)\<rparr>)))"

definition set_body :: "nat \<Rightarrow> conn \<Rightarrow> server \<Rightarrow> server" where
  "set_body p b s = s\<lparr>conns := (conns s)(p := map_option (\<lambda>c. c\<lparr>cbody := b\<rparr>) (conns s p))\<rparr>"

definition srv_queue :: "nat \<Rightarrow> srv_functor \<Rightarrow> server \<Rightarrow> server" where
  "srv_queue l f s = s\<lparr>queues := (queues s)(l := queues s l @ [f])\<rparr>"

definition establish :: "user_prog \<Rightarrow> nat \<Rightarrow> nat \<Rightarrow> server \<Rightarrow> server result" where
  "establish u l p s =
     deref (conns s) p (\<lambda>c.
       rbind (ConnectEstablished (l = cloop c) (user_callbacks u) (cbody c)) (\<lambda>b. Inr (set_body p b s)))"

definition destroy :: "user_prog \<Rightarrow> nat \<Rightarrow> nat \<Rightarrow> server \<Rightarrow> server result" where
  "destroy u l p s =
     deref (conns s) p (\<lambda>c.
       rbind (ConnectDestoryed (l = cloop c) (user_callbacks u) (cbody c)) (\<lambda>b.
         Inr (s\<lparr>conns := (conns s)(p \<mapsto> c\<lparr>cbody := b, cgone := True\<rparr>)\<rparr>)))"

definition removeConnectionInLoop :: "nat \<Rightarrow> nat \<Rightarrow> server \<Rightarrow> server result" where
  "removeConnectionInLoop l p s =
     assertInLoopThread (l = eventloop s)
       (deref (conns s) p (\<lambda>c.
         cassert (connections s (cname c) \<noteq> None)
           (Inr (srv_queue (cloop c) (SDestroy p) (s\<lparr>connections := (connections s)(cname c := None)\<rparr>)))))"

definition removeConnection :: "nat \<Rightarrow> nat \<Rightarrow> server \<Rightarrow> server result" where
  "removeConnection l p s =
     (if l = eventloop s then removeConnectionInLoop l p s else Inr (srv_queue (eventloop s) (SRemove p) s))"

text \<open>\<open>newConnection\<close> for the connection object at \<open>p\<close>; its \<open>highWaterMark_\<close> starts out as \<open>junk\<close>.
  \<open>++nextConnId_\<close> on the largest \<open>int\<close> is undefined.\<close>

definition newConnection :: "user_prog \<Rightarrow> nat \<Rightarrow> nat \<Rightarrow> int \<Rightarrow> nat \<Rightarrow> server \<Rightarrow> server result" where
  "newConnection u l p sockfd junk s =
     assertInLoopThread (l = eventloop s)
       (rbind (getNextLoop True (threadPool s)) (\<lambda>(ioLoop, tp).
         let name = to_string (nextConnId s);
             c = setHighWaterMarkCallback (srvHighWaterMark s) (setWriteCompleteCallback (TcpConnection sockfd junk));
             s1 = s\<lparr>threadPool := tp, connections := (connections s)(name \<mapsto> p),
                    conns := (conns s)(p \<mapsto> \<lparr>cname = name, cloop = ioLoop, cbody = c, cgone = False\<rparr>)\<rparr>
         in rbind (if l = ioLoop then establish u l p s1 else Inr (srv_queue ioLoop (SEstablish p) s1)) (\<lambda>s2.
              if nextConnId s2 < 2 ^ 31 - 1 then Inr (s2\<lparr>nextConnId := nextConnId s2 + 1\<rparr>) else Inl Undefined)))"

text \<open>\<open>Acceptor::HandleRead\<close>; \<open>connfd\<close> is the answer of \<open>accept\<close>.\<close>

definition acceptor_HandleRead :: "user_prog \<Rightarrow> nat \<Rightarrow> nat \<Rightarrow> int \<Rightarrow> nat \<Rightarrow> server \<Rightarrow> server result" where
  "acceptor_HandleRead u l p connfd junk s = (if 0 \<le> connfd then newConnection u l p connfd junk s else Inr s)"

fun exec_srv_functor :: "user_prog \<Rightarrow> nat \<Rightarrow> srv_functor \<Rightarrow> server \<Rightarrow> server result" where
  "exec_srv_functor u l (SEstablish p) s = establish u l p s"
| "exec_srv_functor u l (SRemove p) s = removeConnectionInLoop l p s"
| "exec_srv_functor u l (SDestroy p) s = destroy u l p s"

datatype srv_act =
    SAccept nat int nat
  | SRun nat
  | SConn nat conn_act

text \<open>The close callback of the connection, once for each time the step called it.\<close>

fun srv_exec :: "user_prog \<Rightarrow> srv_act \<Rightarrow> server \<Rightarrow> server result" where
  "srv_exec u (SAccept p connfd junk) s = acceptor_HandleRead u (eventloop s) p connfd junk s"
| "srv_exec u (SRun l) s =
     (case queues s l of [] \<Rightarrow> Inr s | f # fs \<Rightarrow> exec_srv_functor u l f (s\<lparr>queues := (queues s)(l := fs)\<rparr>))"
| "srv_exec u (SConn p a) s =
     deref (conns s) p (\<lambda>c. rbind (conn_exec (user_callbacks u) a (cbody c)) (\<lambda>b.
       rfold (\<lambda>_. removeConnection (cloop c) p) (replicate (closes b - closes (cbody c)) ()) (set_body p b s)))"

text \<open>New objects get fresh addresses; a connection that \<open>ConnectDestoryed\<close> has left is done; the
  server's own functor establishes a connection.\<close>

fun srv_ok :: "srv_act \<Rightarrow> server \<Rightarrow> bool" where
  "srv_ok (SAccept p connfd junk) s \<longleftrightarrow>
     isListening (acceptor s) \<and> conns s p = None \<and> nextConnId s < 2 ^ 31 - 1"
| "srv_ok (SRun l) s \<longleftrightarrow> True"
| "srv_ok (SConn p a) s \<longleftrightarrow>
     (case conns s p of None \<Rightarrow> False | Some c \<Rightarrow> \<not> cgone c \<and> a \<noteq> AEstablish \<and> act_ok a (cbody c))"

abbreviation srv_all_ok :: "user_prog \<Rightarrow> srv_act list \<Rightarrow> server \<Rightarrow> bool" where
  "srv_all_ok u \<equiv> legal_run (srv_exec u) srv_ok"

section \<open>The invariant\<close>

definition in_map :: "server \<Rightarrow> nat \<Rightarrow> sconn \<Rightarrow> bool" where
  "in_map s p c \<longleftrightarrow> connections s (cname c) = Some p"

text \<open>The stages of a connection: established by a queued functor, up, removed by a functor in the base
  loop, destroyed by a functor in its own loop, gone.\<close>

definition conn_stage :: "server \<Rightarrow> nat \<Rightarrow> sconn \<Rightarrow> bool" where
  "conn_stage s p c \<longleftrightarrow>
     (\<not> cgone c \<longrightarrow> conn_ok (cbody c) \<and> close_inv (cbody c)) \<and>
     (cgone c \<longrightarrow> state (cbody c) = KDisconnected \<and> \<not> in_map s p c) \<and>
     (state (cbody c) = KConnecting \<longrightarrow> SEstablish p \<in> set (queues s (cloop c))) \<and>
     (state (cbody c) \<noteq> KDisconnected \<longrightarrow> in_map s p c) \<and>
     (state (cbody c) = KDisconnected \<and> \<not> cgone c \<longrightarrow>
        (if in_map s p c then SRemove p \<in> set (queues s (eventloop s)) else SDestroy p \<in> set (queues s (cloop c))))"

definition functor_stage :: "server \<Rightarrow> nat \<Rightarrow> srv_functor \<Rightarrow> bool" where
  "functor_stage s l f \<longleftrightarrow>
     (case f of
        SEstablish p \<Rightarrow> (\<exists>c. conns s p = Some c \<and> cloop c = l \<and> state (cbody c) = KConnecting)
      | SRemove p \<Rightarrow> l = eventloop s \<and>
          (\<exists>c. conns s p = Some c \<and> state (cbody c) = KDisconnected \<and> \<not> cgone c \<and> in_map s p c)
      | SDestroy p \<Rightarrow>
          (\<exists>c. conns s p = Some c \<and> cloop c = l \<and> state (cbody c) = KDisconnected \<and> \<not> cgone c \<and> \<not> in_map s p c))"

definition names_inv :: "server \<Rightarrow> bool" where
  "names_inv s \<longleftrightarrow>
     1 \<le> nextConnId s \<and>
     (\<forall>p c. conns s p = Some c \<longrightarrow> (\<exists>k. 1 \<le> k \<and> k < nextConnId s \<and> cname c = to_string k)) \<and>
     (\<forall>p q c d. conns s p = Some c \<and> conns s q = Some d \<and> cname c = cname d \<longrightarrow> p = q) \<and>
     (\<forall>n p. connections s n = Some p \<longrightarrow> (\<exists>c. conns s p = Some c \<and> cname c = n))"

definition srv_inv :: "server \<Rightarrow> bool" where
  "srv_inv s \<longleftrightarrow>
     (\<forall>l. distinct (queues s l)) \<and> (\<forall>l f. f \<in> set (queues s l) \<longrightarrow> functor_stage s l f) \<and>
     (\<forall>p c. conns s p = Some c \<longrightarrow> conn_stage s p c) \<and> names_inv s \<and> pool_ok (threadPool s)"

text \<open>What the other connections see of a step for \<open>p\<close>.\<close>

lemma conn_stage_other:
  assumes "conn_stage s q d" "connections s' (cname d) = Some q \<longleftrightarrow> connections s (cname d) = Some q"
    and "eventloop s' = eventloop s"
    and "\<And>l f. f \<in> {SEstablish q, SRemove q, SDestroy q} \<Longrightarrow> f \<in> set (queues s l) \<Longrightarrow> f \<in> set (queues s' l)"
  shows "conn_stage s' q d"
  using assms by (auto simp: conn_stage_def in_map_def)

fun fptr :: "srv_functor \<Rightarrow> nat" where
  "fptr (SEstablish p) = p"
| "fptr (SRemove p) = p"
| "fptr (SDestroy p) = p"

lemma functor_stage_other:
  assumes "functor_stage s l f" "conns s' (fptr f) = conns s (fptr f)" "eventloop s' = eventloop s"
    and "\<And>c. conns s (fptr f) = Some c \<Longrightarrow>
      connections s' (cname c) = Some (fptr f) \<longleftrightarrow> connections s (cname c) = Some (fptr f)"
  shows "functor_stage s' l f"
  using assms by (cases f) (auto simp: functor_stage_def in_map_def)

text \<open>
  A step changes one connection, at \<open>p\<close>. It is enough that the queues change by functors for \<open>p\<close>,
  the map by entries for \<open>p\<close>, and that \<open>p\<close>'s own stage and functors are right.
\<close>

lemma srv_inv_step:
  assumes inv: "srv_inv s" and ev: "eventloop s' = eventloop s"
    and others: "\<And>q. q \<noteq> p \<Longrightarrow> conns s' q = conns s q"
    and map: "\<And>q d. q \<noteq> p \<Longrightarrow> conns s q = Some d \<Longrightarrow>
      connections s' (cname d) = Some q \<longleftrightarrow> connections s (cname d) = Some q"
    and queues: "\<And>l f. fptr f \<noteq> p \<Longrightarrow> f \<in> set (queues s' l) \<longleftrightarrow> f \<in> set (queues s l)"
    and dist: "\<And>l. distinct (queues s' l)"
    and own: "\<And>c. conns s' p = Some c \<Longrightarrow> conn_stage s' p c"
    and own_f: "\<And>l f. fptr f = p \<Longrightarrow> f \<in> set (queues s' l) \<Longrightarrow> functor_stage s' l f"
    and names: "names_inv s'" and pool: "pool_ok (threadPool s')"
  shows "srv_inv s'"
proof -
  have "functor_stage s' l f" if "f \<in> set (queues s' l)" for l f
  proof (cases "fptr f = p")
    case False
    then have "functor_stage s l f" using that queues inv by (simp add: srv_inv_def)
    then show ?thesis by (rule functor_stage_other) (use False others ev map in auto)
  qed (use own_f that in blast)
  moreover have "conn_stage s' q d" if "conns s' q = Some d" for q d
  proof (cases "q = p")
    case False
    then have "conn_stage s q d" using that others inv by (auto simp: srv_inv_def)
    then show ?thesis by (rule conn_stage_other) (use False others ev map that queues in auto)
  qed (use own that in blast)
  ultimately show ?thesis using dist names pool by (simp add: srv_inv_def)
qed

lemma srv_invD:
  assumes "srv_inv s"
  shows "distinct (queues s l)" "f \<in> set (queues s l) \<Longrightarrow> functor_stage s l f"
    "conns s p = Some c \<Longrightarrow> conn_stage s p c" "names_inv s" "pool_ok (threadPool s)"
  using assms by (simp_all add: srv_inv_def)

text \<open>Functors queued for \<open>p\<close>, from its stage.\<close>

lemma queued_for:
  assumes "srv_inv s" "conns s p = Some c" "f \<in> set (queues s l)" "fptr f = p"
  shows "f = SEstablish p \<and> l = cloop c \<and> state (cbody c) = KConnecting \<or>
    f = SRemove p \<and> l = eventloop s \<and> state (cbody c) = KDisconnected \<and> \<not> cgone c \<and> in_map s p c \<or>
    f = SDestroy p \<and> l = cloop c \<and> state (cbody c) = KDisconnected \<and> \<not> cgone c \<and> \<not> in_map s p c"
  using srv_invD(2) [OF assms(1,3)] assms(2,4) by (cases f) (auto simp: functor_stage_def)

lemma names_inv_body:
  assumes inv: "names_inv s" and p: "conns s p = Some c" and s': "conns s' = (conns s)(p \<mapsto> c')" "cname c' = cname c"
    and m: "connections s' \<subseteq>\<^sub>m connections s" and n: "nextConnId s' = nextConnId s"
  shows "names_inv s'"
proof -
  have old: "\<exists>d0. conns s q = Some d0 \<and> cname d0 = cname d" if "conns s' q = Some d" for q d
    using that s' p by (cases "q = p") auto
  have kept: "\<exists>d. conns s' q = Some d \<and> cname d = cname d0" if "conns s q = Some d0" for q d0
    using that s' p by (cases "q = p") auto
  have "\<exists>k. 1 \<le> k \<and> k < nextConnId s \<and> cname d = to_string k" if d: "conns s' q = Some d" for q d
    using old [OF d] inv by (fastforce simp: names_inv_def)
  moreover have "q = r" if "conns s' q = Some d" "conns s' r = Some e" "cname d = cname e" for q r d e
    using old [OF that(1)] old [OF that(2)] that(3) inv unfolding names_inv_def by metis
  moreover have "\<exists>d. conns s' q = Some d \<and> cname d = k" if "connections s' k = Some q" for k q
  proof -
    have "connections s k = Some q" using m that by (auto simp: map_le_def dom_def)
    then obtain d0 where "conns s q = Some d0" "cname d0 = k" using inv unfolding names_inv_def by blast
    then show ?thesis using kept by blast
  qed
  ultimately show ?thesis using inv n by (auto simp: names_inv_def)
qed

section \<open>The steps\<close>

text \<open>A connection's body changes, without a change of stage.\<close>

lemma srv_inv_body:
  assumes inv: "srv_inv s" and p: "conns s p = Some c" and qs: "queues s' = (\<lambda>l. removeAll f (queues s l))" "fptr f = p"
    and s': "conns s' = (conns s)(p \<mapsto> c\<lparr>cbody := b\<rparr>)" "connections s' = connections s" "nextConnId s' = nextConnId s"
      "eventloop s' = eventloop s" "threadPool s' = threadPool s"
    and b: "conn_ok b" "close_inv b" "\<not> cgone c"
    and st: "(f = SEstablish p \<and> state (cbody c) = KConnecting \<and> up (state b)) \<or>
      (f \<notin> set (queues s (eventloop s)) \<and> f \<notin> set (queues s (cloop c)) \<and>
        (state b = state (cbody c) \<or> up (state b) \<and> up (state (cbody c))))"
  shows "srv_inv s'"
proof (rule srv_inv_step [OF inv s'(4), where p = p])
  let ?c = "c\<lparr>cbody := b\<rparr>"
  have m: "in_map s' p ?c = in_map s p c" using s'(2) by (simp add: in_map_def)
  note stage = srv_invD(3) [OF inv p]
  show "conn_stage s' p d" if "conns s' p = Some d" for d
    using that s'(1,4) stage b st m qs by (auto simp: conn_stage_def)
  show "functor_stage s' l g" if g: "fptr g = p" "g \<in> set (queues s' l)" for l g
  proof -
    have g': "g \<in> set (queues s l)" "g \<noteq> f" using g(2) qs(1) by auto
    from queued_for [OF inv p g'(1) g(1)] show ?thesis
      using st s'(1,4) m g' by (auto simp: functor_stage_def)
  qed
  show "names_inv s'" by (rule names_inv_body [OF srv_invD(4) [OF inv] p s'(1)]) (use s' in auto)
qed (use s' qs srv_invD [OF inv] in \<open>auto simp: distinct_removeAll\<close>)

lemma pop_removeAll:
  assumes "srv_inv s" "queues s l = f # fs"
  shows "(queues s)(l := fs) = (\<lambda>k. removeAll f (queues s k))"
proof
  fix k
  show "((queues s)(l := fs)) k = removeAll f (queues s k)"
  proof (cases "k = l")
    case True
    then show ?thesis using srv_invD(1) [OF assms(1), of l] assms(2) by (simp add: removeAll_id)
  next
    case False
    have "functor_stage s l f" using srv_invD(2) [OF assms(1)] assms(2) by simp
    then have "f \<notin> set (queues s k)"
      using srv_invD(2) [OF assms(1), of f k] False by (cases f) (auto simp: functor_stage_def)
    then show ?thesis using False by (simp add: removeAll_id)
  qed
qed

lemma step_establish:
  assumes inv: "srv_inv s" and u: "user_ok u" and q: "SEstablish p \<in> set (queues s l)"
    and s0: "s0 = s\<lparr>queues := \<lambda>k. removeAll (SEstablish p) (queues s k)\<rparr>"
  shows "case establish u l p s0 of Inl e \<Rightarrow> e = LengthError | Inr s' \<Rightarrow> srv_inv s'"
proof -
  obtain c where c: "conns s p = Some c" "cloop c = l" "state (cbody c) = KConnecting"
    using srv_invD(2) [OF inv q] by (auto simp: functor_stage_def)
  have b: "conn_ok (cbody c)" "close_inv (cbody c)" "\<not> cgone c"
    using srv_invD(3) [OF inv c(1)] c(3) by (auto simp: conn_stage_def)
  show ?thesis
  proof (cases "ConnectEstablished True (user_callbacks u) (cbody c)")
    case (Inl e)
    then show ?thesis using establish_body [OF u b(1,2) c(3)] c s0 by (simp add: establish_def)
  next
    case (Inr b')
    have b': "conn_ok b'" "close_inv b'" "up (state b')" using establish_body [OF u b(1,2) c(3)] Inr by simp_all
    have run: "establish u l p s0 = Inr (set_body p b' s0)" using c Inr s0 by (simp add: establish_def)
    have "srv_inv (set_body p b' s0)"
      by (rule srv_inv_body [OF inv c(1), where f = "SEstablish p" and b = b'])
        (use b b' c s0 in \<open>auto simp: set_body_def\<close>)
    then show ?thesis by (simp add: run)
  qed
qed

lemma step_destroy:
  assumes inv: "srv_inv s" and q: "SDestroy p \<in> set (queues s l)"
    and s0: "s0 = s\<lparr>queues := \<lambda>k. removeAll (SDestroy p) (queues s k)\<rparr>"
  shows "\<exists>s'. destroy u l p s0 = Inr s' \<and> srv_inv s'"
proof -
  obtain c where c: "conns s p = Some c" "cloop c = l" "state (cbody c) = KDisconnected" "\<not> cgone c" "\<not> in_map s p c"
    using srv_invD(2) [OF inv q] by (auto simp: functor_stage_def)
  let ?c = "c\<lparr>cbody := emit ERemove (cbody c), cgone := True\<rparr>"
  let ?s' = "s0\<lparr>conns := (conns s)(p \<mapsto> ?c)\<rparr>"
  have run: "destroy u l p s0 = Inr ?s'" using c s0 destroy_body by (simp add: destroy_def)
  have "srv_inv ?s'"
  proof (rule srv_inv_step [OF inv, where p = p])
    show "conn_stage ?s' p d" if "conns ?s' p = Some d" for d
      using that c s0 by (auto simp: conn_stage_def in_map_def)
    show "functor_stage ?s' k g" if g: "fptr g = p" "g \<in> set (queues ?s' k)" for k g
    proof -
      have "g \<in> set (queues s k)" "g \<noteq> SDestroy p" using g(2) s0 by simp_all
      from queued_for [OF inv c(1) this(1) g(1)] this(2) show ?thesis using c by auto
    qed
    show "names_inv ?s'" by (rule names_inv_body [OF srv_invD(4) [OF inv] c(1), of _ ?c]) (auto simp: s0)
  qed (use srv_invD [OF inv] q s0 in \<open>auto simp: distinct_removeAll\<close>)
  then show ?thesis by (simp add: run)
qed

text \<open>\<open>removeConnectionInLoop\<close>, for a connection that is disconnected now or was before.\<close>

lemma srv_inv_removed:
  assumes inv: "srv_inv s" and p: "conns s p = Some c" "in_map s p c" "\<not> cgone c" "state (cbody c) \<noteq> KConnecting"
    and b: "conn_ok b" "close_inv b" "state b = KDisconnected"
    and s': "conns s' = (conns s)(p \<mapsto> c\<lparr>cbody := b\<rparr>)" "connections s' = (connections s)(cname c := None)"
      "nextConnId s' = nextConnId s" "eventloop s' = eventloop s" "threadPool s' = threadPool s"
      "queues s' = (\<lambda>k. removeAll (SRemove p) (queues s k) @ (if k = cloop c then [SDestroy p] else []))"
  shows "srv_inv s'"
proof (rule srv_inv_step [OF inv s'(4), where p = p])
  have no_destroy: "SDestroy p \<notin> set (queues s k)" for k using queued_for [OF inv p(1), of "SDestroy p" k] p(2) by auto
  show "distinct (queues s' k)" for k
    using no_destroy srv_invD(1) [OF inv, of k] s'(6) by (auto simp: distinct_removeAll)
  show "connections s' (cname d) = Some q \<longleftrightarrow> connections s (cname d) = Some q" if "q \<noteq> p" "conns s q = Some d" for q d
    using that p(1,2) srv_invD(4) [OF inv] s'(2) by (auto simp: names_inv_def in_map_def)
  show "conn_stage s' p d" if "conns s' p = Some d" for d
    using that s' b p by (auto simp: conn_stage_def in_map_def)
  show "functor_stage s' k g" if g: "fptr g = p" "g \<in> set (queues s' k)" for k g
  proof (cases "g = SDestroy p")
    case True
    then have "k = cloop c" using g(2) s'(6) no_destroy by (auto split: if_splits)
    then show ?thesis using True s' b p by (auto simp: functor_stage_def in_map_def)
  next
    case False
    then have "g \<in> set (queues s k)" "g \<noteq> SRemove p" using g(2) s'(6) by (auto split: if_splits)
    from queued_for [OF inv p(1) this(1) g(1)] this(2) show ?thesis using p by auto
  qed
  show "names_inv s'"
    by (rule names_inv_body [OF srv_invD(4) [OF inv] p(1) s'(1)]) (use s' in \<open>auto simp: map_le_def\<close>)
qed (use srv_invD [OF inv] s' in auto)

lemma step_remove:
  assumes inv: "srv_inv s" and q: "SRemove p \<in> set (queues s l)"
    and s0: "s0 = s\<lparr>queues := \<lambda>k. removeAll (SRemove p) (queues s k)\<rparr>"
  shows "\<exists>s'. removeConnectionInLoop l p s0 = Inr s' \<and> srv_inv s'"
proof -
  obtain c where c: "conns s p = Some c" "l = eventloop s" "state (cbody c) = KDisconnected" "\<not> cgone c" "in_map s p c"
    using srv_invD(2) [OF inv q] by (auto simp: functor_stage_def)
  let ?s' = "srv_queue (cloop c) (SDestroy p) (s0\<lparr>connections := (connections s)(cname c := None)\<rparr>)"
  have b: "conn_ok (cbody c)" "close_inv (cbody c)" using srv_invD(3) [OF inv c(1)] c(4) by (auto simp: conn_stage_def)
  have "srv_inv ?s'"
    by (rule srv_inv_removed [OF inv c(1,5,4) _ b c(3)])
      (use c s0 in \<open>auto simp: srv_queue_def fun_eq_iff\<close>)
  moreover have "removeConnectionInLoop l p s0 = Inr ?s'"
    using c s0 by (simp add: removeConnectionInLoop_def in_map_def)
  ultimately show ?thesis by blast
qed

lemma step_run:
  assumes inv: "srv_inv s" and u: "user_ok u"
  shows "case srv_exec u (SRun l) s of Inl e \<Rightarrow> e = LengthError | Inr s' \<Rightarrow> srv_inv s'"
proof (cases "queues s l")
  case (Cons f fs)
  let ?s = "s\<lparr>queues := (queues s)(l := fs)\<rparr>"
  have s0: "?s = s\<lparr>queues := \<lambda>k. removeAll f (queues s k)\<rparr>" using pop_removeAll [OF inv Cons] by simp
  have q: "f \<in> set (queues s l)" using Cons by simp
  show ?thesis
  proof (cases f)
    case (SEstablish p)
    then show ?thesis using step_establish [OF inv u, of p l ?s] q s0 Cons by simp
  next
    case (SRemove p)
    then show ?thesis using step_remove [OF inv, of p l ?s] q s0 Cons by auto
  next
    case (SDestroy p)
    then show ?thesis using step_destroy [OF inv, of p l ?s u] q s0 Cons by auto
  qed
qed (use inv in simp)

text \<open>The close callback elsewhere than in the base loop: the removal is queued there.\<close>

lemma srv_inv_closing:
  assumes inv: "srv_inv s" and p: "conns s p = Some c" "\<not> cgone c" "up (state (cbody c))"
    and b: "conn_ok b" "close_inv b" "state b = KDisconnected"
  shows "srv_inv (srv_queue (eventloop s) (SRemove p) (set_body p b s))" (is "srv_inv ?s'")
proof (rule srv_inv_step [OF inv, where p = p])
  have m: "in_map s p c" using srv_invD(3) [OF inv p(1)] p(3) by (auto simp: conn_stage_def)
  have none: "f \<notin> set (queues s k)" if "fptr f = p" for f k
    using queued_for [OF inv p(1) _ that, of k] p(3) by auto
  show "distinct (queues ?s' k)" for k
    using none [of "SRemove p" k] srv_invD(1) [OF inv, of k] by (auto simp: srv_queue_def set_body_def)
  show "conn_stage ?s' p d" if "conns ?s' p = Some d" for d
    using that b p m by (auto simp: conn_stage_def in_map_def srv_queue_def set_body_def)
  show "functor_stage ?s' k g" if g: "fptr g = p" "g \<in> set (queues ?s' k)" for k g
    using g none [OF g(1), of k] b p m
    by (auto simp: functor_stage_def in_map_def srv_queue_def set_body_def split: if_splits)
  show "names_inv ?s'"
    by (rule names_inv_body [OF srv_invD(4) [OF inv] p(1), of _ "c\<lparr>cbody := b\<rparr>"])
      (use p in \<open>auto simp: srv_queue_def set_body_def\<close>)
qed (use srv_invD [OF inv] in \<open>auto simp: srv_queue_def set_body_def\<close>)

lemma removeConnection_inv:
  assumes inv: "srv_inv s" and p: "conns s p = Some c" "\<not> cgone c" "up (state (cbody c))"
    and b: "conn_ok b" "close_inv b" "state b = KDisconnected"
  shows "\<exists>s'. removeConnection (cloop c) p (set_body p b s) = Inr s' \<and> srv_inv s'"
proof (cases "cloop c = eventloop s")
  case True
  let ?c = "c\<lparr>cbody := b\<rparr>"
  let ?s' = "srv_queue (cloop c) (SDestroy p) ((set_body p b s)\<lparr>connections := (connections s)(cname c := None)\<rparr>)"
  have m: "in_map s p c" using srv_invD(3) [OF inv p(1)] p(3) by (auto simp: conn_stage_def)
  have "SRemove p \<notin> set (queues s k)" for k using queued_for [OF inv p(1), of "SRemove p" k] p(3) by auto
  then have "srv_inv ?s'"
    by (intro srv_inv_removed [OF inv p(1) m p(2) _ b])
      (use p in \<open>auto simp: srv_queue_def set_body_def fun_eq_iff removeAll_id\<close>)
  moreover have "removeConnection (cloop c) p (set_body p b s) = Inr ?s'"
    using True p m by (simp add: removeConnection_def removeConnectionInLoop_def in_map_def set_body_def)
  ultimately show ?thesis by blast
next
  case False
  then have "removeConnection (cloop c) p (set_body p b s) = Inr (srv_queue (eventloop s) (SRemove p) (set_body p b s))"
    by (simp add: removeConnection_def set_body_def)
  then show ?thesis using srv_inv_closing [OF assms] by blast
qed

lemma step_conn:
  assumes inv: "srv_inv s" and u: "user_ok u" and ok: "srv_ok (SConn p a) s"
  shows "case srv_exec u (SConn p a) s of Inl e \<Rightarrow> e = LengthError | Inr s' \<Rightarrow> srv_inv s'"
proof -
  obtain c where c: "conns s p = Some c" "\<not> cgone c" "a \<noteq> AEstablish" "act_ok a (cbody c)"
    using ok by (auto split: option.splits)
  note stage = srv_invD(3) [OF inv c(1)]
  have ok_c: "conn_ok (cbody c)" "close_inv (cbody c)" using stage c(2) by (auto simp: conn_stage_def)
  show ?thesis
  proof (cases "conn_exec (user_callbacks u) a (cbody c)")
    case (Inl e)
    then show ?thesis using act_body [OF u ok_c c(4)] c(1) by simp
  next
    case (Inr b)
    have b: "conn_ok b" "close_inv b" "rank (state (cbody c)) \<le> rank (state b)"
      "closes b - closes (cbody c) = (if state (cbody c) \<noteq> KDisconnected \<and> state b = KDisconnected then 1 else 0)"
      using act_body [OF u ok_c c(4)] Inr by simp_all
    have stays: "state (cbody c) = KConnecting \<Longrightarrow> state b = KConnecting"
      by (rule connecting_stays [OF _ c(4,3) Inr])
    show ?thesis
    proof (cases "state (cbody c) \<noteq> KDisconnected \<and> state b = KDisconnected")
      case True
      then have "up (state (cbody c))" using stays by (cases "state (cbody c)") auto
      from removeConnection_inv [OF inv c(1,2) this b(1,2)] True
      show ?thesis using c(1) Inr b(4) by auto
    next
      case False
      define f where "f = (if state (cbody c) = KConnecting then SDestroy p else SEstablish p)"
      have f: "fptr f = p" "f \<notin> set (queues s k)" for k
        using queued_for [OF inv c(1), of f k] by (auto simp: f_def)
      have "state b = state (cbody c) \<or> up (state b) \<and> up (state (cbody c))"
        using False stays b(3) by (cases "state (cbody c)"; cases "state b") (auto simp: rank_def)
      then have "srv_inv (set_body p b s)"
        by (intro srv_inv_body [OF inv c(1), of _ f b])
          (use f b c in \<open>auto simp: set_body_def fun_eq_iff removeAll_id\<close>)
      then show ?thesis using c(1) Inr b(4) False by auto
    qed
  qed
qed

section \<open>Accepting\<close>

lemma srv_inv_accept:
  assumes inv: "srv_inv s" and p: "conns s p = None" and b: "conn_ok b" "close_inv b" "state b = KConnecting"
    and s': "conns s' = (conns s)(p \<mapsto> \<lparr>cname = to_string (nextConnId s), cloop = l, cbody = b, cgone = False\<rparr>)"
      "connections s' = (connections s)(to_string (nextConnId s) \<mapsto> p)"
      "nextConnId s' = nextConnId s + 1" "eventloop s' = eventloop s" "pool_ok (threadPool s')"
      "queues s' = (queues s)(l := queues s l @ [SEstablish p])"
  shows "srv_inv s'"
proof (rule srv_inv_step [OF inv s'(4), where p = p])
  note names = srv_invD(4) [OF inv]
  have none: "f \<notin> set (queues s k)" if "fptr f = p" for f k
    using srv_invD(2) [OF inv, of f k] p that by (cases f) (auto simp: functor_stage_def)
  have fresh: "cname d \<noteq> to_string (nextConnId s)" if "conns s q = Some d" for q d
    using names that unfolding names_inv_def by (metis to_string_inj less_irrefl)
  show "connections s' (cname d) = Some q \<longleftrightarrow> connections s (cname d) = Some q" if "q \<noteq> p" "conns s q = Some d" for q d
    using fresh [OF that(2)] s'(2) by simp
  show "distinct (queues s' k)" for k
    using none [of "SEstablish p" k] srv_invD(1) [OF inv, of k] s'(6) by auto
  show "conn_stage s' p d" if "conns s' p = Some d" for d
    using that s' b by (auto simp: conn_stage_def in_map_def)
  show "functor_stage s' k g" if g: "fptr g = p" "g \<in> set (queues s' k)" for k g
    using g none [OF g(1), of k] s' b by (auto simp: functor_stage_def split: if_splits)
  show "names_inv s'"
    unfolding names_inv_def
  proof (intro conjI allI impI)
    show "1 \<le> nextConnId s'" using names s'(3) by (simp add: names_inv_def)
    show "\<exists>k. 1 \<le> k \<and> k < nextConnId s' \<and> cname d = to_string k" if "conns s' q = Some d" for q d
    proof (cases "q = p")
      case True
      then show ?thesis using that s'(1,3) names by (auto simp: names_inv_def intro!: exI [of _ "nextConnId s"])
    next
      case False
      then have "conns s q = Some d" using that s'(1) by simp
      then obtain k where "1 \<le> k" "k < nextConnId s" "cname d = to_string k"
        using names unfolding names_inv_def by blast
      then show ?thesis using s'(3) by (intro exI [of _ k]) simp
    qed
    show "q = r" if "conns s' q = Some d \<and> conns s' r = Some e \<and> cname d = cname e" for q r d e
    proof (rule ccontr)
      assume "q \<noteq> r"
      then show False
        using that s'(1) fresh [of q d] fresh [of r e] names unfolding names_inv_def by (auto split: if_splits)
    qed
    show "\<exists>d. conns s' q = Some d \<and> cname d = n" if "connections s' n = Some q" for n q
    proof (cases "n = to_string (nextConnId s)")
      case False
      then have "connections s n = Some q" using that s'(2) by simp
      then obtain d where "conns s q = Some d" "cname d = n" using names unfolding names_inv_def by blast
      then show ?thesis using p s'(1) by (cases "q = p") auto
    qed (use that s'(1,2) in auto)
  qed
qed (use srv_invD [OF inv] s' in auto)

lemma establish_nextConnId:
  "establish u l p (s\<lparr>nextConnId := n\<rparr>) = rbind (establish u l p s) (\<lambda>s'. Inr (s'\<lparr>nextConnId := n\<rparr>))"
  by (cases "conns s p"; simp add: establish_def set_body_def)
     (simp add: rbind_def split: sum.splits)

lemma step_accept:
  assumes inv: "srv_inv s" and u: "user_ok u" and ok: "srv_ok (SAccept p connfd junk) s"
  shows "case srv_exec u (SAccept p connfd junk) s of Inl e \<Rightarrow> e = LengthError | Inr s' \<Rightarrow> srv_inv s'"
proof (cases "0 \<le> connfd")
  case True
  have p: "conns s p = None" "nextConnId s < 2 ^ 31 - 1" using ok by simp_all
  obtain all where "getAllLoops True (threadPool s) = Inr all"
    using srv_invD(5) [OF inv] by (simp add: pool_ok_def getAllLoops_def)
  then obtain io tp where pick: "getNextLoop True (threadPool s) = Inr (io, tp)" "pool_ok tp"
    using getNextLoop_ok [OF srv_invD(5) [OF inv]] by blast
  define b where "b = setHighWaterMarkCallback (srvHighWaterMark s) (setWriteCompleteCallback (TcpConnection connfd junk))"
  have b: "conn_ok b" "close_inv b" "state b = KConnecting"
    using conn_ok_new [of connfd junk] close_inv_new [of connfd junk]
    by (auto simp: b_def setHighWaterMarkCallback_def setWriteCompleteCallback_def conn_ok_def conn_inv_def wired_def
        close_inv_def closes_def TcpConnection_def)
  define s1 where "s1 = s\<lparr>threadPool := tp, connections := (connections s)(to_string (nextConnId s) \<mapsto> p),
    conns := (conns s)(p \<mapsto> \<lparr>cname = to_string (nextConnId s), cloop = io, cbody = b, cgone = False\<rparr>)\<rparr>"
  define s2 where "s2 = (srv_queue io (SEstablish p) s1)\<lparr>nextConnId := nextConnId s + 1\<rparr>"
  have inv2: "srv_inv s2"
    by (rule srv_inv_accept [OF inv p(1) b, where l = io])
      (use pick in \<open>auto simp: s2_def s1_def srv_queue_def\<close>)
  have exec: "srv_exec u (SAccept p connfd junk) s =
      rbind (if eventloop s = io then establish u (eventloop s) p s1 else Inr (srv_queue io (SEstablish p) s1))
        (\<lambda>s'. if nextConnId s' < 2 ^ 31 - 1 then Inr (s'\<lparr>nextConnId := nextConnId s' + 1\<rparr>) else Inl Undefined)"
    using True pick by (simp add: acceptor_HandleRead_def newConnection_def Let_def b_def s1_def)
  show ?thesis
  proof (cases "eventloop s = io")
    case False
    have "nextConnId (srv_queue io (SEstablish p) s1) = nextConnId s" by (simp add: srv_queue_def s1_def)
    then show ?thesis using False inv2 p(2) unfolding exec by (simp add: s2_def)
  next
    case direct: True
    let ?s0 = "s1\<lparr>nextConnId := nextConnId s + 1\<rparr>"
    have none: "SEstablish p \<notin> set (queues s k)" for k
      using srv_invD(2) [OF inv, of "SEstablish p" k] p(1) by (auto simp: functor_stage_def)
    have s0: "?s0 = s2\<lparr>queues := \<lambda>k. removeAll (SEstablish p) (queues s2 k)\<rparr>"
      using none by (simp add: s2_def s1_def srv_queue_def fun_eq_iff removeAll_id)
    have q: "SEstablish p \<in> set (queues s2 io)" by (simp add: s2_def srv_queue_def)
    from step_establish [OF inv2 u q s0]
    have est: "case rbind (establish u io p s1) (\<lambda>s'. Inr (s'\<lparr>nextConnId := nextConnId s + 1\<rparr>)) of
        Inl e \<Rightarrow> e = LengthError | Inr s' \<Rightarrow> srv_inv s'"
      by (simp only: establish_nextConnId)
    have "nextConnId s' = nextConnId s" if "establish u io p s1 = Inr s'" for s'
      using that by (auto simp: establish_def set_body_def deref_def rbind_Inr_iff s1_def split: option.splits)
    then show ?thesis using est direct p(2) unfolding exec by (cases "establish u io p s1") auto
  qed
qed (use inv in \<open>simp add: acceptor_HandleRead_def\<close>)

lemma srv_step:
  "srv_inv s \<Longrightarrow> user_ok u \<Longrightarrow> srv_ok a s \<Longrightarrow>
    case srv_exec u a s of Inl e \<Rightarrow> e = LengthError | Inr s' \<Rightarrow> srv_inv s'"
  by (cases a) (blast intro: step_accept step_run step_conn)+

interpretation sv: legal_system "srv_exec u" srv_ok "\<lambda>s. user_ok u \<and> srv_inv s" "\<lambda>e. e = LengthError" for u :: user_prog
proof
  fix s a
  assume s: "user_ok u \<and> srv_inv s" and "srv_ok a s"
  then show "case srv_exec u a s of Inl e \<Rightarrow> e = LengthError | Inr s' \<Rightarrow> user_ok u \<and> srv_inv s'"
    using srv_step [of s u a] by (simp split: sum.splits)
qed

lemma srv_history:
  "srv_inv s \<Longrightarrow> user_ok u \<Longrightarrow> srv_all_ok u as s \<Longrightarrow>
    case rfold (srv_exec u) as s of Inl e \<Rightarrow> e = LengthError | Inr s' \<Rightarrow> srv_inv s'"
  using sv.history [of u s as] by (simp split: sum.splits)

lemma srv_inv_start:
  assumes "srv_start True cb addr (srv_setThreadNum n (TcpServer base fd)) = Inr s"
  shows "srv_inv s"
  using assms
  by (auto simp: srv_start_def srv_setThreadNum_def TcpServer_def pool_start_def setThreadNum_def
      EventLoopThreadPool_def Let_def result_iffs cassert_Inr_iff srv_inv_def names_inv_def pool_ok_def split: if_splits)

text \<open>C2: no step of the server fails an assertion, follows a dangling pointer or removes a name that is not in
  the map; \<open>append\<close> beyond \<open>max_size\<close> is the only error. The map holds the connections under their own
  names, no two under one name. A connection that is not disconnected is in it; one that is, and not yet destroyed, has
  exactly the functor queued that its loop still has to run; after \<open>ConnectDestoryed\<close> nothing holds it, and
  its destructor's assertion holds.\<close>

theorem server_safe:
  assumes "user_ok u" and "srv_start True cb addr (srv_setThreadNum n (TcpServer base fd)) = Inr s0"
    and "srv_all_ok u as s0"
  shows "case rfold (srv_exec u) as s0 of
      Inl e \<Rightarrow> e = LengthError
    | Inr s \<Rightarrow>
        (\<forall>k p. connections s k = Some p \<longrightarrow> (\<exists>c. conns s p = Some c \<and> cname c = k \<and> \<not> cgone c)) \<and>
        (\<forall>p c. conns s p = Some c \<longrightarrow>
           (if state (cbody c) = KConnecting then in_map s p c \<and> SEstablish p \<in> set (queues s (cloop c))
            else if state (cbody c) \<noteq> KDisconnected then in_map s p c
            else if cgone c then \<not> in_map s p c \<and> (\<forall>l. \<forall>f \<in> set (queues s l). fptr f \<noteq> p) \<and> conn_delete (cbody c) = Inr ()
            else if in_map s p c then SRemove p \<in> set (queues s (eventloop s))
            else SDestroy p \<in> set (queues s (cloop c)))) \<and>
        (\<forall>l. distinct (queues s l))"
proof (cases "rfold (srv_exec u) as s0")
  case (Inl e)
  then show ?thesis using srv_history [OF srv_inv_start [OF assms(2)] assms(1,3)] by simp
next
  case (Inr s)
  have inv: "srv_inv s" using srv_history [OF srv_inv_start [OF assms(2)] assms(1,3)] Inr by simp
  have stage: "if state (cbody c) = KConnecting then in_map s p c \<and> SEstablish p \<in> set (queues s (cloop c))
      else if state (cbody c) \<noteq> KDisconnected then in_map s p c
      else if cgone c then \<not> in_map s p c \<and> (\<forall>l. \<forall>f \<in> set (queues s l). fptr f \<noteq> p) \<and> conn_delete (cbody c) = Inr ()
      else if in_map s p c then SRemove p \<in> set (queues s (eventloop s))
      else SDestroy p \<in> set (queues s (cloop c))" if "conns s p = Some c" for p c
    using srv_invD(3) [OF inv that] queued_for [OF inv that]
    by (fastforce simp: conn_stage_def conn_delete_def)
  have held: "\<exists>c. conns s p = Some c \<and> cname c = k \<and> \<not> cgone c" if k: "connections s k = Some p" for k p
  proof -
    obtain c where c: "conns s p = Some c" "cname c = k"
      using srv_invD(4) [OF inv] k unfolding names_inv_def by blast
    then have "\<not> cgone c" using stage [OF c(1)] srv_invD(3) [OF inv c(1)] k by (auto simp: conn_stage_def in_map_def)
    then show ?thesis using c by blast
  qed
  show ?thesis using Inr stage held srv_invD(1) [OF inv] by simp
qed

text \<open>One connection on the only other loop: accepted, established there, hung up, removed, destroyed.\<close>

definition silent_user :: user_prog where
  "silent_user = ((\<lambda>_. None), (\<lambda>_. []))"

definition one_life :: "srv_act list" where
  "one_life = [SAccept 5 9 0, SRun 10, SConn 5 (AEvent POLLHUP (ReadOk []) (Wrote 0)), SRun 1, SRun 10]"

definition one_server :: "server result" where
  "one_server = srv_start True True (\<lambda>i. 10 + i) (srv_setThreadNum 1 (TcpServer 1 3))"

lemmas server_run =
  one_life_def silent_user_def one_server_def srv_start_def srv_setThreadNum_def TcpServer_def EventLoopThreadPool_def
  setThreadNum_def pool_start_def acceptor_listen_def Acceptor_def getNextLoop_def acceptor_HandleRead_def newConnection_def
  srv_queue_def set_body_def establish_def destroy_def removeConnection_def removeConnectionInLoop_def Let_def
  TcpConnection_def setHighWaterMarkCallback_def setWriteCompleteCallback_def ConnectEstablished_def ConnectDestoryed_def
  call_def user_callbacks_def emit_def upd_channel_def Channel_def SetReadCallback_def SetWirteCallback_def
  SetCloseCallback_def KNoneEvent_def conn_HandleEvent_eq conn_upd_handling call_if_def SetReceiveEvent_def
  handleClose_def closes_def poll_bits read_ok_def hup_and_read_def set_interest_def

lemma one_life_run:
  "\<exists>s0. one_server = Inr s0 \<and> srv_all_ok silent_user one_life s0 \<and>
     (\<exists>s c. rfold (srv_exec silent_user) one_life s0 = Inr s \<and> conns s 5 = Some c \<and> cgone c)"
  by (simp add: server_run)

theorem server_safe_witness:
  "\<exists>s0 s c. rfold (srv_exec silent_user) one_life s0 = Inr s \<and> conns s 5 = Some c \<and> cgone c \<and>
     \<not> in_map s 5 c \<and> conn_delete (cbody c) = Inr ()"
proof -
  have u: "user_ok silent_user" by (simp add: user_ok_def silent_user_def)
  obtain s0 s c where run: "one_server = Inr s0" "srv_all_ok silent_user one_life s0"
      "rfold (srv_exec silent_user) one_life s0 = Inr s" "conns s 5 = Some c" "cgone c"
    using one_life_run by blast
  from server_safe [OF u run(1) [unfolded one_server_def] run(2)] run(3)
  have "conns s 5 = Some c \<longrightarrow>
      (if state (cbody c) = KConnecting then in_map s 5 c \<and> SEstablish 5 \<in> set (queues s (cloop c))
       else if state (cbody c) \<noteq> KDisconnected then in_map s 5 c
       else if cgone c then \<not> in_map s 5 c \<and> (\<forall>l. \<forall>f \<in> set (queues s l). fptr f \<noteq> 5) \<and> conn_delete (cbody c) = Inr ()
       else if in_map s 5 c then SRemove 5 \<in> set (queues s (eventloop s))
       else SDestroy 5 \<in> set (queues s (cloop c)))" by simp
  moreover have "state (cbody c) = KDisconnected"
    using srv_history [OF srv_inv_start [OF run(1) [unfolded one_server_def]] u run(2)] run(3-5)
    by (auto simp: srv_inv_def conn_stage_def)
  ultimately show ?thesis using run by auto
qed

end
