(* ===== verification/Connector.thy ===== *)
theory Connector
  imports Channel "HOL-Library.Multiset"
begin

text \<open>
  \<open>net/Connector.h\<close> and \<open>net/Connector.cpp\<close>: the active side of a connection. The state is the
  members of the class and what the loop holds for it (functors queued, retries waiting for
  \<open>runAfter\<close>); \<open>opened\<close>, \<open>closed\<close> and \<open>given\<close> record the sockets made, closed and passed to
  \<open>newConnectionCallback_\<close>, \<open>delays\<close> the retry delays since the last \<open>restart\<close>. The kernel's
  answers (the new socket and the \<open>errno\<close> of \<open>connect\<close>, \<open>SO_ERROR\<close>, the addresses that
  \<open>isSelfConnect\<close> compares) are arguments.
\<close>

section \<open>State\<close>

datatype States = CDisconnected | CConnecting | CConnected

datatype connector_functor = RunStart | RunStop | ResetChannel

definition kMaxRetryDelayMs :: int where "kMaxRetryDelayMs = 30 * 1000"
definition kInitRetryDelayMs :: int where "kInitRetryDelayMs = 500"

record connector =
  enableConnect :: bool
  cstate :: States
  retryDelayMs :: int
  cchannel :: "unit channel option"
  newConnectionCallback :: bool
  cpending :: "connector_functor list"
  retries :: "int list"
  opened :: "int list"
  closed :: "int list"
  given :: "int list"
  delays :: "int list"

definition Connector :: connector where
  "Connector = \<lparr>enableConnect = False, cstate = CDisconnected, retryDelayMs = kInitRetryDelayMs, cchannel = None,
     newConnectionCallback = False, cpending = [], retries = [], opened = [], closed = [], given = [], delays = []\<rparr>"

definition setNewConnectionCallback :: "connector \<Rightarrow> connector" where
  "setNewConnectionCallback s = s\<lparr>newConnectionCallback := True\<rparr>"

definition queue_functor :: "connector_functor \<Rightarrow> connector \<Rightarrow> connector" where
  "queue_functor f s = s\<lparr>cpending := cpending s @ [f]\<rparr>"

definition close_fd :: "int \<Rightarrow> connector \<Rightarrow> connector" where
  "close_fd fd s = s\<lparr>closed := closed s @ [fd]\<rparr>"

section \<open>The errors of connect\<close>

definition EINTR :: int where "EINTR = 4"
definition EAGAIN :: int where "EAGAIN = 11"
definition EADDRINUSE :: int where "EADDRINUSE = 98"
definition EADDRNOTAVAIL :: int where "EADDRNOTAVAIL = 99"
definition ENETUNREACH :: int where "ENETUNREACH = 101"
definition EISCONN :: int where "EISCONN = 106"
definition ECONNREFUSED :: int where "ECONNREFUSED = 111"
definition EINPROGRESS :: int where "EINPROGRESS = 115"

lemmas connect_errnos =
  EINTR_def EAGAIN_def EADDRINUSE_def EADDRNOTAVAIL_def ENETUNREACH_def EISCONN_def ECONNREFUSED_def EINPROGRESS_def

datatype connect_case = Proceed | Retry | GiveUp

text \<open>The \<open>switch\<close>; its third group and its default both close the socket.\<close>

definition connect_switch :: "int \<Rightarrow> connect_case" where
  "connect_switch e =
     (if e \<in> {0, EINPROGRESS, EINTR, EISCONN} then Proceed
      else if e \<in> {EAGAIN, EADDRINUSE, EADDRNOTAVAIL, ECONNREFUSED, ENETUNREACH} then Retry
      else GiveUp)"

section \<open>Operations\<close>

definition retry :: "int \<Rightarrow> connector \<Rightarrow> connector" where
  "retry fd s =
     (let s1 = (close_fd fd s)\<lparr>cstate := CDisconnected\<rparr>
      in if enableConnect s1
         then s1\<lparr>retries := retries s1 @ [retryDelayMs s1], delays := delays s1 @ [retryDelayMs s1],
                retryDelayMs := min (retryDelayMs s1 * 2) kMaxRetryDelayMs\<rparr>
         else s1)"

definition connecting :: "int \<Rightarrow> connector \<Rightarrow> connector result" where
  "connecting fd s =
     cassert (cchannel s = None)
       (Inr (s\<lparr>cstate := CConnecting,
              cchannel := Some (set_interest EnableWriteEvent (SetWirteCallback () (Channel 0 fd)))\<rparr>))"

definition connect :: "int \<times> int \<Rightarrow> connector \<Rightarrow> connector result" where
  "connect ans s =
     (let (fd, saveError) = ans; s1 = s\<lparr>opened := opened s @ [fd]\<rparr>
      in case connect_switch saveError of
           Proceed \<Rightarrow> connecting fd s1
         | Retry \<Rightarrow> Inr (retry fd s1)
         | GiveUp \<Rightarrow> Inr (close_fd fd s1))"

definition startInLoop :: "bool \<Rightarrow> int \<times> int \<Rightarrow> connector \<Rightarrow> connector result" where
  "startInLoop inLoop ans s =
     assertInLoopThread inLoop
       (cassert (cstate s = CDisconnected) (if enableConnect s then connect ans s else Inr s))"

definition start :: "bool \<Rightarrow> int \<times> int \<Rightarrow> connector \<Rightarrow> connector result" where
  "start inLoop ans s =
     (let s1 = s\<lparr>enableConnect := True\<rparr>
      in if inLoop then startInLoop True ans s1 else Inr (queue_functor RunStart s1))"

text \<open>\<open>channel_\<close> is dereferenced: a null pointer is an error. The channel is taken out of the poller, but
  it is only destroyed by the queued \<open>resetChannel\<close>.\<close>

definition removeAndResetChannel :: "connector \<Rightarrow> (int \<times> connector) result" where
  "removeAndResetChannel s =
     (case cchannel s of
        None \<Rightarrow> Inl BadDeref
      | Some c \<Rightarrow> Inr (m_socketFd c,
          queue_functor ResetChannel (s\<lparr>cchannel := Some (set_interest DisableAllEvent c)\<rparr>)))"

definition resetChannel :: "connector \<Rightarrow> connector" where
  "resetChannel s = s\<lparr>cchannel := None\<rparr>"

text \<open>\<open>SocketHelper::isSelfConnect\<close> on the (port, address) pairs of the two ends.\<close>

definition isSelfConnect :: "int \<times> int \<Rightarrow> int \<times> int \<Rightarrow> bool" where
  "isSelfConnect localAddr peerAddr \<longleftrightarrow> fst localAddr = fst peerAddr \<and> snd localAddr = snd peerAddr"

definition handleWrite :: "int \<Rightarrow> int \<times> int \<Rightarrow> int \<times> int \<Rightarrow> connector \<Rightarrow> connector result" where
  "handleWrite err localAddr peerAddr s =
     (if cstate s = CConnecting
      then rbind (removeAndResetChannel s) (\<lambda>(fd, s1).
             if err \<noteq> 0 then Inr (retry fd s1)
             else if isSelfConnect localAddr peerAddr then Inr (retry fd s1)
             else let s2 = s1\<lparr>cstate := CConnected\<rparr>
                  in if enableConnect s2
                     then Inr (if newConnectionCallback s2 then s2\<lparr>given := given s2 @ [fd]\<rparr> else s2)
                     else Inr (close_fd fd s2))
      else cassert (cstate s = CDisconnected) (Inr s))"

definition restart :: "bool \<Rightarrow> int \<times> int \<Rightarrow> connector \<Rightarrow> connector result" where
  "restart inLoop ans s =
     assertInLoopThread inLoop
       (startInLoop inLoop ans
         (s\<lparr>cstate := CDisconnected, retryDelayMs := kInitRetryDelayMs, enableConnect := True, delays := []\<rparr>))"

definition stop :: "connector \<Rightarrow> connector" where
  "stop s = queue_functor RunStop (s\<lparr>enableConnect := False\<rparr>)"

definition stopInLoop :: "bool \<Rightarrow> connector \<Rightarrow> connector result" where
  "stopInLoop inLoop s =
     assertInLoopThread inLoop
       (if cstate s = CConnecting
        then rbind (removeAndResetChannel (s\<lparr>cstate := CDisconnected\<rparr>)) (\<lambda>(fd, s1). Inr (retry fd s1))
        else Inr s)"

definition connector_delete :: "connector \<Rightarrow> unit result" where
  "connector_delete s = cassert (cchannel s = None) (Inr ())"

text \<open>What the loop does for it: the first queued functor, the \<open>i\<close>-th retry, a write event.\<close>

fun exec_connector_functor :: "int \<times> int \<Rightarrow> connector_functor \<Rightarrow> connector \<Rightarrow> connector result" where
  "exec_connector_functor ans RunStart s = startInLoop True ans s"
| "exec_connector_functor ans RunStop s = stopInLoop True s"
| "exec_connector_functor ans ResetChannel s = Inr (resetChannel s)"

datatype connector_act =
    Start "int \<times> int"
  | OtherStart
  | Stop
  | Restart "int \<times> int"
  | RunFunctor "int \<times> int"
  | RetryTimer nat "int \<times> int"
  | Writable int "int \<times> int" "int \<times> int"

fun connector_exec :: "connector_act \<Rightarrow> connector \<Rightarrow> connector result" where
  "connector_exec (Start ans) s = start True ans s"
| "connector_exec OtherStart s = start False (0, 0) s"
| "connector_exec Stop s = Inr (stop s)"
| "connector_exec (Restart ans) s = restart True ans s"
| "connector_exec (RunFunctor ans) s =
     (case cpending s of [] \<Rightarrow> Inr s | f # fs \<Rightarrow> exec_connector_functor ans f (s\<lparr>cpending := fs\<rparr>))"
| "connector_exec (RetryTimer i ans) s =
     (if i < length (retries s)
      then startInLoop True ans (s\<lparr>retries := take i (retries s) @ drop (Suc i) (retries s)\<rparr>) else Inr s)"
| "connector_exec (Writable err l p) s = handleWrite err l p s"

lemmas connector_ops =
  startInLoop_def start_def connect_def connecting_def retry_def removeAndResetChannel_def resetChannel_def
  handleWrite_def restart_def stop_def stopInLoop_def close_fd_def queue_functor_def Let_def

section \<open>Invariants\<close>

text \<open>The delay of the \<open>k\<close>-th retry since the last \<open>restart\<close>.\<close>

definition backoff :: "nat \<Rightarrow> int" where
  "backoff k = min (kInitRetryDelayMs * 2 ^ k) kMaxRetryDelayMs"

lemma backoff_0: "backoff 0 = kInitRetryDelayMs"
  by (simp add: backoff_def kInitRetryDelayMs_def kMaxRetryDelayMs_def)

lemma backoff_Suc: "backoff (Suc k) = min (backoff k * 2) kMaxRetryDelayMs"
  by (auto simp: backoff_def kInitRetryDelayMs_def kMaxRetryDelayMs_def min_def)

definition backoff_inv :: "connector \<Rightarrow> bool" where
  "backoff_inv s \<longleftrightarrow> delays s = map backoff [0..<length (delays s)] \<and> retryDelayMs s = backoff (length (delays s))"

lemma retry_simps [simp]:
  "cstate (retry fd s) = CDisconnected" "enableConnect (retry fd s) = enableConnect s" "cchannel (retry fd s) = cchannel s"
  "newConnectionCallback (retry fd s) = newConnectionCallback s" "cpending (retry fd s) = cpending s"
  "opened (retry fd s) = opened s" "closed (retry fd s) = closed s @ [fd]" "given (retry fd s) = given s"
  "retries (retry fd s) = retries s @ (if enableConnect s then [retryDelayMs s] else [])"
  by (simp_all add: retry_def close_fd_def Let_def)

lemma backoff_inv_retry: "backoff_inv s \<Longrightarrow> backoff_inv (retry fd s)"
  by (simp add: backoff_inv_def retry_def Let_def close_fd_def backoff_Suc)

lemma backoff_inv_opened: "backoff_inv (s\<lparr>opened := x\<rparr>) = backoff_inv s"
  by (simp add: backoff_inv_def)

lemma backoff_inv_connect: "backoff_inv s \<Longrightarrow> connect ans s = Inr s' \<Longrightarrow> backoff_inv s'"
  by (auto simp: connect_def connecting_def Let_def close_fd_def cassert_Inr_iff backoff_inv_retry backoff_inv_opened
      split: prod.splits connect_case.splits)
    (simp_all add: backoff_inv_def)

lemma backoff_inv_start: "backoff_inv s \<Longrightarrow> startInLoop b ans s = Inr s' \<Longrightarrow> backoff_inv s'"
  by (auto simp: startInLoop_def result_iffs split: if_splits dest: backoff_inv_connect)

lemma backoff_inv_remove: "removeAndResetChannel s = Inr (fd, s1) \<Longrightarrow> backoff_inv s1 = backoff_inv s"
  by (auto simp: removeAndResetChannel_def queue_functor_def backoff_inv_def split: option.splits)

lemma backoff_inv_cong:
  "backoff_inv (s\<lparr>cstate := st\<rparr>) = backoff_inv s" "backoff_inv (s\<lparr>cpending := x\<rparr>) = backoff_inv s"
  "backoff_inv (s\<lparr>retries := r\<rparr>) = backoff_inv s" "backoff_inv (s\<lparr>enableConnect := b\<rparr>) = backoff_inv s"
  "backoff_inv (s\<lparr>cchannel := c\<rparr>) = backoff_inv s" "backoff_inv (s\<lparr>given := g\<rparr>) = backoff_inv s"
  "backoff_inv (close_fd fd s) = backoff_inv s"
  by (simp_all add: backoff_inv_def close_fd_def)

lemma backoff_inv_stop: "backoff_inv s \<Longrightarrow> stopInLoop b s = Inr s' \<Longrightarrow> backoff_inv s'"
  by (auto simp: stopInLoop_def result_iffs backoff_inv_cong dest!: backoff_inv_remove split: if_splits
      intro!: backoff_inv_retry)

lemma backoff_inv_write: "backoff_inv s \<Longrightarrow> handleWrite e l p s = Inr s' \<Longrightarrow> backoff_inv s'"
  by (auto simp: handleWrite_def result_iffs backoff_inv_cong Let_def dest!: backoff_inv_remove split: if_splits
      intro!: backoff_inv_retry)

lemma backoff_inv_functor:
  "backoff_inv s \<Longrightarrow> exec_connector_functor ans f s = Inr s' \<Longrightarrow> backoff_inv s'"
  by (cases f) (auto simp: resetChannel_def backoff_inv_cong dest: backoff_inv_start backoff_inv_stop)

lemma backoff_inv_exec:
  assumes inv: "backoff_inv s" and ex: "connector_exec a s = Inr s'"
  shows "backoff_inv s'"
proof (cases a)
  case (RunFunctor ans)
  then show ?thesis
    using ex inv backoff_inv_functor [of "s\<lparr>cpending := tl (cpending s)\<rparr>"]
    by (cases "cpending s") (auto simp: backoff_inv_cong)
next
  case (Restart ans)
  have "backoff_inv (s\<lparr>cstate := CDisconnected, retryDelayMs := kInitRetryDelayMs, enableConnect := True, delays := []\<rparr>)"
    by (simp add: backoff_inv_def backoff_0)
  then show ?thesis using ex Restart backoff_inv_start by (auto simp: restart_def)
next
  case (Start ans)
  then show ?thesis
    using ex backoff_inv_start [of "s\<lparr>enableConnect := True\<rparr>" True ans s'] inv
    by (simp add: start_def backoff_inv_cong)
next
  case (RetryTimer i ans)
  then show ?thesis
    using ex inv backoff_inv_start [of "s\<lparr>retries := take i (retries s) @ drop (Suc i) (retries s)\<rparr>" True ans s']
    by (simp add: backoff_inv_cong split: if_splits)
qed (use inv ex backoff_inv_write in \<open>auto simp: start_def stop_def queue_functor_def backoff_inv_cong\<close>)

text \<open>\<open>channel_\<close> lives exactly while connecting or until its queued destruction.\<close>

definition channel_inv :: "connector \<Rightarrow> bool" where
  "channel_inv s \<longleftrightarrow>
     (cchannel s = None \<longleftrightarrow> cstate s \<noteq> CConnecting \<and> ResetChannel \<notin> set (cpending s)) \<and>
     (cstate s = CConnecting \<longrightarrow> ResetChannel \<notin> set (cpending s)) \<and>
     length (filter ((=) ResetChannel) (cpending s)) \<le> 1"

text \<open>Every socket made is being connected, closed or given away.\<close>

definition being_connected :: "connector \<Rightarrow> int multiset" where
  "being_connected s =
     (if cstate s = CConnecting then (case cchannel s of None \<Rightarrow> {#} | Some c \<Rightarrow> {#m_socketFd c#}) else {#})"

definition sockets_inv :: "connector \<Rightarrow> bool" where
  "sockets_inv s \<longleftrightarrow> newConnectionCallback s \<and>
     mset (opened s) = mset (closed s) + mset (given s) + being_connected s"

text \<open>\<open>TcpClient\<close> restarts its connector when a connection is lost, never while connecting.\<close>

definition connector_inv :: "connector \<Rightarrow> bool" where
  "connector_inv s \<longleftrightarrow> channel_inv s \<and> sockets_inv s"

lemmas connector_invs = connector_inv_def channel_inv_def sockets_inv_def being_connected_def

lemma connector_inv_connect:
  assumes "connector_inv s" "cstate s \<noteq> CConnecting" "connect ans s = Inr s'"
  shows "connector_inv s'"
proof -
  obtain fd e where ans: "ans = (fd, e)" by force
  show ?thesis
  proof (cases "connect_switch e")
    case Proceed
    then show ?thesis using assms ans
      by (auto simp: connector_invs connect_def connecting_def Let_def cassert_Inr_iff Channel_def
          SetWirteCallback_def set_interest_def)
  qed (use assms ans in \<open>auto simp: connector_invs connect_def close_fd_def Let_def\<close>)
qed

lemma connector_inv_start:
  "connector_inv s \<Longrightarrow> startInLoop b ans s = Inr s' \<Longrightarrow> connector_inv s'"
  by (auto simp: startInLoop_def result_iffs split: if_splits dest: connector_inv_connect)

lemma connector_inv_handleWrite:
  assumes "connector_inv s" "handleWrite e l p s = Inr s'"
  shows "connector_inv s'"
proof (cases "cstate s = CConnecting")
  case True
  then obtain c where c: "cchannel s = Some c" using assms(1) by (auto simp: connector_invs)
  have "filter ((=) ResetChannel) (cpending s) = []"
    using True assms(1) by (auto simp: connector_invs filter_empty_conv)
  then show ?thesis
    using assms True c by (auto simp: connector_invs handleWrite_def stopInLoop_def removeAndResetChannel_def queue_functor_def close_fd_def Let_def
        set_interest_def split: if_splits)
qed (use assms in \<open>auto simp: handleWrite_def cassert_Inr_iff\<close>)

lemma connector_inv_stopInLoop:
  assumes "connector_inv s" "stopInLoop True s = Inr s'"
  shows "connector_inv s'"
proof (cases "cstate s = CConnecting")
  case True
  then obtain c where c: "cchannel s = Some c" using assms(1) by (auto simp: connector_invs)
  have "filter ((=) ResetChannel) (cpending s) = []"
    using True assms(1) by (auto simp: connector_invs filter_empty_conv)
  then show ?thesis
    using assms True c by (auto simp: connector_invs handleWrite_def stopInLoop_def removeAndResetChannel_def queue_functor_def close_fd_def Let_def
        set_interest_def split: if_splits)
qed (use assms in \<open>auto simp: stopInLoop_def\<close>)

lemma connector_inv_functor:
  assumes "connector_inv s" "cpending s = f # fs" "exec_connector_functor ans f (s\<lparr>cpending := fs\<rparr>) = Inr s'"
  shows "connector_inv s'"
proof (cases f)
  case ResetChannel
  have "ResetChannel \<notin> set fs"
  proof
    assume "ResetChannel \<in> set fs"
    then have "filter ((=) ResetChannel) fs \<noteq> []" by (auto simp: filter_empty_conv)
    then show False using assms(1,2) ResetChannel by (auto simp: connector_invs)
  qed
  then show ?thesis
    using assms ResetChannel by (auto simp: connector_invs resetChannel_def filter_empty_conv)
next
  case RunStart
  have "connector_inv (s\<lparr>cpending := fs\<rparr>)" using assms(1,2) RunStart by (auto simp: connector_invs)
  then show ?thesis using assms(3) RunStart connector_inv_start by auto
next
  case RunStop
  have "connector_inv (s\<lparr>cpending := fs\<rparr>)" using assms(1,2) RunStop by (auto simp: connector_invs)
  then show ?thesis using assms(3) RunStop connector_inv_stopInLoop by auto
qed

section \<open>Usage\<close>

text \<open>How the connector may be used: it is started only when it is idle (no retry and no other start
  waiting), restarted only when its connection is lost, and the functors of a turn of
  the loop run before a retry of a later turn does.\<close>

fun legal :: "connector_act \<Rightarrow> connector \<Rightarrow> bool" where
  "legal (Start ans) s \<longleftrightarrow>
     cstate s = CDisconnected \<and> retries s = [] \<and> RunStart \<notin> set (cpending s) \<and> cchannel s = None"
| "legal OtherStart s \<longleftrightarrow> cstate s = CDisconnected \<and> retries s = [] \<and> RunStart \<notin> set (cpending s)"
| "legal Stop s \<longleftrightarrow> True"
| "legal (Restart ans) s \<longleftrightarrow> cstate s = CConnected \<and> cchannel s = None"
| "legal (RunFunctor ans) s \<longleftrightarrow> True"
| "legal (RetryTimer i ans) s \<longleftrightarrow> cchannel s = None"
| "legal (Writable err l p) s \<longleftrightarrow> cchannel s \<noteq> None \<and> cstate s \<noteq> CConnected"

abbreviation all_legal :: "connector_act list \<Rightarrow> connector \<Rightarrow> bool" where
  "all_legal \<equiv> legal_run connector_exec legal"

text \<open>At most one start is under way, and no destruction of the channel comes after it.\<close>

fun reset_first :: "connector_functor list \<Rightarrow> bool" where
  "reset_first [] \<longleftrightarrow> True"
| "reset_first (f # fs) \<longleftrightarrow> (f = RunStart \<longrightarrow> ResetChannel \<notin> set fs) \<and> reset_first fs"

definition usage_inv :: "connector \<Rightarrow> bool" where
  "usage_inv s \<longleftrightarrow>
     (cstate s \<noteq> CDisconnected \<longrightarrow> retries s = [] \<and> RunStart \<notin> set (cpending s)) \<and>
     length (retries s) + length (filter ((=) RunStart) (cpending s)) \<le> 1 \<and> reset_first (cpending s)"

lemma reset_first_none: "RunStart \<notin> set fs \<Longrightarrow> reset_first fs"
  by (induction fs) auto

lemma reset_first_snoc:
  "reset_first (fs @ [f]) \<longleftrightarrow> reset_first fs \<and> (f = ResetChannel \<longrightarrow> RunStart \<notin> set fs)"
  by (induction fs) auto

lemma no_start_filter: "RunStart \<notin> set fs \<Longrightarrow> filter ((=) RunStart) fs = []"
  by (auto simp: filter_empty_conv)

lemma connect_usage:
  assumes "cstate s = CDisconnected" "retries s = []" "RunStart \<notin> set (cpending s)" "cchannel s = None"
  shows "\<exists>s'. connect ans s = Inr s' \<and> usage_inv s'"
proof -
  obtain fd e where "ans = (fd, e)" by force
  then show ?thesis
    using assms reset_first_none [OF assms(3)] no_start_filter [OF assms(3)]
    by (cases "connect_switch e") (auto simp: connect_def connecting_def usage_inv_def close_fd_def Let_def)
qed

lemma start_usage:
  assumes "cstate s = CDisconnected" "retries s = []" "RunStart \<notin> set (cpending s)" "cchannel s = None"
  shows "\<exists>s'. startInLoop True ans s = Inr s' \<and> usage_inv s'"
  using connect_usage [OF assms] assms reset_first_none [OF assms(3)] no_start_filter [OF assms(3)]
  by (cases "enableConnect s") (auto simp: startInLoop_def usage_inv_def)

lemma close_usage:
  assumes inv: "channel_inv s" "usage_inv s" and st: "cstate s = CConnecting"
  shows "\<exists>fd s1. removeAndResetChannel (s\<lparr>cstate := st'\<rparr>) = Inr (fd, s1) \<and> (\<forall>fd'. usage_inv (retry fd' s1)) \<and>
    usage_inv (s1\<lparr>cstate := CConnected\<rparr>)"
proof -
  have p: "retries s = []" "RunStart \<notin> set (cpending s)" using inv(2) st by (auto simp: usage_inv_def)
  obtain c where "cchannel s = Some c" using inv(1) st by (auto simp: channel_inv_def)
  then show ?thesis
    using p reset_first_none [OF p(2)] no_start_filter [OF p(2)]
    by (simp add: removeAndResetChannel_def queue_functor_def usage_inv_def reset_first_snoc)
qed

lemma connector_step:
  assumes inv: "connector_inv s" "usage_inv s" and a: "legal a s"
  shows "\<exists>s'. connector_exec a s = Inr s' \<and> usage_inv s'"
proof -
  have ch: "channel_inv s" using inv(1) by (simp add: connector_inv_def)
  show ?thesis
  proof (cases a)
    case (Start ans)
    then show ?thesis using a start_usage [of "s\<lparr>enableConnect := True\<rparr>" ans] by (simp add: start_def)
  next
    case OtherStart
    then show ?thesis
      using a inv(2) no_start_filter [of "cpending s"]
      by (auto simp: start_def queue_functor_def usage_inv_def reset_first_snoc)
  next
    case Stop
    then show ?thesis using inv(2) by (auto simp: stop_def queue_functor_def usage_inv_def reset_first_snoc)
  next
    case (Restart ans)
    then have "retries s = []" "RunStart \<notin> set (cpending s)" using a inv(2) by (auto simp: usage_inv_def)
    then show ?thesis
      using a Restart start_usage [of "s\<lparr>cstate := CDisconnected, retryDelayMs := kInitRetryDelayMs,
          enableConnect := True, delays := []\<rparr>" ans] by (simp add: restart_def)
  next
    case (RetryTimer i ans)
    show ?thesis
    proof (cases "i < length (retries s)")
      case True
      have sum: "length (retries s) + length (filter ((=) RunStart) (cpending s)) \<le> 1"
        using inv(2) by (simp add: usage_inv_def)
      have n: "length (filter ((=) RunStart) (cpending s)) = 0" "i = 0" "length (retries s) = 1"
        using sum True by linarith+
      have "RunStart \<notin> set (cpending s)" using n(1) by (auto simp: filter_empty_conv)
      moreover have "cstate s = CDisconnected" using n(3) inv(2) by (auto simp: usage_inv_def)
      ultimately show ?thesis
        using a RetryTimer True n start_usage [of "s\<lparr>retries := take i (retries s) @ drop (Suc i) (retries s)\<rparr>" ans]
        by simp
    qed (use RetryTimer inv(2) in simp)
  next
    case (Writable err l p)
    show ?thesis
    proof (cases "cstate s = CConnecting")
      case True
      have "s\<lparr>cstate := CConnecting\<rparr> = s" using True by simp
      then obtain fd s1 where s1: "removeAndResetChannel s = Inr (fd, s1)"
        "\<And>fd'. usage_inv (retry fd' s1)" "usage_inv (s1\<lparr>cstate := CConnected\<rparr>)"
        using close_usage [OF ch inv(2) True, of CConnecting] by auto
      then show ?thesis
        using Writable True by (auto simp: handleWrite_def Let_def close_fd_def usage_inv_def)
    next
      case False
      then have "cstate s = CDisconnected" using a Writable by (cases "cstate s") auto
      then show ?thesis using Writable inv(2) by (simp add: handleWrite_def)
    qed
  next
    case (RunFunctor ans)
    show ?thesis
    proof (cases "cpending s")
      case Nil
      then show ?thesis using RunFunctor inv(2) by simp
    next
      case (Cons f fs)
      let ?s = "s\<lparr>cpending := fs\<rparr>"
      have u: "usage_inv ?s" using inv(2) Cons by (auto simp: usage_inv_def split: if_splits)
      show ?thesis
      proof (cases f)
        case RunStart
        have "cstate s = CDisconnected" "retries s = []" "RunStart \<notin> set fs" "ResetChannel \<notin> set fs"
          using inv(2) Cons RunStart by (auto simp: usage_inv_def filter_empty_conv)
        moreover from this have "cchannel s = None" using ch Cons RunStart by (auto simp: channel_inv_def)
        ultimately show ?thesis
          using RunFunctor Cons RunStart start_usage [of ?s ans] by simp
      next
        case RunStop
        have c: "channel_inv ?s" using ch Cons RunStop by (auto simp: channel_inv_def)
        show ?thesis
        proof (cases "cstate s = CConnecting")
          case True
          then have "cstate ?s = CConnecting" by simp
          then obtain fd s1 where "removeAndResetChannel (?s\<lparr>cstate := CDisconnected\<rparr>) = Inr (fd, s1)"
            "\<And>fd'. usage_inv (retry fd' s1)"
            using close_usage [OF c u, of CDisconnected] by blast
          then show ?thesis using RunFunctor Cons RunStop True by (simp add: stopInLoop_def)
        next
          case False
          then show ?thesis using RunFunctor Cons RunStop u by (simp add: stopInLoop_def)
        qed
      next
        case ResetChannel
        then show ?thesis using RunFunctor Cons u by (simp add: resetChannel_def usage_inv_def)
      qed
    qed
  qed
qed

lemma connector_inv_exec:
  assumes "connector_inv s" "legal a s" "connector_exec a s = Inr s'"
  shows "connector_inv s'"
proof (cases a)
  case (Start ans)
  then show ?thesis
    using assms connector_inv_start [of "s\<lparr>enableConnect := True\<rparr>"] by (simp add: start_def connector_invs)
next
  case OtherStart
  then show ?thesis using assms by (auto simp: start_def queue_functor_def connector_invs)
next
  case Stop
  then show ?thesis using assms by (auto simp: stop_def queue_functor_def connector_invs)
next
  case (Restart ans)
  let ?s = "s\<lparr>cstate := CDisconnected, retryDelayMs := kInitRetryDelayMs, enableConnect := True, delays := []\<rparr>"
  have "connector_inv ?s" using assms(1,2) Restart by (auto simp: connector_invs)
  then show ?thesis using assms(3) Restart connector_inv_start [of ?s] by (simp add: restart_def)
next
  case (RunFunctor ans)
  then show ?thesis using assms connector_inv_functor by (cases "cpending s") auto
next
  case (RetryTimer i ans)
  have "connector_inv (s\<lparr>retries := take i (retries s) @ drop (Suc i) (retries s)\<rparr>)"
    using assms(1) by (simp add: connector_invs)
  from connector_inv_start [OF this] show ?thesis using RetryTimer assms by (auto split: if_splits)
next
  case (Writable err l p)
  then show ?thesis using assms connector_inv_handleWrite by simp
qed

interpretation ks: legal_system connector_exec legal "\<lambda>s. connector_inv s \<and> usage_inv s" "\<lambda>_. False"
proof
  fix s a
  assume "connector_inv s \<and> usage_inv s" "legal a s"
  then show "case connector_exec a s of Inl e \<Rightarrow> False | Inr s' \<Rightarrow> connector_inv s' \<and> usage_inv s'"
    using connector_step [of s a] connector_inv_exec [of s a] by auto
qed

lemma connector_history:
  assumes "connector_inv s" "usage_inv s" "all_legal as s"
  shows "\<exists>s'. rfold connector_exec as s = Inr s' \<and> connector_inv s' \<and> usage_inv s'"
  using ks.history [of s as] assms by (auto split: sum.splits)

section \<open>Properties\<close>

definition new_connector :: connector where
  "new_connector = setNewConnectionCallback Connector"

lemma new_connector_inv: "connector_inv new_connector" "usage_inv new_connector" "backoff_inv new_connector"
  by (simp_all add: new_connector_def setNewConnectionCallback_def Connector_def connector_invs usage_inv_def
      backoff_inv_def backoff_0)

text \<open>C9: a connector that is started only when idle and restarted only when its connection is lost
  fails no assertion, and never leaks a socket or closes one twice: every socket it made is the one
  being connected, has been closed, or has been given to the new connection callback, each
  exactly once. Its channel exists only while connecting or until its destruction, which is queued.\<close>

theorem connector_safe:
  assumes "all_legal as new_connector"
  shows "\<exists>s. rfold connector_exec as new_connector = Inr s \<and>
    mset (opened s) = mset (closed s) + mset (given s) + being_connected s \<and>
    (cchannel s = None \<longleftrightarrow> cstate s \<noteq> CConnecting \<and> ResetChannel \<notin> set (cpending s)) \<and> length (retries s) \<le> 1"
proof -
  obtain s where s: "rfold connector_exec as new_connector = Inr s" "connector_inv s" "usage_inv s"
    using connector_history [OF new_connector_inv(1,2) assms] by blast
  then have "length (retries s) \<le> 1" by (auto simp: usage_inv_def)
  then show ?thesis using s by (auto simp: connector_inv_def channel_inv_def sockets_inv_def)
qed

lemmas run_connector =
  new_connector_def setNewConnectionCallback_def Connector_def connector_ops connect_switch_def connect_errnos
  Channel_def SetWirteCallback_def set_interest_def isSelfConnect_def kInitRetryDelayMs_def kMaxRetryDelayMs_def

text \<open>A refused attempt, a retry that gets through, its end, and the restart.\<close>

theorem connector_safe_witness:
  "\<exists>s. rfold connector_exec [Start (5, 111), RetryTimer 0 (6, 115), Writable 0 (1, 2) (3, 4), RunFunctor (0, 0),
       Restart (7, 115)] new_connector = Inr s \<and> closed s = [5] \<and> given s = [6] \<and> being_connected s = {#7#} \<and>
     mset (opened s) = mset (closed s) + mset (given s) + being_connected s"
proof -
  let ?as = "[Start (5, 111), RetryTimer 0 (6, 115), Writable 0 (1, 2) (3, 4), RunFunctor (0, 0), Restart (7, 115)]"
  have "all_legal ?as new_connector" by (simp add: run_connector)
  from connector_safe [OF this] obtain s where s: "rfold connector_exec ?as new_connector = Inr s"
    "mset (opened s) = mset (closed s) + mset (given s) + being_connected s"
    by blast
  moreover have "\<exists>s. rfold connector_exec ?as new_connector = Inr s \<and> closed s = [5] \<and> given s = [6] \<and> being_connected s = {#7#}"
    by (simp add: run_connector being_connected_def)
  ultimately show ?thesis by auto
qed

text \<open>whatever happens to a connector, its retries since it was last (re)started wait 0.5 s, 1 s, 2 s and so
  on, doubling up to 30 s and staying there; each delay is between the two constants.\<close>

theorem connector_backoff:
  assumes "rfold connector_exec as new_connector = Inr s"
  shows "delays s = map (\<lambda>k. min (kInitRetryDelayMs * 2 ^ k) kMaxRetryDelayMs) [0..<length (delays s)] \<and>
    (\<forall>d \<in> set (delays s). kInitRetryDelayMs \<le> d \<and> d \<le> kMaxRetryDelayMs)"
proof -
  have "backoff_inv s"
    by (rule rfold_inv [where I = "\<lambda>_. backoff_inv", OF assms new_connector_inv(3)])
      (rule backoff_inv_exec)
  moreover have "kInitRetryDelayMs \<le> backoff k" for k
    by (induction k) (auto simp: backoff_0 backoff_Suc kInitRetryDelayMs_def kMaxRetryDelayMs_def)
  moreover have "backoff k \<le> kMaxRetryDelayMs" for k by (simp add: backoff_def)
  ultimately show ?thesis
    unfolding backoff_inv_def by (metis (no_types, lifting) backoff_def imageE list.set_map map_ext)
qed

theorem connector_backoff_witness:
  "\<exists>s. rfold connector_exec (Start (5, 111) # concat (replicate 7 [RetryTimer 0 (6, 111)])) new_connector = Inr s \<and>
     delays s = [500, 1000, 2000, 4000, 8000, 16000, 30000, 30000] \<and>
     (\<forall>d \<in> set (delays s). kInitRetryDelayMs \<le> d \<and> d \<le> kMaxRetryDelayMs)"
proof -
  let ?as = "Start (5, 111) # concat (replicate 7 [RetryTimer 0 (6, 111)])"
  have "\<exists>s. rfold connector_exec ?as new_connector = Inr s \<and> delays s = [500, 1000, 2000, 4000, 8000, 16000, 30000, 30000]"
    by (simp add: run_connector numeral_eq_Suc [of "num.Bit1 num.One"] eval_nat_numeral)
  then obtain s where s: "rfold connector_exec ?as new_connector = Inr s"
    "delays s = [500, 1000, 2000, 4000, 8000, 16000, 30000, 30000]"
    by blast
  show ?thesis using connector_backoff [OF s(1)] s by blast
qed

text \<open>once \<open>enableConnect_\<close> is off, as \<open>stop\<close> leaves it, nothing but a new start makes a socket or
  reports a connection: whatever the queued functors, retries and write events do, the sockets made and
  those given to the callback stay the same.\<close>

definition starts :: "connector_act \<Rightarrow> bool" where
  "starts a \<longleftrightarrow> (case a of Start _ \<Rightarrow> True | OtherStart \<Rightarrow> True | Restart _ \<Rightarrow> True | _ \<Rightarrow> False)"

theorem connector_stop_final:
  assumes "\<not> enableConnect s" and "\<forall>a \<in> set as. \<not> starts a" and "rfold connector_exec as s = Inr s'"
  shows "opened s' = opened s \<and> given s' = given s \<and> \<not> enableConnect s'"
proof -
  have start: "startInLoop b ans t = Inr t' \<Longrightarrow> \<not> enableConnect t \<Longrightarrow> t' = t" for b ans t t'
    by (auto simp: startInLoop_def result_iffs)
  have remove: "removeAndResetChannel t = Inr (fd, t') \<Longrightarrow>
      opened t' = opened t \<and> given t' = given t \<and> enableConnect t' = enableConnect t" for t t' fd
    by (auto simp: removeAndResetChannel_def queue_functor_def split: option.splits)
  have written: "handleWrite e l p t = Inr t' \<Longrightarrow> \<not> enableConnect t \<Longrightarrow>
      opened t' = opened t \<and> given t' = given t \<and> \<not> enableConnect t'" for e l p t t'
    by (auto simp: handleWrite_def result_iffs Let_def close_fd_def split: if_splits dest!: remove)
  have stops: "stopInLoop b t = Inr t' \<Longrightarrow> \<not> enableConnect t \<Longrightarrow>
      opened t' = opened t \<and> given t' = given t \<and> \<not> enableConnect t'" for b t t'
    by (auto simp: stopInLoop_def result_iffs split: if_splits dest!: remove)
  have step: "opened t' = opened t \<and> given t' = given t \<and> \<not> enableConnect t'"
    if "\<not> starts a" "connector_exec a t = Inr t'" "\<not> enableConnect t" for a t t'
  proof (cases a)
    case (RunFunctor ans)
    then show ?thesis
    proof (cases "cpending t")
      case (Cons f fs)
      then show ?thesis
        using that RunFunctor by (cases f) (auto simp: resetChannel_def dest!: start stops)
    qed (use that in simp)
  qed (use that in \<open>auto simp: starts_def stop_def queue_functor_def dest!: start written split: if_splits\<close>)
  have "\<not> enableConnect s' \<and> opened s' = opened s \<and> given s' = given s"
    by (rule rfold_inv [where f = connector_exec and s = s and
          I = "\<lambda>as t. (\<forall>a \<in> set as. \<not> starts a) \<and> \<not> enableConnect t \<and> opened t = opened s \<and> given t = given s",
          OF assms(3), THEN conjunct2])
      (use assms(1,2) step in auto)
  then show ?thesis by blast
qed

theorem connector_stop_final_witness:
  "\<exists>s s'. rfold connector_exec [Start (5, 111), Stop] new_connector = Inr s \<and>
     rfold connector_exec [RunFunctor (0, 0), RetryTimer 0 (6, 115)] s = Inr s' \<and> opened s' = [5]"
proof -
  obtain s where s: "rfold connector_exec [Start (5, 111), Stop] new_connector = Inr s" "\<not> enableConnect s"
    "opened s = [5]"
    by (simp add: run_connector)
  moreover have "\<exists>s s'. rfold connector_exec [Start (5, 111), Stop] new_connector = Inr s \<and>
     rfold connector_exec [RunFunctor (0, 0), RetryTimer 0 (6, 115)] s = Inr s'"
    by (simp add: run_connector)
  ultimately obtain s' where s': "rfold connector_exec [RunFunctor (0, 0), RetryTimer 0 (6, 115)] s = Inr s'" by auto
  have "opened s' = opened s \<and> given s' = given s \<and> \<not> enableConnect s'"
    by (rule connector_stop_final [OF s(2) _ s']) (simp add: starts_def)
  then show ?thesis using s s' by (intro exI [of _ s] exI [of _ s']) simp
qed

text \<open>\<open>start\<close> after \<open>stop\<close> while a retry still waits starts twice: the new attempt is under way when
  the retry fires, and the assertion of \<open>startInLoop\<close> fails.\<close>

theorem connector_start_twice:
  "rfold connector_exec [Start (5, 111), Stop, RunFunctor (0, 0), Start (6, 115), RetryTimer 0 (7, 115)] new_connector =
     Inl AssertFail"
  by (simp add: run_connector)

end
