(* ===== verification/Tcp_Client.thy ===== *)
theory Tcp_Client
  imports Tcp_Close Connector
begin

text \<open>
  \<open>net/TcpClient.cpp\<close>: a client with its connector and the connection it has. All runs in one loop. The
  state is the members of the class, the connections it made at their addresses, and
  the queued \<open>ConnectDestoryed\<close>. A step is a call of the client, something the loop does for
  the connector (a new socket goes to \<open>newConnection\<close>) or for a connection (its close
  callback goes to \<open>removeConnection\<close>), or a queued \<open>ConnectDestoryed\<close>.
\<close>

section \<open>State and operations\<close>

text \<open>A connection: whether \<open>ConnectDestoryed\<close> has run, and whether \<open>~TcpClient\<close> has replaced its close
  callback by \<open>details::removeConnection\<close>.\<close>

record client_conn =
  ccbody :: conn
  ccgone :: bool
  ccdetached :: bool

record client =
  clConnector :: connector
  connector_freed :: bool
  clEnableConnect :: bool
  clRetry :: bool
  clNextConnId :: int
  connection :: "nat option"
  clWriteComplete :: bool
  clConns :: "nat \<rightharpoonup> client_conn"
  clDestroys :: "nat list"

definition TcpClient :: client where
  "TcpClient =
     \<lparr>clConnector = Connector.setNewConnectionCallback Connector.Connector, connector_freed = False, clEnableConnect = True,
      clRetry = False, clNextConnId = 0, connection = None, clWriteComplete = False, clConns = Map.empty,
      clDestroys = []\<rparr>"

definition enableRetry :: "client \<Rightarrow> client" where
  "enableRetry s = s\<lparr>clRetry := True\<rparr>"

definition client_setWriteCompleteCallback :: "client \<Rightarrow> client" where
  "client_setWriteCompleteCallback s = s\<lparr>clWriteComplete := True\<rparr>"

definition set_ccbody :: "nat \<Rightarrow> conn \<Rightarrow> client \<Rightarrow> client" where
  "set_ccbody p b s = s\<lparr>clConns := (clConns s)(p := map_option (\<lambda>c. c\<lparr>ccbody := b\<rparr>) (clConns s p))\<rparr>"

definition client_connect :: "bool \<Rightarrow> int \<times> int \<Rightarrow> client \<Rightarrow> client result" where
  "client_connect inLoop ans s =
     rbind (start inLoop ans (clConnector s)) (\<lambda>k. Inr (s\<lparr>clEnableConnect := True, clConnector := k\<rparr>))"

definition disconnect :: "bool \<Rightarrow> client \<Rightarrow> client result" where
  "disconnect inLoop s =
     (let s1 = s\<lparr>clEnableConnect := False\<rparr>
      in case connection s1 of
           None \<Rightarrow> Inr s1
         | Some p \<Rightarrow> deref (clConns s1) p (\<lambda>c. rbind (shutdown inLoop (ccbody c)) (\<lambda>b. Inr (set_ccbody p b s1))))"

text \<open>The connection object is at \<open>p\<close>; nothing sets its \<open>highWaterMark_\<close>.\<close>

definition client_newConnection :: "user_prog \<Rightarrow> nat \<Rightarrow> nat \<Rightarrow> int \<Rightarrow> client \<Rightarrow> client result" where
  "client_newConnection u p junk sockfd s =
     (if clNextConnId s < 2 ^ 31 - 1
      then let b = TcpConnection sockfd junk;
               b1 = (if clWriteComplete s then setWriteCompleteCallback b else b);
               s1 = s\<lparr>clNextConnId := clNextConnId s + 1, connection := Some p,
                      clConns := (clConns s)(p \<mapsto> \<lparr>ccbody = b1, ccgone = False, ccdetached = False\<rparr>)\<rparr>
           in rbind (ConnectEstablished True (user_callbacks u) b1) (\<lambda>b2. Inr (set_ccbody p b2 s1))
      else Inl Undefined)"

definition client_removeConnection :: "int \<times> int \<Rightarrow> nat \<Rightarrow> client \<Rightarrow> client result" where
  "client_removeConnection ans p s =
     cassert (connection s = Some p)
       (let s1 = s\<lparr>connection := None, clDestroys := clDestroys s @ [p]\<rparr>
        in if clRetry s1 \<and> clEnableConnect s1
           then rbind (restart True ans (clConnector s1)) (\<lambda>k. Inr (s1\<lparr>clConnector := k\<rparr>))
           else Inr s1)"

text \<open>The close callback of a connection.\<close>

definition details_removeConnection :: "nat \<Rightarrow> client \<Rightarrow> client" where
  "details_removeConnection p s = s\<lparr>clDestroys := clDestroys s @ [p]\<rparr>"

definition client_closed :: "bool \<Rightarrow> int \<times> int \<Rightarrow> nat \<Rightarrow> client \<Rightarrow> client result" where
  "client_closed detached ans p s =
     (if detached then Inr (details_removeConnection p s) else client_removeConnection ans p s)"

definition client_destroyed :: "user_prog \<Rightarrow> nat \<Rightarrow> client \<Rightarrow> client result" where
  "client_destroyed u p s =
     deref (clConns s) p (\<lambda>c. rbind (ConnectDestoryed True (user_callbacks u) (ccbody c)) (\<lambda>b.
       Inr (s\<lparr>clConns := (clConns s)(p \<mapsto> c\<lparr>ccbody := b, ccgone := True\<rparr>)\<rparr>)))"

text \<open>\<open>~TcpClient\<close> in the loop, and of its last reference to the connector: only the functors of waiting
  retries share it. \<open>isUnique\<close> is \<open>connection_.unique()\<close>. A raw pointer to the connector in a queued functor is
  left dangling.\<close>

definition client_delete :: "bool \<Rightarrow> client \<Rightarrow> client result" where
  "client_delete isUnique s =
     rbind (case connection s of
              None \<Rightarrow> Inr (s\<lparr>clConnector := stop (clConnector s)\<rparr>)
            | Some p \<Rightarrow> deref (clConns s) p (\<lambda>c.
                let s0 = s\<lparr>clConns := (clConns s)(p \<mapsto> c\<lparr>ccdetached := True\<rparr>)\<rparr>
                in Inr (if isUnique then set_ccbody p (forceClose (ccbody c)) s0 else s0)))
       (\<lambda>s1. if retries (clConnector s1) = []
             then rbind (connector_delete (clConnector s1)) (\<lambda>_. Inr (s1\<lparr>connector_freed := True\<rparr>))
             else Inr s1)"

text \<open>The loop's side of the connector: it must still be there.\<close>

definition connector_run :: "connector_act \<Rightarrow> client \<Rightarrow> connector result" where
  "connector_run a s = (if connector_freed s then Inl BadDeref else connector_exec a (clConnector s))"

section \<open>Histories\<close>

datatype client_act =
    CEnableRetry
  | CSetWriteComplete
  | CConnect bool "int \<times> int"
  | CDisconnect bool
  | CLoop connector_act nat nat
  | CConn nat conn_act "int \<times> int"
  | CDestroy

fun client_exec :: "user_prog \<Rightarrow> client_act \<Rightarrow> client \<Rightarrow> client result" where
  "client_exec u CEnableRetry s = Inr (enableRetry s)"
| "client_exec u CSetWriteComplete s = Inr (client_setWriteCompleteCallback s)"
| "client_exec u (CConnect inLoop ans) s = client_connect inLoop ans s"
| "client_exec u (CDisconnect inLoop) s = disconnect inLoop s"
| "client_exec u (CLoop a p junk) s =
     rbind (connector_run a s) (\<lambda>k.
       rfold (client_newConnection u p junk) (drop (length (given (clConnector s))) (given k)) (s\<lparr>clConnector := k\<rparr>))"
| "client_exec u (CConn p a ans) s =
     deref (clConns s) p (\<lambda>c. rbind (conn_exec (user_callbacks u) a (ccbody c)) (\<lambda>b.
       rfold (\<lambda>_. client_closed (ccdetached c) ans p) (replicate (closes b - closes (ccbody c)) ()) (set_ccbody p b s)))"
| "client_exec u CDestroy s =
     (case clDestroys s of [] \<Rightarrow> Inr s | p # ps \<Rightarrow> client_destroyed u p (s\<lparr>clDestroys := ps\<rparr>))"

text \<open>\<open>connect\<close> is for an idle connector. What the loop does for a connection, it does after the
  functors that its making had queued.\<close>

fun client_legal :: "client_act \<Rightarrow> client \<Rightarrow> bool" where
  "client_legal (CConnect inLoop ans) s \<longleftrightarrow> legal (if inLoop then Start ans else OtherStart) (clConnector s)"
| "client_legal (CLoop a p junk) s \<longleftrightarrow>
     (case a of RunFunctor _ \<Rightarrow> True | RetryTimer _ _ \<Rightarrow> True | Writable _ _ _ \<Rightarrow> True | _ \<Rightarrow> False) \<and>
     legal a (clConnector s) \<and> clConns s p = None \<and> clNextConnId s < 2 ^ 31 - 1"
| "client_legal (CConn p a ans) s \<longleftrightarrow>
     (case clConns s p of None \<Rightarrow> False | Some c \<Rightarrow> \<not> ccgone c \<and> a \<noteq> AEstablish \<and> act_ok a (ccbody c)) \<and>
     ResetChannel \<notin> set (cpending (clConnector s))"
| "client_legal _ s \<longleftrightarrow> True"

abbreviation client_all_legal :: "user_prog \<Rightarrow> client_act list \<Rightarrow> client \<Rightarrow> bool" where
  "client_all_legal u \<equiv> legal_run (client_exec u) client_legal"

section \<open>The invariant\<close>

definition client_stage :: "client \<Rightarrow> nat \<Rightarrow> client_conn \<Rightarrow> bool" where
  "client_stage s p c \<longleftrightarrow>
     (\<not> ccgone c \<longrightarrow> conn_ok (ccbody c) \<and> close_inv (ccbody c)) \<and> state (ccbody c) \<noteq> KConnecting \<and>
     (state (ccbody c) \<noteq> KDisconnected \<longleftrightarrow> connection s = Some p) \<and>
     (state (ccbody c) = KDisconnected \<and> \<not> ccgone c \<longleftrightarrow> p \<in> set (clDestroys s)) \<and>
     (ccgone c \<longrightarrow> state (ccbody c) = KDisconnected) \<and> \<not> ccdetached c"

definition client_inv :: "client \<Rightarrow> bool" where
  "client_inv s \<longleftrightarrow>
     connector_inv (clConnector s) \<and> usage_inv (clConnector s) \<and> \<not> connector_freed s \<and>
     (\<forall>p. connection s = Some p \<longrightarrow> clConns s p \<noteq> None \<and> cstate (clConnector s) = CConnected) \<and>
     (\<forall>p \<in> set (clDestroys s). clConns s p \<noteq> None) \<and> distinct (clDestroys s) \<and>
     (\<forall>p c. clConns s p = Some c \<longrightarrow> client_stage s p c)"

lemma client_invD:
  assumes "client_inv s"
  shows "connector_inv (clConnector s)" "usage_inv (clConnector s)" "\<not> connector_freed s"
    "connection s = Some p \<Longrightarrow> clConns s p \<noteq> None" "connection s = Some p \<Longrightarrow> cstate (clConnector s) = CConnected"
    "clConns s p = Some c \<Longrightarrow> client_stage s p c" "p \<in> set (clDestroys s) \<Longrightarrow> clConns s p \<noteq> None"
    "distinct (clDestroys s)"
  using assms by (auto simp: client_inv_def)

text \<open>What a step of the connector gives.\<close>

definition connector_fwd :: "connector \<Rightarrow> connector \<Rightarrow> bool" where
  "connector_fwd s s' \<longleftrightarrow>
     given s' = given s \<or> (\<exists>fd. given s' = given s @ [fd]) \<and> cstate s = CConnecting \<and> cstate s' = CConnected"

lemma given_connect: "connect ans s = Inr s' \<Longrightarrow> given s' = given s"
  by (auto simp: connect_def connecting_def close_fd_def Let_def cassert_Inr_iff split: connect_case.splits prod.splits)

lemma delays_retry: "delays (retry fd s) = delays s @ (if enableConnect s then [retryDelayMs s] else [])"
  by (simp add: retry_def close_fd_def Let_def)

lemma opened_connect:
  "connect ans s = Inr s' \<Longrightarrow> opened s' = opened s @ [fst ans] \<and> length (delays s') \<le> Suc (length (delays s)) \<and>
     enableConnect s' = enableConnect s"
  by (auto simp: connect_def connecting_def delays_retry close_fd_def Let_def cassert_Inr_iff split: connect_case.splits prod.splits)

lemma given_start: "startInLoop b ans s = Inr s' \<Longrightarrow> given s' = given s"
  by (auto simp: startInLoop_def result_iffs dest: given_connect split: if_splits)

lemma given_remove: "removeAndResetChannel s = Inr (fd, s') \<Longrightarrow> given s' = given s"
  by (auto simp: removeAndResetChannel_def queue_functor_def split: option.splits)

lemma given_stop: "stopInLoop b s = Inr s' \<Longrightarrow> given s' = given s"
  by (auto simp: stopInLoop_def result_iffs dest!: given_remove split: if_splits)

lemma given_write: "handleWrite e l p s = Inr s' \<Longrightarrow> connector_fwd s s'"
  by (auto simp: handleWrite_def result_iffs Let_def close_fd_def connector_fwd_def dest!: given_remove split: if_splits)

lemma connector_exec_fwd:
  assumes "connector_exec a s = Inr s'"
  shows "connector_fwd s s'"
proof (cases a)
  case (RunFunctor ans)
  then show ?thesis
  proof (cases "cpending s")
    case (Cons f fs)
    then show ?thesis
      using assms RunFunctor by (cases f) (auto simp: resetChannel_def connector_fwd_def dest!: given_start given_stop)
  qed (use assms in \<open>simp add: connector_fwd_def\<close>)
qed (use assms in \<open>auto simp: start_def stop_def restart_def queue_functor_def connector_fwd_def
    dest!: given_start given_write [unfolded connector_fwd_def] split: if_splits\<close>)

lemma connected_stays:
  assumes "usage_inv s" "cstate s = CConnected" "legal a s" "\<And>ans. a \<noteq> Restart ans" "connector_exec a s = Inr s'"
  shows "cstate s' = CConnected"
proof (cases a)
  case (RunFunctor ans)
  then show ?thesis
  proof (cases "cpending s")
    case (Cons f fs)
    then have "f \<noteq> RunStart" using assms(1,2) by (auto simp: usage_inv_def)
    then show ?thesis
      using assms RunFunctor Cons by (cases f) (auto simp: resetChannel_def stopInLoop_def)
  qed (use assms in simp)
next
  case (RetryTimer i ans)
  then show ?thesis using assms by (auto simp: usage_inv_def)
qed (use assms in \<open>auto simp: stop_def queue_functor_def\<close>)

lemma connector_step_inv:
  assumes "connector_inv k" "usage_inv k" "legal a k"
  obtains k' where "connector_exec a k = Inr k'" "connector_inv k'" "usage_inv k'"
  using connector_step [OF assms] connector_inv_exec [OF assms(1,3)] by blast

section \<open>The steps\<close>

lemma client_inv_connector:
  assumes "client_inv s" "connector_inv k" "usage_inv k" "connection s \<noteq> None \<Longrightarrow> cstate k = CConnected"
  shows "client_inv (s\<lparr>clConnector := k\<rparr>)"
  using assms by (auto simp: client_inv_def client_stage_def)

lemma client_inv_body:
  assumes inv: "client_inv s" and c: "clConns s p = Some c" "\<not> ccgone c"
    and b: "conn_ok b" "close_inv b" "state b \<noteq> KConnecting" "state b = KDisconnected \<longleftrightarrow> state (ccbody c) = KDisconnected"
  shows "client_inv (set_ccbody p b s)"
  using client_invD [OF inv] c b by (auto simp: client_inv_def client_stage_def set_ccbody_def)

lemma client_act_body:
  assumes inv: "client_inv s" and u: "user_ok u" and c: "clConns s p = Some c" "\<not> ccgone c" and a: "act_ok a (ccbody c)"
  shows "case conn_exec (user_callbacks u) a (ccbody c) of
      Inl e \<Rightarrow> e = LengthError
    | Inr b \<Rightarrow> conn_ok b \<and> close_inv b \<and> state b \<noteq> KConnecting \<and> (state (ccbody c) = KDisconnected \<longrightarrow> state b = KDisconnected) \<and>
        closes b - closes (ccbody c) = (if state (ccbody c) \<noteq> KDisconnected \<and> state b = KDisconnected then 1 else 0)"
proof -
  have stage: "conn_ok (ccbody c)" "close_inv (ccbody c)" "state (ccbody c) \<noteq> KConnecting"
    using client_invD(6) [OF inv c(1)] c(2) by (auto simp: client_stage_def)
  have fwd: "st' \<noteq> KConnecting \<and> (st = KDisconnected \<longrightarrow> st' = KDisconnected)"
    if "st \<noteq> KConnecting" "rank st \<le> rank st'" for st st'
    using that by (cases st; cases st') (auto simp: rank_def)
  show ?thesis
    using act_body [OF u stage(1,2) a] fwd [OF stage(3)]
    by (cases "conn_exec (user_callbacks u) a (ccbody c)") auto
qed

lemma client_step_disconnect:
  assumes inv: "client_inv s" and u: "user_ok u"
  shows "case disconnect inLoop s of Inl e \<Rightarrow> e = LengthError | Inr s' \<Rightarrow> client_inv s'"
proof -
  let ?s = "s\<lparr>clEnableConnect := False\<rparr>"
  have inv': "client_inv ?s" using inv by (simp add: client_inv_def client_stage_def)
  show ?thesis
  proof (cases "connection s")
    case None
    then show ?thesis using inv' by (simp add: disconnect_def)
  next
    case (Some p)
    then obtain c where c: "clConns s p = Some c" using client_invD(4) [OF inv] by auto
    have st: "\<not> ccgone c" "state (ccbody c) \<noteq> KConnecting" "state (ccbody c) \<noteq> KDisconnected"
      using client_invD(6) [OF inv c] Some by (auto simp: client_stage_def)
    define a where "a = (if inLoop then ACall (\<lambda>_. None) UShutdown else AOtherShutdown)"
    have run: "conn_exec (user_callbacks u) a (ccbody c) = shutdown inLoop (ccbody c)" by (simp add: a_def)
    have "act_ok a (ccbody c)" using st by (simp add: a_def)
    from client_act_body [OF inv u c st(1) this]
    have b: "case shutdown inLoop (ccbody c) of Inl e \<Rightarrow> e = LengthError
        | Inr b \<Rightarrow> conn_ok b \<and> close_inv b \<and> state b \<noteq> KConnecting" by (auto simp: run split: sum.splits)
    show ?thesis
    proof (cases "shutdown inLoop (ccbody c)")
      case (Inl e)
      then show ?thesis using Some c b by (simp add: disconnect_def)
    next
      case (Inr b')
      have "state b' \<noteq> KDisconnected" using nc.shutdowns [OF Inr] st(3) by (simp add: no_close_def)
      then have "client_inv (set_ccbody p b' ?s)"
        using b Inr st(3) c by (intro client_inv_body [OF inv' _ st(1)]) auto
      then show ?thesis using Some c Inr by (simp add: disconnect_def)
    qed
  qed
qed

lemma client_step_remove:
  assumes inv: "client_inv s" and c: "clConns s p = Some c" "\<not> ccgone c" "state (ccbody c) \<noteq> KDisconnected"
    and b: "conn_ok b" "close_inv b" "state b = KDisconnected" and r: "ResetChannel \<notin> set (cpending (clConnector s))"
  shows "\<exists>s'. client_closed (ccdetached c) ans p (set_ccbody p b s) = Inr s' \<and> client_inv s'"
proof -
  have closed: "client_closed (ccdetached c) = client_removeConnection"
    using client_invD(6) [OF inv c(1)] by (auto simp: client_stage_def client_closed_def fun_eq_iff)
  let ?k = "clConnector s"
  have p: "connection s = Some p" using client_invD(6) [OF inv c(1)] c(3) by (simp add: client_stage_def)
  let ?s = "(set_ccbody p b s)\<lparr>connection := None, clDestroys := clDestroys s @ [p]\<rparr>"
  have none: "p \<notin> set (clDestroys s)" using client_invD(6) [OF inv c(1)] c(3) by (auto simp: client_stage_def)
  have inv1: "client_inv ?s"
    using client_invD [OF inv] c b p none by (auto simp: client_inv_def client_stage_def set_ccbody_def)
  have "legal (Restart ans) ?k"
    using client_invD(1) [OF inv] client_invD(5) [OF inv p] r by (simp add: connector_inv_def channel_inv_def)
  then obtain k' where k': "connector_exec (Restart ans) ?k = Inr k'" "connector_inv k'" "usage_inv k'"
    using connector_step_inv client_invD(1,2) [OF inv] by blast
  have "client_inv (?s\<lparr>clConnector := k'\<rparr>)" by (rule client_inv_connector [OF inv1 k'(2,3)]) simp
  then show ?thesis
    unfolding closed using inv1 p k'(1) by (auto simp: client_removeConnection_def Let_def set_ccbody_def)
qed

lemma client_step_conn:
  assumes inv: "client_inv s" and u: "user_ok u" and ok: "client_legal (CConn p a ans) s"
  shows "case client_exec u (CConn p a ans) s of Inl e \<Rightarrow> e = LengthError | Inr s' \<Rightarrow> client_inv s'"
proof -
  obtain c where c: "clConns s p = Some c" "\<not> ccgone c" "act_ok a (ccbody c)"
    "ResetChannel \<notin> set (cpending (clConnector s))"
    using ok by (auto split: option.splits)
  note body = client_act_body [OF inv u c(1-3)]
  show ?thesis
  proof (cases "conn_exec (user_callbacks u) a (ccbody c)")
    case (Inl e)
    then show ?thesis using body c(1) by simp
  next
    case (Inr b)
    show ?thesis
    proof (cases "state (ccbody c) \<noteq> KDisconnected \<and> state b = KDisconnected")
      case True
      then show ?thesis
        using client_step_remove [OF inv c(1,2) _ _ _ _ c(4), of b ans] body Inr c(1) by auto
    next
      case False
      then have "client_inv (set_ccbody p b s)" using body Inr by (intro client_inv_body [OF inv c(1,2)]) auto
      then show ?thesis using False body Inr c(1) by auto
    qed
  qed
qed

lemma client_step_new:
  assumes inv: "client_inv s" and u: "user_ok u" and p: "clConns s p = None" "clNextConnId s < 2 ^ 31 - 1"
    and k: "connection s = None" "connector_inv k" "usage_inv k" "cstate k = CConnected"
  shows "case client_newConnection u p junk fd (s\<lparr>clConnector := k\<rparr>) of Inl e \<Rightarrow> e = LengthError | Inr s' \<Rightarrow> client_inv s'"
proof -
  define b where "b = (if clWriteComplete s then setWriteCompleteCallback (TcpConnection fd junk) else TcpConnection fd junk)"
  have b: "conn_ok b" "close_inv b" "state b = KConnecting"
    using conn_ok_new [of fd junk] close_inv_new [of fd junk]
    by (auto simp: b_def setWriteCompleteCallback_def conn_ok_def conn_inv_def wired_def close_inv_def closes_def TcpConnection_def)
  let ?s = "s\<lparr>clConnector := k, clNextConnId := clNextConnId s + 1, connection := Some p,
      clConns := (clConns s)(p \<mapsto> \<lparr>ccbody = b, ccgone = False, ccdetached = False\<rparr>)\<rparr>"
  have run: "client_newConnection u p junk fd (s\<lparr>clConnector := k\<rparr>) =
      rbind (ConnectEstablished True (user_callbacks u) b) (\<lambda>b2. Inr (set_ccbody p b2 ?s))"
    using p(2) by (simp add: client_newConnection_def Let_def b_def)
  show ?thesis
  proof (cases "ConnectEstablished True (user_callbacks u) b")
    case (Inl e)
    then show ?thesis using establish_body [OF u b] unfolding run by simp
  next
    case (Inr b2)
    have b2: "conn_ok b2" "close_inv b2" "up (state b2)" using establish_body [OF u b] Inr by simp_all
    have "p \<notin> set (clDestroys s)" using client_invD(7) [OF inv, of p] p(1) by blast
    then have "client_inv (set_ccbody p b2 ?s)"
      using client_invD [OF inv] p(1) k b2 by (auto simp: client_inv_def client_stage_def set_ccbody_def)
    then show ?thesis using Inr unfolding run by simp
  qed
qed

lemma client_step_loop:
  assumes inv: "client_inv s" and u: "user_ok u" and ok: "client_legal (CLoop a p junk) s"
  shows "case client_exec u (CLoop a p junk) s of Inl e \<Rightarrow> e = LengthError | Inr s' \<Rightarrow> client_inv s'"
proof -
  have a: "legal a (clConnector s)" "clConns s p = None" "clNextConnId s < 2 ^ 31 - 1" "\<And>ans. a \<noteq> Restart ans"
    using ok by auto
  obtain k where k: "connector_exec a (clConnector s) = Inr k" "connector_inv k" "usage_inv k"
    using connector_step_inv [OF client_invD(1,2) [OF inv] a(1)] by blast
  have run: "connector_run a s = Inr k" using k(1) client_invD(3) [OF inv] by (simp add: connector_run_def)
  from connector_exec_fwd [OF k(1)] consider (same) "given k = given (clConnector s)"
    | (new) fd where "given k = given (clConnector s) @ [fd]" "cstate (clConnector s) = CConnecting" "cstate k = CConnected"
    by (auto simp: connector_fwd_def)
  then show ?thesis
  proof cases
    case same
    have "client_inv (s\<lparr>clConnector := k\<rparr>)"
      using connected_stays [OF client_invD(2) [OF inv] _ a(1,4) k(1)] client_invD(5) [OF inv]
      by (intro client_inv_connector [OF inv k(2,3)]) auto
    then show ?thesis using run same by simp
  next
    case new
    then have "connection s = None" using client_invD(5) [OF inv] by (cases "connection s") auto
    from client_step_new [OF inv u a(2,3) this k(2,3) new(3), of junk fd] show ?thesis
      using run new(1) by (cases "client_newConnection u p junk fd (s\<lparr>clConnector := k\<rparr>)") simp_all
  qed
qed

lemma client_step_destroy:
  assumes inv: "client_inv s"
  shows "\<exists>s'. client_exec u CDestroy s = Inr s' \<and> client_inv s'"
proof (cases "clDestroys s")
  case (Cons p ps)
  then obtain c where c: "clConns s p = Some c" using client_invD(7) [OF inv, of p] by auto
  then have "state (ccbody c) = KDisconnected" "\<not> ccgone c" "p \<notin> set ps"
    using client_invD(6,8) [OF inv] Cons by (auto simp: client_stage_def)
  then show ?thesis
    using client_invD [OF inv] c Cons
    by (auto simp: client_destroyed_def destroy_body client_inv_def client_stage_def)
qed (use inv in simp)

lemma client_step:
  assumes inv: "client_inv s" and u: "user_ok u" and a: "client_legal a s"
  shows "case client_exec u a s of Inl e \<Rightarrow> e = LengthError | Inr s' \<Rightarrow> client_inv s'"
proof (cases a)
  case (CConnect inLoop ans)
  define x where "x = (if inLoop then Start ans else OtherStart)"
  have x: "legal x (clConnector s)" "cstate (clConnector s) = CDisconnected" using a CConnect by (auto simp: x_def split: if_splits)
  obtain k where k: "connector_exec x (clConnector s) = Inr k" "connector_inv k" "usage_inv k"
    using connector_step_inv [OF client_invD(1,2) [OF inv] x(1)] by blast
  have "start inLoop ans (clConnector s) = Inr k" using k(1) by (auto simp: x_def start_def split: if_splits)
  moreover have "connection s = None" using client_invD(5) [OF inv] x(2) by (cases "connection s") auto
  then have "client_inv (s\<lparr>clConnector := k\<rparr>)" by (intro client_inv_connector [OF inv k(2,3)]) simp
  then have "client_inv (s\<lparr>clEnableConnect := True, clConnector := k\<rparr>)" by (simp add: client_inv_def client_stage_def)
  ultimately show ?thesis using CConnect by (simp add: client_connect_def)
next
  case (CDisconnect inLoop)
  then show ?thesis using client_step_disconnect [OF inv u] by simp
next
  case (CLoop x p junk)
  then show ?thesis using client_step_loop [OF inv u] a by blast
next
  case (CConn p x ans)
  then show ?thesis using client_step_conn [OF inv u] a by blast
next
  case CDestroy
  then show ?thesis using client_step_destroy [OF inv, of u] by auto
qed (use inv in \<open>simp_all add: enableRetry_def client_setWriteCompleteCallback_def client_inv_def client_stage_def\<close>)

interpretation cl: legal_system "client_exec u" client_legal "\<lambda>s. user_ok u \<and> client_inv s" "\<lambda>e. e = LengthError"
  for u :: user_prog
proof
  fix s a
  assume s: "user_ok u \<and> client_inv s" and "client_legal a s"
  then show "case client_exec u a s of Inl e \<Rightarrow> e = LengthError | Inr s' \<Rightarrow> user_ok u \<and> client_inv s'"
    using client_step [of s u a] by (simp split: sum.splits)
qed

lemma client_history:
  "client_inv s \<Longrightarrow> user_ok u \<Longrightarrow> client_all_legal u as s \<Longrightarrow>
    case rfold (client_exec u) as s of Inl e \<Rightarrow> e = LengthError | Inr s' \<Rightarrow> client_inv s'"
  using cl.history [of u s as] by (simp split: sum.splits)

lemma client_inv_new: "client_inv TcpClient"
  using new_connector_inv by (simp add: client_inv_def TcpClient_def new_connector_def)

section \<open>Properties\<close>

text \<open>C7: a client whose \<open>connect\<close> is called only while its connector is idle fails no assertion (that
  \<open>connection_\<close> is the connection that closes, those of the connector), and uses no object after its end. It
  has at most one connection that is up, exactly the one \<open>connection_\<close> holds; each other one has been
  destroyed, or its \<open>ConnectDestoryed\<close> is queued, once.\<close>

theorem client_safe:
  assumes "user_ok u" and "client_all_legal u as TcpClient"
  shows "case rfold (client_exec u) as TcpClient of
      Inl e \<Rightarrow> e = LengthError
    | Inr s \<Rightarrow>
        (\<forall>p. connection s = Some p \<longleftrightarrow> (\<exists>c. clConns s p = Some c \<and> (state (ccbody c) = KConnected \<or> state (ccbody c) = KDisconnecting))) \<and>
        (\<forall>p c. clConns s p = Some c \<and> connection s \<noteq> Some p \<longrightarrow>
           conn_delete (ccbody c) = Inr () \<and> (ccgone c \<longleftrightarrow> p \<notin> set (clDestroys s))) \<and>
        distinct (clDestroys s) \<and> (connection s \<noteq> None \<longrightarrow> cstate (clConnector s) = CConnected)"
proof (cases "rfold (client_exec u) as TcpClient")
  case (Inl e)
  then show ?thesis using client_history [OF client_inv_new assms] by simp
next
  case (Inr s)
  have inv: "client_inv s" using client_history [OF client_inv_new assms] Inr by simp
  have up: "connection s = Some p \<longleftrightarrow> (\<exists>c. clConns s p = Some c \<and> up (state (ccbody c)))" for p
  proof
    assume p: "connection s = Some p"
    then obtain c where c: "clConns s p = Some c" using client_invD(4) [OF inv] by auto
    then have "state (ccbody c) \<noteq> KConnecting" "state (ccbody c) \<noteq> KDisconnected"
      using client_invD(6) [OF inv c] p by (auto simp: client_stage_def)
    then show "\<exists>c. clConns s p = Some c \<and> up (state (ccbody c))" using c by (cases "state (ccbody c)") auto
  next
    assume "\<exists>c. clConns s p = Some c \<and> up (state (ccbody c))"
    then obtain c where "clConns s p = Some c" "state (ccbody c) \<noteq> KDisconnected" by auto
    then show "connection s = Some p" using client_invD(6) [OF inv, of p c] by (simp add: client_stage_def)
  qed
  have rest: "conn_delete (ccbody c) = Inr () \<and> (ccgone c \<longleftrightarrow> p \<notin> set (clDestroys s))"
    if "clConns s p = Some c" "connection s \<noteq> Some p" for p c
    using client_invD(6) [OF inv that(1)] that(2) by (auto simp: client_stage_def conn_delete_def)
  have "connection s \<noteq> None \<longrightarrow> cstate (clConnector s) = CConnected" using client_invD(5) [OF inv] by auto
  then show ?thesis using up rest client_invD(8) [OF inv] unfolding Inr sum.case by blast
qed

text \<open>A client whose user does nothing: it connects, is hung up and, when \<open>retry_\<close> is on, connects again.\<close>

definition idle_user :: user_prog where
  "idle_user = ((\<lambda>_. None), (\<lambda>_. []))"

lemma idle_user_ok: "user_ok idle_user"
  by (simp add: user_ok_def idle_user_def)

definition client_up :: "client_act list" where
  "client_up = [CEnableRetry, CConnect True (5, 115), CLoop (Writable 0 (1, 2) (3, 4)) 7 0, CLoop (RunFunctor (0, 0)) 8 0]"

definition client_hup :: client_act where
  "client_hup = CConn 7 (AEvent POLLHUP (ReadOk []) (Wrote 0)) (6, 115)"

lemmas client_run =
  client_up_def client_hup_def idle_user_def TcpClient_def enableRetry_def client_connect_def client_newConnection_def
  client_removeConnection_def client_closed_def set_ccbody_def connector_run_def run_connector
  TcpConnection_def ConnectEstablished_def call_def user_callbacks_def emit_def upd_channel_def SetReadCallback_def
  SetCloseCallback_def KNoneEvent_def conn_HandleEvent_eq conn_upd_handling call_if_def SetReceiveEvent_def
  handleClose_def closes_def poll_bits read_ok_def hup_and_read_def

lemma client_up_run:
  "client_all_legal idle_user client_up TcpClient"
  "\<exists>s. rfold (client_exec idle_user) client_up TcpClient = Inr s \<and> connection s = Some 7 \<and> clRetry s \<and> clEnableConnect s \<and>
     opened (clConnector s) = [5] \<and> client_legal client_hup s \<and>
     (\<exists>s'. client_exec idle_user client_hup s = Inr s' \<and> connection s' = None)"
  by (simp_all add: client_run)

theorem client_safe_witness:
  "\<exists>s c. rfold (client_exec idle_user) client_up TcpClient = Inr s \<and> clConns s 7 = Some c \<and>
     (state (ccbody c) = KConnected \<or> state (ccbody c) = KDisconnecting)"
proof -
  obtain s where s: "rfold (client_exec idle_user) client_up TcpClient = Inr s" "connection s = Some 7"
    using client_up_run(2) by blast
  show ?thesis using client_safe [OF idle_user_ok client_up_run(1)] s by auto
qed

text \<open>when the connection closes, a client with \<open>retry_\<close> and \<open>enableConnect_\<close> on makes a new socket
  at once, with the back-off started afresh; otherwise it leaves the connector alone.\<close>

theorem client_reconnects:
  assumes "client_inv s" and "user_ok u" and "client_legal (CConn p a ans) s"
    and "client_exec u (CConn p a ans) s = Inr s'" and "connection s = Some p" and "connection s' = None"
  shows "if clRetry s \<and> clEnableConnect s
    then opened (clConnector s') = opened (clConnector s) @ [fst ans] \<and> length (delays (clConnector s')) \<le> 1 \<and>
      enableConnect (clConnector s')
    else clConnector s' = clConnector s"
proof -
  obtain c where c: "clConns s p = Some c" "\<not> ccgone c" "act_ok a (ccbody c)"
    using assms(3) by (auto split: option.splits)
  obtain b where b: "conn_exec (user_callbacks u) a (ccbody c) = Inr b" using assms(4) c(1) by (auto simp: rbind_Inr_iff)
  have diff: "closes b - closes (ccbody c) = 0 \<or> closes b - closes (ccbody c) = 1"
    using client_act_body [OF assms(1,2) c] b by (auto split: if_splits)
  have "client_closed (ccdetached c) = client_removeConnection"
    using client_invD(6) [OF assms(1) c(1)] by (auto simp: client_stage_def client_closed_def fun_eq_iff)
  moreover have "connection (set_ccbody p b s) = Some p" using assms(5) by (simp add: set_ccbody_def)
  ultimately have one: "client_removeConnection ans p (set_ccbody p b s) = Inr s'"
    using diff assms(4,6) c(1) b by (auto simp: rbind_Inr_iff)
  have fields: "clRetry (set_ccbody p b s) = clRetry s" "clEnableConnect (set_ccbody p b s) = clEnableConnect s"
    "clConnector (set_ccbody p b s) = clConnector s"
    by (simp_all add: set_ccbody_def)
  show ?thesis
  proof (cases "clRetry s \<and> clEnableConnect s")
    case True
    then have k: "restart True ans (clConnector s) = Inr (clConnector s')"
      using one fields by (auto simp: client_removeConnection_def Let_def cassert_Inr_iff rbind_Inr_iff)
    then have "connect ans ((clConnector s)\<lparr>cstate := CDisconnected, retryDelayMs := kInitRetryDelayMs,
        enableConnect := True, delays := []\<rparr>) = Inr (clConnector s')"
      by (simp add: restart_def startInLoop_def)
    from opened_connect [OF this] show ?thesis using True by simp
  next
    case False
    then show ?thesis using one fields by (auto simp: client_removeConnection_def Let_def cassert_Inr_iff)
  qed
qed

theorem client_reconnects_witness:
  "\<exists>s s'. client_exec idle_user client_hup s = Inr s' \<and> opened (clConnector s) = [5] \<and> opened (clConnector s') = [5, 6]"
proof -
  obtain s s' where s: "rfold (client_exec idle_user) client_up TcpClient = Inr s" "connection s = Some 7"
    "clRetry s" "clEnableConnect s" "opened (clConnector s) = [5]" "client_legal client_hup s"
    "client_exec idle_user client_hup s = Inr s'" "connection s' = None"
    using client_up_run(2) by blast
  have "client_inv s" using client_history [OF client_inv_new idle_user_ok client_up_run(1)] s(1) by simp
  from client_reconnects [OF this idle_user_ok s(6) [unfolded client_hup_def] s(7) [unfolded client_hup_def] s(2,8)]
  have "opened (clConnector s') = opened (clConnector s) @ [fst (6 :: int, 115 :: int)]" using s(3,4) by simp
  then show ?thesis using s(5,7) by auto
qed

text \<open>a client that is destroyed while it has no connection and no retry waits either
  fails the connector's assertion (a connect is under way) or frees the connector while the loop still has
  its \<open>stopInLoop\<close> queued, by a raw pointer, and will dereference it.\<close>

theorem client_delete_dangles:
  assumes "connection s = None" and "retries (clConnector s) = []"
  shows "case client_delete isUnique s of
      Inl e \<Rightarrow> e = AssertFail
    | Inr s' \<Rightarrow> RunStop \<in> set (cpending (clConnector s')) \<and> connector_run (RunFunctor ans) s' = Inl BadDeref"
  using assms
  by (simp add: client_delete_def stop_def queue_functor_def connector_delete_def cassert_def connector_run_def)

theorem client_delete_dangles_witness:
  "\<exists>s'. client_delete False TcpClient = Inr s' \<and> connector_run (RunFunctor (0, 0)) s' = Inl BadDeref"
proof -
  have "connection TcpClient = None" "retries (clConnector TcpClient) = []"
    by (simp_all add: TcpClient_def Connector_def Connector.setNewConnectionCallback_def)
  from client_delete_dangles [OF this, where isUnique = False and ans = "(0, 0)"] show ?thesis
    by (simp add: client_delete_def TcpClient_def Connector_def Connector.setNewConnectionCallback_def stop_def
        queue_functor_def connector_delete_def connector_run_def)
qed

text \<open>A client that is destroyed while it holds the only reference to its connection does not leave
  it behind: the queued \<open>forceCloseInLoop\<close> closes it, its new close callback queues \<open>ConnectDestoryed\<close>, and after
  that its destructor's assertion holds. The connector is freed without a functor that points to it.\<close>

theorem client_delete_finishes:
  assumes "client_inv s" and "user_ok u" and "connection s = Some p" and "clDestroys s = []"
    and "cpending (clConnector s) = []"
  shows "\<exists>s1. client_delete True s = Inr s1 \<and> connector_freed s1 \<and> cpending (clConnector s1) = [] \<and>
    (case rfold (client_exec u) [CConn p (AFunctor FForceCloseInLoop mem w) ans, CDestroy] s1 of
       Inl e \<Rightarrow> e = LengthError
     | Inr s2 \<Rightarrow> \<exists>c. clConns s2 p = Some c \<and> ccgone c \<and> conn_delete (ccbody c) = Inr ())"
proof -
  let ?cbs = "user_callbacks u"
  obtain c where c: "clConns s p = Some c" using client_invD(4) [OF assms(1,3)] by auto
  have st: "conn_ok (ccbody c)" "close_inv (ccbody c)" "up (state (ccbody c))"
    using client_invD(6) [OF assms(1) c] assms(3) by (cases "state (ccbody c)"; auto simp: client_stage_def)+
  define b where "b = forceClose (ccbody c)"
  have b: "conn_ok b" "close_inv b" "state b = KDisconnecting" "EQueue FForceCloseInLoop \<in> set (effects b)"
  proof -
    have "act_ok AOtherForceClose (ccbody c)" by simp
    from act_body [OF assms(2) st(1,2) this] show "conn_ok b" "close_inv b" by (simp_all add: b_def)
    show "state b = KDisconnecting" "EQueue FForceCloseInLoop \<in> set (effects b)"
      using st(3) by (auto simp: b_def forceClose_def emit_def)
  qed
  let ?s1 = "s\<lparr>clConns := (clConns s)(p \<mapsto> c\<lparr>ccdetached := True, ccbody := b\<rparr>), connector_freed := True\<rparr>"
  have "retries (clConnector s) = []" "cchannel (clConnector s) = None"
    using client_invD(1,2) [OF assms(1)] client_invD(5) [OF assms(1,3)] assms(5)
    by (auto simp: usage_inv_def connector_inv_def channel_inv_def)
  then have del: "client_delete True s = Inr ?s1"
    using assms(3) c by (simp add: client_delete_def Let_def set_ccbody_def b_def connector_delete_def)
  have act: "act_ok (AFunctor FForceCloseInLoop mem w) b" using b(3,4) by (simp add: functor_pending_def)
  have exec: "forceCloseInLoop True ?cbs b = handleClose True ?cbs b"
    using b(3) by (simp add: forceCloseInLoop_def)
  have "case rfold (client_exec u) [CConn p (AFunctor FForceCloseInLoop mem w) ans, CDestroy] ?s1 of
       Inl e \<Rightarrow> e = LengthError
     | Inr s2 \<Rightarrow> \<exists>c. clConns s2 p = Some c \<and> ccgone c \<and> conn_delete (ccbody c) = Inr ()"
  proof (cases "handleClose True ?cbs b")
    case (Inl e)
    then show ?thesis using act_body [OF assms(2) b(1,2) act] exec by simp
  next
    case (Inr b2)
    have b2: "state b2 = KDisconnected" using cu.handleClose_post [OF assms(2) b(1)] b(3) Inr by simp
    then have one: "closes b2 - closes b = 1"
      using act_body [OF assms(2) b(1,2) act] b(3) by (simp add: exec Inr)
    show ?thesis
      using Inr exec one b2 assms(4)
      by (simp add: client_closed_def details_removeConnection_def set_ccbody_def client_destroyed_def destroy_body conn_delete_def)
  qed
  then show ?thesis using del assms(5) by (intro exI [of _ ?s1]) simp
qed

theorem client_delete_finishes_witness:
  "\<exists>s s1. rfold (client_exec idle_user) client_up TcpClient = Inr s \<and> client_delete True s = Inr s1 \<and> connector_freed s1"
proof -
  obtain s where s: "rfold (client_exec idle_user) client_up TcpClient = Inr s" "connection s = Some 7"
    "clDestroys s = []" "cpending (clConnector s) = []"
    by (simp add: client_run)
  have "client_inv s" using client_history [OF client_inv_new idle_user_ok client_up_run(1)] s(1) by simp
  from client_delete_finishes [OF this idle_user_ok s(2-4)] show ?thesis using s(1) by blast
qed

text \<open>\<open>connect\<close> on a client that lost its connection with \<open>retry_\<close> off: the connector is still
  \<open>kConnected\<close>, and \<open>startInLoop\<close> asserts that it is not.\<close>

lemma client_connect_again:
  "rfold (client_exec idle_user) (tl client_up @ [client_hup, CDestroy, CConnect True (6, 115)]) TcpClient = Inl AssertFail"
  by (simp add: client_run client_destroyed_def ConnectDestoryed_def)

end
