(* ===== verification/Sockets.thy ===== *)
theory Sockets
  imports Decimal
begin

text \<open>
  \<open>net/utils/InetAddress.cpp\<close>, \<open>net/SocketHelper.cpp\<close> and \<open>net/Socket.cpp\<close>: addresses, the flags of a new
  socket, and what the calls that ask the kernel make of its answers, which are arguments. An IPv4 address is its four
  bytes in memory; \<open>inet_ntop\<close> and \<open>inet_pton\<close> are the C library's, on its dotted decimal form.
\<close>

unbundle bit_operations_syntax

section \<open>Addresses\<close>

type_synonym in_addr = "8 word \<times> 8 word \<times> 8 word \<times> 8 word"

record sockaddr_in =
  sin_family :: "16 word"
  sin_port :: "16 word"
  sin_addr :: in_addr

definition AF_INET :: "16 word" where "AF_INET = 2"
definition KInetAny :: in_addr where "KInetAny = (0, 0, 0, 0)"
definition KInetLoopback :: in_addr where "KInetLoopback = (0, 0, 0, 0)"

definition htons :: "16 word \<Rightarrow> 16 word" where
  "htons x = push_bit 8 x OR drop_bit 8 x"

definition byte_string :: "8 word \<Rightarrow> string" where
  "byte_string b = dec_nat (unat b)"

fun inet_ntop :: "in_addr \<Rightarrow> string" where
  "inet_ntop (a, b, c, d) = byte_string a @ ''.'' @ byte_string b @ ''.'' @ byte_string c @ ''.'' @ byte_string d"

text \<open>Four decimal numbers of one to three digits, at most 255, without leading zeros.\<close>

fun split_dots :: "string \<Rightarrow> string list" where
  "split_dots [] = [[]]"
| "split_dots (c # s) =
     (if c = CHR ''.'' then [] # split_dots s else (case split_dots s of [] \<Rightarrow> [[c]] | w # ws \<Rightarrow> (c # w) # ws))"

definition is_digit :: "char \<Rightarrow> bool" where
  "is_digit c \<longleftrightarrow> (48 :: nat) \<le> of_char c \<and> of_char c \<le> (57 :: nat)"

definition read_byte :: "string \<Rightarrow> 8 word option" where
  "read_byte s =
     (if s \<noteq> [] \<and> length s \<le> 3 \<and> (\<forall>c \<in> set s. is_digit c) \<and> (1 < length s \<longrightarrow> hd s \<noteq> CHR ''0'') \<and> read_dec s \<le> 255
      then Some (of_nat (read_dec s)) else None)"

definition inet_pton :: "string \<Rightarrow> in_addr option" where
  "inet_pton s =
     (case map read_byte (split_dots s) of
        [Some a, Some b, Some c, Some d] \<Rightarrow> Some (a, b, c, d)
      | _ \<Rightarrow> None)"

definition InetAddress_port :: "16 word \<Rightarrow> sockaddr_in" where
  "InetAddress_port p = \<lparr>sin_family = AF_INET, sin_port = htons p, sin_addr = KInetAny\<rparr>"

text \<open>The result of \<open>inet_pton\<close> is not looked at: on a bad string the address is what was in memory.\<close>

definition InetAddress_ip :: "in_addr \<Rightarrow> string \<Rightarrow> 16 word \<Rightarrow> sockaddr_in" where
  "InetAddress_ip memory ip p =
     \<lparr>sin_family = AF_INET, sin_port = htons p, sin_addr = (case inet_pton ip of None \<Rightarrow> memory | Some a \<Rightarrow> a)\<rparr>"

definition port :: "sockaddr_in \<Rightarrow> 16 word" where
  "port a = htons (sin_port a)"

definition toIp :: "sockaddr_in \<Rightarrow> string" where
  "toIp a = (if sin_family a = AF_INET then inet_ntop (sin_addr a) else '''')"

definition toIpPort :: "sockaddr_in \<Rightarrow> string" where
  "toIpPort a = toIp a @ '':'' @ to_string (uint (port a))"

lemma htons_htons [simp]: "htons (htons x) = x"
proof (rule bit_word_eqI)
  fix n assume "n < LENGTH(16)"
  then show "bit (htons (htons x)) n = bit x n"
    by (cases "n < 8") (auto simp: htons_def bit_simps not_less le_less_trans)
qed

section \<open>The printed form\<close>

lemma digit_char_0: "digit_char 0 = CHR ''0''"
  by code_simp

lemma digit_char_facts:
  assumes "d < 10"
  shows "is_digit (digit_char d)" "digit_char d \<noteq> CHR ''.''" "digit_char d \<noteq> CHR '':''" "digit_char d = CHR ''0'' \<longleftrightarrow> d = 0"
proof -
  have v: "of_char (digit_char d) = (48 + d :: nat)" using assms by (simp add: digit_char_def of_char_of)
  then show "is_digit (digit_char d)" using assms by (simp add: is_digit_def)
  have eq: "of_char c = (48 + d :: nat)" if "digit_char d = c" for c using that v by simp
  show "digit_char d \<noteq> CHR ''.''" "digit_char d \<noteq> CHR '':''" using eq assms by fastforce+
  show "digit_char d = CHR ''0'' \<longleftrightarrow> d = 0" using eq [of "CHR ''0''"] digit_char_0 by auto
qed

lemma dec_nat_head: "hd (dec_nat n) = CHR ''0'' \<longleftrightarrow> n = 0"
proof (induction n rule: dec_nat.induct)
  case (1 n)
  have "dec_nat (n div 10) \<noteq> []" by (subst dec_nat.simps) simp
  then show ?case using "1.IH" digit_char_facts(4) [of n] by (subst dec_nat.simps) auto
qed

lemma read_byte_string: "read_byte (byte_string b) = Some b"
proof -
  have b: "unat b < 256" using unsigned_less [of b, where ?'a = nat] by simp
  then have "length (dec_nat (unat b)) \<le> 3" using length_dec_nat [of "unat b" 2] by simp
  moreover have "is_digit c" if "c \<in> set (dec_nat (unat b))" for c
    using dec_nat_digits [OF that] digit_char_facts(1) by auto
  moreover have "dec_nat (unat b) \<noteq> []" by (subst dec_nat.simps) simp
  moreover have "length (dec_nat (unat b)) = 1" if "unat b = 0" using that by (subst dec_nat.simps) simp
  ultimately show ?thesis using b dec_nat_head [of "unat b"] by (auto simp: read_byte_def byte_string_def)
qed

lemma byte_string_chars: "c \<in> set (byte_string b) \<Longrightarrow> c \<noteq> CHR ''.'' \<and> c \<noteq> CHR '':''"
  using dec_nat_digits digit_char_facts(2,3) by (fastforce simp: byte_string_def)

lemma split_dots_none: "CHR ''.'' \<notin> set w \<Longrightarrow> split_dots w = [w]"
  by (induction w) auto

lemma split_dots_append: "CHR ''.'' \<notin> set w \<Longrightarrow> split_dots (w @ ''.'' @ s) = w # split_dots s"
  by (induction w) auto

lemma inet_pton_ntop: "inet_pton (inet_ntop a) = Some a"
proof -
  obtain b0 b1 b2 b3 where a: "a = (b0, b1, b2, b3)" by (cases a)
  have no: "CHR ''.'' \<notin> set (byte_string b)" for b using byte_string_chars by blast
  have "split_dots (inet_ntop a) = [byte_string b0, byte_string b1, byte_string b2, byte_string b3]"
    by (simp only: a inet_ntop.simps split_dots_append [OF no] split_dots_none [OF no])
  then show ?thesis by (simp add: inet_pton_def read_byte_string a)
qed

lemma inet_ntop_no_colon: "CHR '':'' \<notin> set (inet_ntop a)"
  using byte_string_chars by (cases a) (auto dest: byte_string_chars)

text \<open>C40: the printed form of an IPv4 address and its port give the address back, byte for byte, and no two
  addresses print alike.\<close>

theorem inet_address_roundtrip:
  assumes "sin_family a = AF_INET"
  shows "InetAddress_ip memory (toIp a) (port a) = a \<and> (sin_family b = AF_INET \<and> toIpPort b = toIpPort a \<longrightarrow> b = a)"
proof -
  have same: "InetAddress_ip memory (toIp c) (port c) = c" if "sin_family c = AF_INET" for c
    using that by (cases c) (simp add: InetAddress_ip_def toIp_def port_def inet_pton_ntop)
  have "b = a" if b: "sin_family b = AF_INET" "toIpPort b = toIpPort a"
  proof -
    have split: "takeWhile (\<lambda>c. c \<noteq> CHR '':'') (toIpPort c) = toIp c" "dropWhile (\<lambda>c. c \<noteq> CHR '':'') (toIpPort c) =
        '':'' @ to_string (uint (port c))" if "sin_family c = AF_INET" for c
    proof -
      have "\<forall>x \<in> set (toIp c). x \<noteq> CHR '':''" using inet_ntop_no_colon [of "sin_addr c"] that by (auto simp: toIp_def)
      then show "takeWhile (\<lambda>c. c \<noteq> CHR '':'') (toIpPort c) = toIp c"
        "dropWhile (\<lambda>c. c \<noteq> CHR '':'') (toIpPort c) = '':'' @ to_string (uint (port c))"
        by (simp_all add: toIpPort_def takeWhile_append2 dropWhile_append2)
    qed
    have ip: "toIp b = toIp a" unfolding split(1) [OF b(1), symmetric] split(1) [OF assms, symmetric] b(2) ..
    have "'':'' @ to_string (uint (port b)) = '':'' @ to_string (uint (port a))"
      unfolding split(2) [OF b(1), symmetric] split(2) [OF assms, symmetric] b(2) ..
    then have "to_string (uint (port b)) = to_string (uint (port a))" by simp
    then have "uint (port b) = uint (port a)" by (simp only: to_string_inj)
    then have "port b = port a" by (rule word_uint_eqI)
    then show ?thesis using same [OF b(1)] same [OF assms] ip by metis
  qed
  then show ?thesis using same [OF assms] by blast
qed

theorem inet_address_roundtrip_witness:
  "InetAddress_ip (0, 0, 0, 0) ''127.0.0.1'' 1234 = \<lparr>sin_family = AF_INET, sin_port = htons 1234, sin_addr = (127, 0, 0, 1)\<rparr>"
proof -
  let ?a = "\<lparr>sin_family = AF_INET, sin_port = htons 1234, sin_addr = (127, 0, 0, 1)\<rparr>"
  have "sin_family ?a = AF_INET" by simp
  from inet_address_roundtrip [OF this, of "(0, 0, 0, 0)"]
  have "InetAddress_ip (0, 0, 0, 0) (toIp ?a) (port ?a) = ?a" by blast
  moreover have "toIp ?a = ''127.0.0.1''"
    by code_simp
  ultimately show ?thesis by (simp add: port_def)
qed

section \<open>Flags of a descriptor\<close>

text \<open>An open descriptor has file status flags (\<open>F_GETFL\<close>, \<open>F_SETFL\<close>) and descriptor flags (\<open>F_GETFD\<close>);
  \<open>F_SETFL\<close> can only change \<open>O_APPEND\<close>, \<open>O_NONBLOCK\<close>, \<open>O_ASYNC\<close>, \<open>O_DIRECT\<close> and \<open>O_NOATIME\<close>. A descriptor
  that is not open, like the \<open>-1\<close> of a failed \<open>accept\<close>, has none.\<close>

record fd_flags =
  status_flags :: "32 word"
  descriptor_flags :: "32 word"

definition O_NONBLOCK :: "32 word" where "O_NONBLOCK = 0x800"
definition FD_CLOEXEC :: "32 word" where "FD_CLOEXEC = 1"
definition setfl_mask :: "32 word" where "setfl_mask = 0x400 OR 0x800 OR 0x2000 OR 0x4000 OR 0x40000"

definition F_GETFL :: "fd_flags option \<Rightarrow> 32 word" where
  "F_GETFL k = (case k of None \<Rightarrow> - 1 | Some f \<Rightarrow> status_flags f)"

definition F_SETFL :: "32 word \<Rightarrow> fd_flags option \<Rightarrow> fd_flags option" where
  "F_SETFL flags k = map_option (\<lambda>f. f\<lparr>status_flags := (status_flags f AND NOT setfl_mask) OR (flags AND setfl_mask)\<rparr>) k"

definition SetNonBlockingAndCloseOnExec :: "fd_flags option \<Rightarrow> fd_flags option" where
  "SetNonBlockingAndCloseOnExec k =
     (let k1 = F_SETFL (F_GETFL k OR O_NONBLOCK) k
      in F_SETFL (F_GETFL k1 OR FD_CLOEXEC) k1)"

text \<open>The socket of \<open>socket\<close> or \<open>accept\<close>; a negative descriptor goes on as it is.\<close>

definition CreateNonblockingOrDie :: "int \<times> fd_flags option \<Rightarrow> int \<times> fd_flags option" where
  "CreateNonblockingOrDie ans = (fst ans, SetNonBlockingAndCloseOnExec (snd ans))"

text \<open>\<open>accept\<close> fills a local address, not the caller's.\<close>

definition helper_accept :: "int \<times> fd_flags option \<times> sockaddr_in \<Rightarrow> sockaddr_in \<Rightarrow> int \<times> fd_flags option \<times> sockaddr_in" where
  "helper_accept ans addr = (let (connfd, k, connAddr) = ans in (connfd, SetNonBlockingAndCloseOnExec k, addr))"

definition socket_accept :: "int \<times> fd_flags option \<times> sockaddr_in \<Rightarrow> sockaddr_in \<Rightarrow> sockaddr_in \<Rightarrow>
    int \<times> fd_flags option \<times> sockaddr_in" where
  "socket_accept ans memory peeraddr =
     (let (connfd, k, addr) = helper_accept ans memory in (connfd, k, if 0 < connfd then addr else peeraddr))"

definition zero_addr :: sockaddr_in where
  "zero_addr = \<lparr>sin_family = 0, sin_port = 0, sin_addr = (0, 0, 0, 0)\<rparr>"

definition getLocalAddr :: "sockaddr_in option \<Rightarrow> sockaddr_in" where
  "getLocalAddr ans = (case ans of None \<Rightarrow> zero_addr | Some a \<Rightarrow> a)"

definition getPeerAddr :: "sockaddr_in option \<Rightarrow> sockaddr_in" where
  "getPeerAddr ans = (case ans of None \<Rightarrow> zero_addr | Some a \<Rightarrow> a)"

definition getSocketError :: "int + int \<Rightarrow> int" where
  "getSocketError ans = (case ans of Inl saved_errno \<Rightarrow> saved_errno | Inr optval \<Rightarrow> optval)"

definition self_connected :: "sockaddr_in option \<Rightarrow> sockaddr_in option \<Rightarrow> bool" where
  "self_connected localName peerName \<longleftrightarrow>
     (let localAddr = getLocalAddr localName; peerAddr = getPeerAddr peerName
      in sin_port localAddr = sin_port peerAddr \<and> sin_addr localAddr = sin_addr peerAddr)"

lemma flag_bits:
  assumes "n < 32"
  shows "bit setfl_mask n \<longleftrightarrow> n \<in> {10, 11, 13, 14, 18}" "bit O_NONBLOCK n \<longleftrightarrow> n = 11" "bit FD_CLOEXEC n \<longleftrightarrow> n = 0"
proof -
  have "list_all (\<lambda>n. (bit setfl_mask n \<longleftrightarrow> n = 10 \<or> n = 11 \<or> n = 13 \<or> n = 14 \<or> n = 18) \<and>
      (bit O_NONBLOCK n \<longleftrightarrow> n = 11) \<and> (bit FD_CLOEXEC n \<longleftrightarrow> n = 0)) [0..<32]"
    by code_simp
  then show "bit setfl_mask n \<longleftrightarrow> n \<in> {10, 11, 13, 14, 18}" "bit O_NONBLOCK n \<longleftrightarrow> n = 11" "bit FD_CLOEXEC n \<longleftrightarrow> n = 0"
    using assms by (auto simp: list_all_iff)
qed

text \<open>every descriptor the helper makes or accepts is made non-blocking and keeps its other status
  flags, but it is never made close-on-exec: the second \<open>fcntl\<close> asks for that flag with
  \<open>F_SETFL\<close>, which cannot set it.\<close>

theorem nonblocking_not_cloexec:
  "SetNonBlockingAndCloseOnExec (Some f) =
     Some (f\<lparr>status_flags := status_flags f OR O_NONBLOCK\<rparr>) \<and>
   descriptor_flags (the (SetNonBlockingAndCloseOnExec (Some f))) = descriptor_flags f"
proof -
  define s where "s = status_flags f"
  let ?set = "\<lambda>flags s. (s AND NOT setfl_mask) OR (flags AND setfl_mask)"
  have "?set (?set (s OR O_NONBLOCK) s OR FD_CLOEXEC) (?set (s OR O_NONBLOCK) s) = s OR O_NONBLOCK"
  proof (rule bit_word_eqI)
    fix n assume "n < LENGTH(32)"
    then show "bit (?set (?set (s OR O_NONBLOCK) s OR FD_CLOEXEC) (?set (s OR O_NONBLOCK) s)) n = bit (s OR O_NONBLOCK) n"
      by (auto simp: bit_simps flag_bits)
  qed
  then show ?thesis by (simp add: SetNonBlockingAndCloseOnExec_def F_GETFL_def F_SETFL_def Let_def s_def)
qed

text \<open>The peer address that \<open>Acceptor\<close> gets is never the one the kernel reported.\<close>

lemma socket_accept_ignores_kernel: "socket_accept (fd, k, x) memory p = socket_accept (fd, k, y) memory p"
  by (simp add: socket_accept_def helper_accept_def)

text \<open>Two failed calls look like a connection to oneself.\<close>

lemma self_connected_on_failure: "self_connected None None"
  by (simp add: self_connected_def getLocalAddr_def getPeerAddr_def)

section \<open>Calls without a checked answer\<close>

text \<open>The system calls of \<open>SocketHelper.cpp\<close> and \<open>Socket.cpp\<close> that only have an effect in the kernel: the trace of the
  calls made, and the answer of each one, which is a parameter.\<close>

datatype syscall =
    SysSocket "16 word"
  | SysBind int sockaddr_in
  | SysListen int int
  | SysSetsockopt int int int int
  | SysShutdown int int
  | SysClose int

definition issue :: "(syscall \<Rightarrow> int) \<Rightarrow> syscall \<Rightarrow> syscall list \<Rightarrow> int \<times> syscall list" where
  "issue answer c tr = (answer c, tr @ [c])"

definition SOMAXCONN :: int where "SOMAXCONN = 4096"
definition SOL_SOCKET :: int where "SOL_SOCKET = 1"
definition SO_REUSEADDR :: int where "SO_REUSEADDR = 2"
definition SO_REUSEPORT :: int where "SO_REUSEPORT = 15"
definition SO_KEEPALIVE :: int where "SO_KEEPALIVE = 9"
definition IPPROTO_TCP :: int where "IPPROTO_TCP = 6"
definition TCP_NODELAY :: int where "TCP_NODELAY = 1"
definition SHUT_WR :: int where "SHUT_WR = 1"

text \<open>Both branches on the answer are the same: the bodies of \<open>if (ret < 0)\<close> are empty.\<close>

definition bindOrDie :: "(syscall \<Rightarrow> int) \<Rightarrow> int \<Rightarrow> sockaddr_in \<Rightarrow> syscall list \<Rightarrow> syscall list" where
  "bindOrDie answer sockfd addr tr = (let (ret, tr') = issue answer (SysBind sockfd addr) tr in if ret < 0 then tr' else tr')"

definition listenOrDie :: "(syscall \<Rightarrow> int) \<Rightarrow> int \<Rightarrow> syscall list \<Rightarrow> syscall list" where
  "listenOrDie answer sockfd tr = (let (ret, tr') = issue answer (SysListen sockfd SOMAXCONN) tr in if ret < 0 then tr' else tr')"

definition setReuseAddr :: "(syscall \<Rightarrow> int) \<Rightarrow> int \<Rightarrow> bool \<Rightarrow> syscall list \<Rightarrow> syscall list" where
  "setReuseAddr answer sockfd on tr =
     (let optval = (if on then 1 else 0);
          (ret, tr') = issue answer (SysSetsockopt sockfd SOL_SOCKET SO_REUSEADDR optval) tr
      in if ret = - 1 then tr' else tr')"

definition setReusePort :: "(syscall \<Rightarrow> int) \<Rightarrow> int \<Rightarrow> bool \<Rightarrow> syscall list \<Rightarrow> syscall list" where
  "setReusePort answer sockfd on tr =
     (let optval = (if on then 1 else 0);
          (ret, tr') = issue answer (SysSetsockopt sockfd SOL_SOCKET SO_REUSEPORT optval) tr
      in if ret = - 1 then tr' else tr')"

text \<open>A \<open>Socket\<close> is its descriptor; its destructor closes it.\<close>

record socket =
  sock_fd :: int

definition Socket :: "int \<Rightarrow> socket" where
  "Socket sockfd = \<lparr>sock_fd = sockfd\<rparr>"

definition socket_delete :: "(syscall \<Rightarrow> int) \<Rightarrow> socket \<Rightarrow> syscall list \<Rightarrow> syscall list" where
  "socket_delete answer s tr = snd (issue answer (SysClose (sock_fd s)) tr)"

definition socket_fd :: "socket \<Rightarrow> int" where
  "socket_fd s = sock_fd s"

definition bindAddress :: "(syscall \<Rightarrow> int) \<Rightarrow> sockaddr_in \<Rightarrow> socket \<Rightarrow> syscall list \<Rightarrow> syscall list" where
  "bindAddress answer listenAddr s tr = bindOrDie answer (sock_fd s) listenAddr tr"

definition socket_listen :: "(syscall \<Rightarrow> int) \<Rightarrow> socket \<Rightarrow> syscall list \<Rightarrow> syscall list" where
  "socket_listen answer s tr = listenOrDie answer (sock_fd s) tr"

definition setTcpNoDelay :: "(syscall \<Rightarrow> int) \<Rightarrow> bool \<Rightarrow> socket \<Rightarrow> syscall list \<Rightarrow> syscall list" where
  "setTcpNoDelay answer on s tr =
     (let optVal = (if on then 1 else 0) in snd (issue answer (SysSetsockopt (sock_fd s) IPPROTO_TCP TCP_NODELAY optVal) tr))"

definition setKeepAlive :: "(syscall \<Rightarrow> int) \<Rightarrow> bool \<Rightarrow> socket \<Rightarrow> syscall list \<Rightarrow> syscall list" where
  "setKeepAlive answer on s tr =
     (let optVal = (if on then 1 else 0) in snd (issue answer (SysSetsockopt (sock_fd s) SOL_SOCKET SO_KEEPALIVE optVal) tr))"

text \<open>A failure is logged only.\<close>

definition shutdownWrite :: "(syscall \<Rightarrow> int) \<Rightarrow> socket \<Rightarrow> syscall list \<Rightarrow> syscall list" where
  "shutdownWrite answer s tr =
     (let (ret, tr') = issue answer (SysShutdown (sock_fd s) SHUT_WR) tr in if ret < 0 then tr' else tr')"

text \<open>The constructor of \<open>Acceptor\<close> up to the channel, and the system call of its \<open>listen\<close>. The descriptor is what
  \<open>socket\<close> answers.\<close>

definition Acceptor_socket :: "(syscall \<Rightarrow> int) \<Rightarrow> sockaddr_in \<Rightarrow> syscall list \<Rightarrow> socket \<times> syscall list" where
  "Acceptor_socket answer listenAddr tr =
     (let (sockfd, tr1) = issue answer (SysSocket AF_INET) tr;
          tr2 = setReuseAddr answer sockfd True tr1;
          tr3 = setReusePort answer sockfd True tr2;
          acceptSocket = Socket sockfd
      in (acceptSocket, bindAddress answer listenAddr acceptSocket tr3))"

lemmas unchecked_calls = issue_def bindOrDie_def listenOrDie_def setReuseAddr_def setReusePort_def Socket_def bindAddress_def
  socket_listen_def Acceptor_socket_def Let_def

text \<open>An acceptor is opened by the same five calls in the same order, and reports nothing, even when \<open>bind\<close> or
  \<open>listen\<close> is refused, or \<open>socket\<close> itself, whose \<open>-1\<close> is then used as a descriptor.\<close>

lemma acceptor_opens_anyway:
  "(let (s, tr) = Acceptor_socket answer addr [] in socket_listen answer s tr) =
     (let fd = answer (SysSocket AF_INET)
      in [SysSocket AF_INET, SysSetsockopt fd SOL_SOCKET SO_REUSEADDR 1, SysSetsockopt fd SOL_SOCKET SO_REUSEPORT 1,
          SysBind fd addr, SysListen fd SOMAXCONN])"
  by (simp add: unchecked_calls)

end
