(* ===== verification/Conn_Poller.thy ===== *)
theory Conn_Poller
  imports Tcp_Close Pollers
begin

text \<open>
  A connection and the poller of its loop: the channel operations that \<open>TcpConnection\<close> makes (the effects
  \<open>EChannel\<close> and \<open>ERemove\<close> of its model) are calls that every poller's contract allows, and the poller
  watches for the connection what its channel says, whatever other channels it has.
\<close>

fun conn_ops :: "nat \<Rightarrow> conn_effect list \<Rightarrow> channel_op list" where
  "conn_ops p [] = []"
| "conn_ops p (EChannel x # es) = Interest x p # conn_ops p es"
| "conn_ops p (ERemove # es) = Remove p # conn_ops p es"
| "conn_ops p (_ # es) = conn_ops p es"

lemma wanted_forget: "wanted (forget_status h) k = wanted h k"
  by (auto simp: wanted_def forget_status_def fun_eq_iff split: bind_splits)

lemma wanted_upd:
  assumes "\<And>fd'. k fd' = Some p \<Longrightarrow> fd' = fd"
  shows "wanted (h(p \<mapsto> c)) (k(fd := if b then Some p else None)) =
    (wanted h k)(fd := if \<not> b \<or> events c = 0 then None else Some (events c, p))"
  using assms by (auto simp: wanted_def fun_eq_iff split: bind_splits)

context poller_contract
begin

lemma conn_ops_run:
  assumes "ok (fst s) (snd s)" "heap_ok (fst s)" "fst s p = Some c"
    and "chan_run es (known, events c) = Some (known', ev')"
    and "knows (snd s) (m_socketFd c) = (if known then Some p else None)" "\<And>e fd. removable e fd"
  shows "\<exists>s'. rfold (channel_exec upd rem) (conn_ops p es) s = Inr s' \<and> ok (fst s') (snd s') \<and> heap_ok (fst s') \<and>
    forget_status (fst s') = (forget_status (fst s))(p \<mapsto> c\<lparr>events := ev', inPollerStatus := KInit\<rparr>) \<and>
    knows (snd s') = (knows (snd s))(m_socketFd c := if known' then Some p else None)"
  using assms(1-5)
proof (induction es arbitrary: s c known)
  case Nil
  have "forget_status (fst s) p = Some (c\<lparr>inPollerStatus := KInit\<rparr>)" using Nil.prems(3) by (simp add: forget_status_def)
  then have "(forget_status (fst s))(p \<mapsto> c\<lparr>events := ev', inPollerStatus := KInit\<rparr>) = forget_status (fst s)"
    using Nil.prems(4) by (intro fun_upd_idem) simp
  moreover have "(knows (snd s))(m_socketFd c := if known' then Some p else None) = knows (snd s)"
    using Nil.prems(4,5) by (intro fun_upd_idem) simp
  ultimately show ?case using Nil.prems by simp
next
  case (Cons e es)
  have skip: ?case if "conn_ops p (e # es) = conn_ops p es" "chan_run (e # es) (known, events c) = chan_run es (known, events c)"
    using Cons.IH [OF Cons.prems(1-3) _ Cons.prems(5)] Cons.prems(4) that by simp
  have step: ?case
    if op: "conn_ops p (e # es) = x # conn_ops p es" "op_allowed knows removable x s"
      and run: "chan_run (e # es) (known, events c) = chan_run es (k1, ev1)"
      and eff: "channel_effect x (forget_status (fst s), knows (snd s)) =
        ((forget_status (fst s))(p \<mapsto> c\<lparr>events := ev1, inPollerStatus := KInit\<rparr>),
         (knows (snd s))(m_socketFd c := if k1 then Some p else None))" for x k1 ev1
  proof -
    obtain s1 where s1: "channel_exec upd rem x s = Inr s1" "ok (fst s1) (snd s1)" "heap_ok (fst s1)"
      "forget_status (fst s1) = (forget_status (fst s))(p \<mapsto> c\<lparr>events := ev1, inPollerStatus := KInit\<rparr>)"
      "knows (snd s1) = (knows (snd s))(m_socketFd c := if k1 then Some p else None)"
      using exec_ok [OF Cons.prems(1,2) op(2)] eff by auto
    from s1(4) have "forget_status (fst s1) p = Some (c\<lparr>events := ev1, inPollerStatus := KInit\<rparr>)" by simp
    then obtain c1 where c1: "fst s1 p = Some c1" "c1\<lparr>inPollerStatus := KInit\<rparr> = c\<lparr>events := ev1, inPollerStatus := KInit\<rparr>"
      by (auto simp: forget_status_def)
    have fields: "m_socketFd c1 = m_socketFd c" "events c1 = ev1"
      using arg_cong [OF c1(2), of m_socketFd] arg_cong [OF c1(2), of events] by simp_all
    have c: "c1\<lparr>events := ev', inPollerStatus := KInit\<rparr> = c\<lparr>events := ev', inPollerStatus := KInit\<rparr>"
      using c1(2) by (cases c; cases c1) simp
    have k1: "knows (snd s1) (m_socketFd c1) = (if k1 then Some p else None)" using s1(5) fields(1) by simp
    have "chan_run es (k1, events c1) = Some (known', ev')" using Cons.prems(4) run fields(2) by simp
    from Cons.IH [OF s1(2,3) c1(1) this k1] obtain s' where s': "rfold (channel_exec upd rem) (conn_ops p es) s1 = Inr s'"
      "ok (fst s') (snd s')" "heap_ok (fst s')"
      "forget_status (fst s') = (forget_status (fst s1))(p \<mapsto> c1\<lparr>events := ev', inPollerStatus := KInit\<rparr>)"
      "knows (snd s') = (knows (snd s1))(m_socketFd c1 := if known' then Some p else None)"
      by blast
    show ?case
    proof (intro exI [of _ s'] conjI)
      show "rfold (channel_exec upd rem) (conn_ops p (e # es)) s = Inr s'" using op(1) s1(1) s'(1) by simp
      show "forget_status (fst s') = (forget_status (fst s))(p \<mapsto> c\<lparr>events := ev', inPollerStatus := KInit\<rparr>)"
        unfolding s'(4) s1(4) c fun_upd_upd ..
      show "knows (snd s') = (knows (snd s))(m_socketFd c := if known' then Some p else None)"
        unfolding s'(5) s1(5) fields(1) fun_upd_upd ..
    qed (use s' in auto)
  qed
  have p: "fst s p = Some c" "forget_status (fst s) p = Some (c\<lparr>inPollerStatus := KInit\<rparr>)"
    using Cons.prems(3) by (simp_all add: forget_status_def)
  show ?case
  proof (cases e)
    case (EChannel x)
    then have ch: "known \<or> change_events x (events c) \<noteq> 0" using Cons.prems(4) by (auto split: if_splits)
    show ?thesis
      by (rule step [of "Interest x p" True "change_events x (events c)"])
        (use EChannel ch p Cons.prems(5) in \<open>auto simp: set_interest_def\<close>)
  next
    case ERemove
    then have ch: "known" "events c = 0" using Cons.prems(4) by (auto split: if_splits)
    have "(forget_status (fst s))(p \<mapsto> c\<lparr>events := 0, inPollerStatus := KInit\<rparr>) = forget_status (fst s)"
      using p(2) ch(2) by (intro fun_upd_idem) (cases c, simp)
    then show ?thesis
      by (intro step [of "Remove p" False 0])
        (use ERemove ch p Cons.prems(5) assms(6) in auto)
  qed (use skip in simp_all)
qed

lemma conn_ops_watched:
  assumes "ok (fst s) (snd s)" "heap_ok (fst s)" "fst s p = Some c" "events c = 0" "knows (snd s) (m_socketFd c) = None"
    and "\<And>fd'. knows (snd s) fd' \<noteq> Some p" and "chan_run es (False, 0) = Some (known', ev')" and "\<And>e fd. removable e fd"
  shows "\<exists>s'. rfold (channel_exec upd rem) (conn_ops p es) s = Inr s' \<and>
    watched (snd s') = (watched (snd s))(m_socketFd c := if \<not> known' \<or> ev' = 0 then None else Some (ev', p)) \<and>
    knows (snd s') = (knows (snd s))(m_socketFd c := if known' then Some p else None)"
proof -
  obtain s' where s': "rfold (channel_exec upd rem) (conn_ops p es) s = Inr s'" "ok (fst s') (snd s')"
    "forget_status (fst s') = (forget_status (fst s))(p \<mapsto> c\<lparr>events := ev', inPollerStatus := KInit\<rparr>)"
    "knows (snd s') = (knows (snd s))(m_socketFd c := if known' then Some p else None)"
    using conn_ops_run [OF assms(1-3), of es False known' ev'] assms(4,5,7,8) by auto
  have "watched (snd s') = wanted (forget_status (fst s')) (knows (snd s'))"
    using watched_ok [OF s'(2)] by (simp add: wanted_forget)
  also have "\<dots> = (wanted (forget_status (fst s)) (knows (snd s)))
      (m_socketFd c := if \<not> known' \<or> ev' = 0 then None else Some (ev', p))"
    unfolding s'(3,4) using assms(6) by (subst wanted_upd) auto
  also have "wanted (forget_status (fst s)) (knows (snd s)) = watched (snd s)"
    using watched_ok [OF assms(1)] by (simp add: wanted_forget)
  finally show ?thesis using s'(1,4) by blast
qed

end

section \<open>Properties\<close>

abbreviation epoll_run where
  "epoll_run \<equiv> rfold (channel_exec (epoll_updateChannel True) (epoll_RemoveChannel True))"

text \<open>\<open>EpollPoller\<close> takes every channel operation of every history of a connection without a failed
  assertion, whatever other channels it has. The kernel then watches for the connection's socket
  exactly the events its channel asks for, on behalf of its channel, and what it watches for the others is as
  before. When the connection is disconnected, its channel can be removed, and nothing of it is left.\<close>

theorem connection_watched:
  assumes "user_ok u" and "acts_ok (user_callbacks u) as (TcpConnection fd hw)"
    and "rfold (conn_exec (user_callbacks u)) as (TcpConnection fd hw) = Inr s"
    and "epoll_ok h e" and "heap_ok h" and "h p = Some (channel (TcpConnection fd hw))" and "channels e fd = None"
  shows "\<exists>h' e'. epoll_run (conn_ops p (effects s)) (h, e) = Inr (h', e') \<and>
    epoll_watched e' = (epoll_watched e)(fd := if events (channel s) = 0 then None else Some (events (channel s), p)) \<and>
    (state s = KDisconnected \<longrightarrow>
       (\<exists>h'' e''. epoll_run (conn_ops p (effects s @ [ERemove])) (h, e) = Inr (h'', e'') \<and>
          epoll_watched e'' = epoll_watched e \<and> channels e'' = channels e))"
proof -
  let ?c = "channel (TcpConnection fd hw)"
  have c: "m_socketFd ?c = fd" "events ?c = 0"
    by (simp_all add: TcpConnection_def SetReadCallback_def SetWirteCallback_def SetCloseCallback_def Channel_def KNoneEvent_def)
  have "conn_inv s" using conn_from_new [OF assms(1-3)] by (simp add: conn_ok_def)
  then have run: "chan_run (effects s) (False, 0) = Some (state s \<noteq> KConnecting, events (channel s))"
    and out: "out_ok (state s) (events (channel s)) (content (outputBuffer s)) (EShutdownWrite \<in> set (effects s))"
    by (simp_all add: conn_inv_def)
  have other: "channels e fd' \<noteq> Some p" for fd'
    using epoll_okE [OF assms(4)] assms(6,7) c(1) by (metis option.inject option.distinct(1))
  have idle: "epoll_watched e fd = None" using epoll.watched_ok [OF assms(4)] assms(7) by (simp add: wanted_def)
  have ops: "\<exists>s'. epoll_run (conn_ops p es) (h, e) = Inr s' \<and>
      epoll_watched (snd s') = (epoll_watched e)(fd := if \<not> k \<or> ev = 0 then None else Some (ev, p)) \<and>
      channels (snd s') = (channels e)(fd := if k then Some p else None)"
    if "chan_run es (False, 0) = Some (k, ev)" for es k ev
    using epoll.conn_ops_watched [of "(h, e)" p ?c es k ev] assms(4-7) c other that by simp
  obtain s' where s': "epoll_run (conn_ops p (effects s)) (h, e) = Inr s'"
    "epoll_watched (snd s') = (epoll_watched e)(fd := if state s = KConnecting \<or> events (channel s) = 0 then None else Some (events (channel s), p))"
    using ops [OF run] by auto
  have "state s = KConnecting \<Longrightarrow> events (channel s) = 0" using out by (simp add: out_ok_def)
  then have w: "epoll_watched (snd s') = (epoll_watched e)(fd := if events (channel s) = 0 then None else Some (events (channel s), p))"
    using s'(2) by auto
  have removed: "\<exists>s''. epoll_run (conn_ops p (effects s @ [ERemove])) (h, e) = Inr s'' \<and>
      epoll_watched (snd s'') = epoll_watched e \<and> channels (snd s'') = channels e" if st: "state s = KDisconnected"
  proof -
    have "chan_run (effects s @ [ERemove]) (False, 0) = Some (False, 0)"
      using run out st by (simp add: chan_run_append out_ok_def)
    moreover have "(epoll_watched e)(fd := None) = epoll_watched e" "(channels e)(fd := None) = channels e"
      using idle assms(7) by (simp_all add: fun_upd_idem)
    ultimately show ?thesis using ops [of "effects s @ [ERemove]" False 0] by auto
  qed
  then have "\<exists>h'' e''. epoll_run (conn_ops p (effects s @ [ERemove])) (h, e) = Inr (h'', e'') \<and>
      epoll_watched e'' = epoll_watched e \<and> channels e'' = channels e" if "state s = KDisconnected"
    using that by (metis prod.collapse)
  then show ?thesis using s'(1) w by (intro exI [of _ "fst s'"] exI [of _ "snd s'"]) simp
qed

definition quiet_user :: user_prog where
  "quiet_user = ((\<lambda>_. None), (\<lambda>_. []))"

theorem connection_watched_witness:
  "\<exists>s h' e'. rfold (conn_exec (user_callbacks quiet_user)) [AEstablish] (TcpConnection 9 0) = Inr s \<and>
     epoll_run (conn_ops 4 (effects s)) ([4 \<mapsto> channel (TcpConnection 9 0)], EpollPoller) = Inr (h', e') \<and>
     epoll_watched e' 9 = Some (3, 4)"
proof -
  let ?c = "TcpConnection 9 0"
  have u: "user_ok quiet_user" by (simp add: user_ok_def quiet_user_def)
  have acts: "acts_ok (user_callbacks quiet_user) [AEstablish] ?c" by (simp add: TcpConnection_def split: sum.splits)
  obtain s where s: "rfold (conn_exec (user_callbacks quiet_user)) [AEstablish] ?c = Inr s" "events (channel s) = 3"
    by (simp add: TcpConnection_def ConnectEstablished_def call_def user_callbacks_def quiet_user_def emit_def upd_channel_def
        set_interest_def SetReadCallback_def SetWirteCallback_def SetCloseCallback_def Channel_def event_masks KNoneEvent_def)
  have h: "epoll_ok [4 \<mapsto> channel ?c] EpollPoller" "heap_ok [4 \<mapsto> channel ?c]" "channels EpollPoller 9 = None"
    by (auto simp: epoll_ok_def EpollPoller_def heap_ok_def TcpConnection_def Channel_def KNoneEvent_def
        SetReadCallback_def SetWirteCallback_def SetCloseCallback_def)
  from connection_watched [OF u acts s(1) h(1,2) _ h(3), of 4] s show ?thesis by auto
qed

end
