(* ===== verification/Server_Steps.thy ===== *)
theory Server_Steps
  imports Tcp_Server
begin

text \<open>
  What one step of the server does to the connection it is about, and to the others: the frame that
  \<open>Reactor\<close> composes with the pollers, and progress, that a closed connection reaches its end.
\<close>

section \<open>The descriptor of a connection\<close>

text \<open>A relation that also holds across closing holds across every action.\<close>

locale conn_relation_all = conn_relation +
  assumes calling: "R s (emit (ECall c) s)"
    and stated: "R s (s\<lparr>state := KConnected\<rparr>)" "R s (s\<lparr>state := KDisconnected\<rparr>)"
    and received: "R s (s\<lparr>channel := SetReceiveEvent r (channel s)\<rparr>)"
    and handling: "R s (s\<lparr>channel := (channel s)\<lparr>eventHandling := b\<rparr>\<rparr>)"
    and setting: "R s (setWriteCompleteCallback s)" "R s (setHighWaterMarkCallback hw s)"
begin

lemma called: "call (user_callbacks u) c s = Inr s' \<Longrightarrow> R s s'"
proof (cases "c = OnClose")
  case True
  then show "call (user_callbacks u) c s = Inr s' \<Longrightarrow> ?thesis"
    using calling by (auto simp: call_def user_callbacks_def)
qed (rule calls)

lemma upd_called:
  "call (user_callbacks u) c (upd_channel x (s\<lparr>state := KConnected\<rparr>)) = Inr s' \<Longrightarrow> R s s'"
  "call (user_callbacks u) c (upd_channel x (s\<lparr>state := KDisconnected\<rparr>)) = Inr s' \<Longrightarrow> R s s'"
  by (rule trans [OF trans [OF stated(1) upd] called], assumption)
     (rule trans [OF trans [OF stated(2) upd] called], assumption)

lemma closing: "handleClose b (user_callbacks u) s = Inr s' \<Longrightarrow> R s s'"
  unfolding handleClose_def result_iffs using upd_called(2) called trans by blast

lemma reads: "handleRead b (user_callbacks u) rv s = Inr s' \<Longrightarrow> R s s'"
  by (auto simp: handleRead_def rbind_Inr_iff Let_def split: if_splits dest!: called closing
      intro: trans [OF fields(1)] fields(1))

lemma callback: "exec_conn_cb (user_callbacks u) rv w cb s = Inr s' \<Longrightarrow> R s s'"
  by (cases cb) (auto dest: reads writes closing)

lemma call_ifs: "call_if b (exec_conn_cb (user_callbacks u) rv w) cb s = Inr s' \<Longrightarrow> R s s'"
  by (auto simp: call_if_def refl dest: callback split: if_splits option.splits)

lemma event: "conn_HandleEvent (user_callbacks u) rv w s = Inr s' \<Longrightarrow> R s s'"
  unfolding conn_HandleEvent_eq conn_upd_handling
  by (auto simp: rbind_Inr_iff dest!: call_ifs intro: trans [OF handling trans [OF _ trans [OF _ trans [OF _ handling]]]])

lemma exec: "conn_exec (user_callbacks u) a s = Inr s' \<Longrightarrow> R s s'"
proof (cases a)
  case (AFunctor f mem w)
  then show "conn_exec (user_callbacks u) a s = Inr s' \<Longrightarrow> ?thesis"
    by (cases f) (auto simp: logged_sendInLoop_def forceCloseInLoop_def rbind_Inr_iff refl split: if_splits
        dest: sends shuts closing intro: logs)
next
  case AEstablish
  then show "conn_exec (user_callbacks u) a s = Inr s' \<Longrightarrow> ?thesis"
    by (auto simp: ConnectEstablished_def result_iffs dest: upd_called)
next
  case (AEvent r rv w)
  then show "conn_exec (user_callbacks u) a s = Inr s' \<Longrightarrow> ?thesis"
    by (auto dest: event intro: trans [OF received])
qed (auto simp: send_def refl dest: ucall shutdowns intro: forces setting emits split: if_splits)

end

definition conn_fd :: "conn \<Rightarrow> int" where
  "conn_fd s = m_socketFd (channel s)"

lemma conn_fd_simps [simp]:
  "conn_fd (TcpConnection fd hw) = fd" "conn_fd (emit e s) = conn_fd s"
  "conn_fd (setHighWaterMarkCallback k s) = conn_fd s" "conn_fd (setWriteCompleteCallback s) = conn_fd s"
  by (simp_all add: conn_fd_def TcpConnection_def SetReadCallback_def SetWirteCallback_def SetCloseCallback_def Channel_def
      emit_def setHighWaterMarkCallback_def setWriteCompleteCallback_def)

interpretation fd: conn_relation_all "\<lambda>s s'. conn_fd s' = conn_fd s"
  by unfold_locales
    (auto simp: conn_fd_def emit_def upd_channel_def set_interest_def SetReceiveEvent_def
      setHighWaterMarkCallback_def setWriteCompleteCallback_def)

section \<open>What a step changes\<close>

fun touched :: "srv_act \<Rightarrow> server \<Rightarrow> nat option" where
  "touched (SAccept p fd junk) s = Some p"
| "touched (SRun l) s = (case queues s l of [] \<Rightarrow> None | f # fs \<Rightarrow> Some (fptr f))"
| "touched (SConn p a) s = Some p"

text \<open>A connection afterwards: same name, loop and descriptor; more effects, a state further on; when it is
  destroyed, it was disconnected, and its channel is removed; then nothing changes any more.\<close>

definition conn_next :: "sconn \<Rightarrow> sconn \<Rightarrow> bool" where
  "conn_next c c' \<longleftrightarrow>
     cname c' = cname c \<and> cloop c' = cloop c \<and> conn_fd (cbody c') = conn_fd (cbody c) \<and>
     prefix (effects (cbody c)) (effects (cbody c')) \<and> rank (state (cbody c)) \<le> rank (state (cbody c')) \<and>
     (cgone c \<longrightarrow> c' = c) \<and>
     (cgone c' \<and> \<not> cgone c \<longrightarrow> cbody c' = emit ERemove (cbody c) \<and> state (cbody c) = KDisconnected)"

lemma conn_next_refl [simp]: "conn_next c c"
  by (simp add: conn_next_def)

lemma removeConnection_frame:
  "removeConnection l p s = Inr s' \<Longrightarrow> conns s' = conns s \<and> eventloop s' = eventloop s"
  by (auto simp: removeConnection_def removeConnectionInLoop_def result_iffs srv_queue_def split: if_splits)

lemma removeConnections_frame:
  "rfold (\<lambda>_. removeConnection l p) xs s = Inr s' \<Longrightarrow> conns s' = conns s \<and> eventloop s' = eventloop s"
  by (induction xs arbitrary: s) (auto simp: rbind_Inr_iff dest!: removeConnection_frame)

lemma establish_frame:
  assumes "establish u l p s = Inr s'"
  obtains c b where "conns s p = Some c" "conn_exec (user_callbacks u) AEstablish (cbody c) = Inr b"
    "s' = set_body p b s"
  using assms by (auto simp: establish_def result_iffs ConnectEstablished_def)

text \<open>Actions of a connection that cannot end it.\<close>

fun calm :: "conn_act \<Rightarrow> bool" where
  "calm (AEvent r rv w) = False"
| "calm (AFunctor f mem w) = False"
| "calm AEstablish = False"
| "calm a = True"

lemma nc_fields: "no_close s (s\<lparr>writeCompleteCallback := b\<rparr>)"
  "no_close s (s\<lparr>highWaterMarkCallback := b, highWaterMark := k\<rparr>)"
  by (simp_all add: no_close_def)

lemma calm_no_close: "calm a \<Longrightarrow> conn_exec (user_callbacks u) a s = Inr s' \<Longrightarrow> no_close s s'"
  by (cases a) (auto simp: send_def setWriteCompleteCallback_def setHighWaterMarkCallback_def 
      dest: nc.ucall nc.shutdowns intro: nc.forces nc_fields split: if_splits)

lemma body_next:
  assumes "user_ok u" "conn_ok (cbody c)" "act_ok a (cbody c)" "conn_exec (user_callbacks u) a (cbody c) = Inr b" "\<not> cgone c"
  shows "conn_next c (c\<lparr>cbody := b\<rparr>)"
proof -
  have "case conn_exec (user_callbacks u) a (cbody c) of Inl e \<Rightarrow> e = LengthError | Inr b \<Rightarrow> conn_ok b \<and> conn_fwd (cbody c) b"
    by (rule cu.act_post [OF assms(1) _ assms(2,3)]) (rule exec_conn_ucall_post)
  then have "conn_fwd (cbody c) b" using assms(4) by simp
  then show ?thesis using fd.exec [OF assms(4)] assms(5) by (simp add: conn_next_def conn_fwd_def)
qed

text \<open>The actions that may end a connection: an event or a functor of its own, a server's functor in its loop.\<close>

fun may_end :: "srv_act \<Rightarrow> nat \<Rightarrow> sconn \<Rightarrow> bool" where
  "may_end (SConn q a) p c \<longleftrightarrow> q = p \<and> \<not> calm a"
| "may_end (SRun l) p c \<longleftrightarrow> l = cloop c"
| "may_end (SAccept q fd junk) p c \<longleftrightarrow> False"

definition srv_frame :: "srv_act \<Rightarrow> server \<Rightarrow> server \<Rightarrow> bool" where
  "srv_frame a s s' \<longleftrightarrow>
     eventloop s' = eventloop s \<and>
     (conns s' = conns s \<or>
      (\<exists>p c c'. touched a s = Some p \<and> conns s p = Some c \<and> conns s' = (conns s)(p \<mapsto> c') \<and> conn_next c c' \<and>
         (up (state (cbody c)) \<and> \<not> cgone c \<and> \<not> may_end a p c \<longrightarrow> up (state (cbody c')) \<and> \<not> cgone c')) \<or>
      (\<exists>p fd junk c'. a = SAccept p fd junk \<and> 0 \<le> fd \<and> conns s p = None \<and> conns s' = (conns s)(p \<mapsto> c') \<and>
         conn_fd (cbody c') = fd \<and> \<not> cgone c'))"

lemma set_body_conns: "conns s p = Some c \<Longrightarrow> conns (set_body p b s) = (conns s)(p \<mapsto> c\<lparr>cbody := b\<rparr>)"
  by (simp add: set_body_def)

lemma frame_run:
  assumes inv: "srv_inv s" and u: "user_ok u" and q: "queues s l = f # fs"
    and run: "exec_srv_functor u l f (s\<lparr>queues := (queues s)(l := fs)\<rparr>) = Inr s'"
  shows "srv_frame (SRun l) s s'"
proof (cases f)
  case (SEstablish p)
  then obtain c where c: "conns s p = Some c" "cloop c = l" "state (cbody c) = KConnecting"
    using srv_invD(2) [OF inv, of f l] q by (auto simp: functor_stage_def)
  have ok: "conn_ok (cbody c)" "\<not> cgone c" using srv_invD(3) [OF inv c(1)] c(3) by (auto simp: conn_stage_def)
  obtain b where b: "conn_exec (user_callbacks u) AEstablish (cbody c) = Inr b"
      "s' = set_body p b (s\<lparr>queues := (queues s)(l := fs)\<rparr>)"
    using run SEstablish c(1) by (auto elim!: establish_frame)
  have "conn_next c (c\<lparr>cbody := b\<rparr>)" by (rule body_next [OF u ok(1) _ b(1) ok(2)]) (simp add: c(3))
  moreover have "conns s' = (conns s)(p \<mapsto> c\<lparr>cbody := b\<rparr>)" "eventloop s' = eventloop s"
    using b(2) c(1) by (simp_all add: set_body_def)
  ultimately show ?thesis using SEstablish c q by (auto simp: srv_frame_def)
next
  case (SRemove p)
  then show ?thesis using run by (auto simp: srv_frame_def removeConnectionInLoop_def result_iffs srv_queue_def)
next
  case (SDestroy p)
  then obtain c where c: "conns s p = Some c" "cloop c = l" "state (cbody c) = KDisconnected" "\<not> cgone c"
    using srv_invD(2) [OF inv, of f l] q by (auto simp: functor_stage_def)
  have "conn_next c (c\<lparr>cbody := emit ERemove (cbody c), cgone := True\<rparr>)"
    using c by (simp add: conn_next_def)
  then show ?thesis using run SDestroy c q by (auto simp: srv_frame_def destroy_def destroy_body)
qed

lemma frame_conn:
  assumes inv: "srv_inv s" and u: "user_ok u" and ok: "srv_ok (SConn p a) s" and run: "srv_exec u (SConn p a) s = Inr s'"
  shows "srv_frame (SConn p a) s s'"
proof -
  obtain c where c: "conns s p = Some c" "\<not> cgone c" "a \<noteq> AEstablish" "act_ok a (cbody c)"
    using ok by (auto split: option.splits)
  have b_ok: "conn_ok (cbody c)" using srv_invD(3) [OF inv c(1)] c(2) by (auto simp: conn_stage_def)
  obtain b where b: "conn_exec (user_callbacks u) a (cbody c) = Inr b"
    and r: "rfold (\<lambda>_. removeConnection (cloop c) p) (replicate (closes b - closes (cbody c)) ()) (set_body p b s) = Inr s'"
    using run c(1) by (auto simp: result_iffs)
  have nxt: "conn_next c (c\<lparr>cbody := b\<rparr>)" by (rule body_next [OF u b_ok c(4) b c(2)])
  have "up (state b)" if "up (state (cbody c))" "calm a"
  proof -
    have "state b \<noteq> KDisconnected" using calm_no_close [OF that(2) b] that(1) by (auto simp: no_close_def)
    moreover have "state b \<noteq> KConnecting" using nxt that(1) by (auto simp: conn_next_def rank_def)
    ultimately show ?thesis by (cases "state b") auto
  qed
  then show ?thesis
    using nxt c removeConnections_frame [OF r] by (auto simp: srv_frame_def set_body_def)
qed

definition fresh_body :: "nat \<Rightarrow> int \<Rightarrow> nat \<Rightarrow> conn" where
  "fresh_body hw fd junk = setHighWaterMarkCallback hw (setWriteCompleteCallback (TcpConnection fd junk))"

lemma accept_step:
  assumes run: "srv_exec u (SAccept p fd junk) s = Inr s'" and fd: "0 \<le> fd"
  obtains io b where
    "conns s' = (conns s)(p \<mapsto> \<lparr>cname = to_string (nextConnId s), cloop = io, cbody = b, cgone = False\<rparr>)"
    "conn_fd b = fd" "b = fresh_body (srvHighWaterMark s) fd junk \<or>
      conn_exec (user_callbacks u) AEstablish (fresh_body (srvHighWaterMark s) fd junk) = Inr b" "connections s' = (connections s)(to_string (nextConnId s) \<mapsto> p)" "eventloop s' = eventloop s"
    "queues s' = (if eventloop s = io then queues s else (queues s)(io := queues s io @ [SEstablish p]))"
proof -
  define s1 where "s1 io tp = s\<lparr>threadPool := tp, connections := (connections s)(to_string (nextConnId s) \<mapsto> p),
    conns := (conns s)(p \<mapsto> \<lparr>cname = to_string (nextConnId s), cloop = io,
      cbody = setHighWaterMarkCallback (srvHighWaterMark s) (setWriteCompleteCallback (TcpConnection fd junk)),
      cgone = False\<rparr>)\<rparr>" for io tp
  have "acceptor_HandleRead u (eventloop s) p fd junk s = Inr s'" using run by simp
  then obtain io tp where "rbind (if eventloop s = io then establish u (eventloop s) p (s1 io tp)
        else Inr (srv_queue io (SEstablish p) (s1 io tp)))
      (\<lambda>s2. if nextConnId s2 < 2 ^ 31 - 1 then Inr (s2\<lparr>nextConnId := nextConnId s2 + 1\<rparr>) else Inl Undefined) = Inr s'"
    using fd unfolding acceptor_HandleRead_def newConnection_def Let_def s1_def [symmetric]
    by (auto simp only: assertInLoopThread_simps rbind_Inr_iff [of "getNextLoop _ _"] if_True simp_thms split: prod.splits)
  then obtain s2 where s2: "(if eventloop s = io then establish u (eventloop s) p (s1 io tp)
        else Inr (srv_queue io (SEstablish p) (s1 io tp))) = Inr s2" and s': "s' = s2\<lparr>nextConnId := nextConnId s2 + 1\<rparr>"
    by (rule rbind_InrE) (auto split: if_splits)
  show ?thesis
  proof (cases "eventloop s = io")
    case True
    then obtain c b where c: "conns (s1 io tp) p = Some c" "conn_exec (user_callbacks u) AEstablish (cbody c) = Inr b"
      "s2 = set_body p b (s1 io tp)" using s2 by (auto elim: establish_frame)
    have "conn_fd b = fd" using fd.exec [OF c(2)] c(1) by (auto simp: s1_def)
    moreover have "conn_exec (user_callbacks u) AEstablish (fresh_body (srvHighWaterMark s) fd junk) = Inr b"
      using c(1,2) by (auto simp: s1_def fresh_body_def)
    ultimately show ?thesis using True s' c(3) by (intro that [of io b]) (auto simp: set_body_def s1_def)
  next
    case False
    then have "s2 = srv_queue io (SEstablish p) (s1 io tp)" using s2 by simp
    then show ?thesis using False s'
      by (intro that [of io "setHighWaterMarkCallback (srvHighWaterMark s) (setWriteCompleteCallback (TcpConnection fd junk))"])
        (auto simp: srv_queue_def s1_def fresh_body_def)
  qed
qed

lemma frame_accept:
  assumes ok: "srv_ok (SAccept p fd junk) s" and run: "srv_exec u (SAccept p fd junk) s = Inr s'"
  shows "srv_frame (SAccept p fd junk) s s'"
proof (cases "0 \<le> fd")
  case True
  obtain io b where "conns s' = (conns s)(p \<mapsto> \<lparr>cname = to_string (nextConnId s), cloop = io, cbody = b, cgone = False\<rparr>)"
    "conn_fd b = fd" "eventloop s' = eventloop s" by (rule accept_step [OF run True])
  then show ?thesis using ok True
    unfolding srv_frame_def by (intro conjI disjI2 exI [of _ p] exI [of _ fd] exI [of _ junk]) auto
qed (use run in \<open>simp add: srv_frame_def acceptor_HandleRead_def\<close>)

lemma srv_frame_step:
  assumes "srv_inv s" "user_ok u" "srv_ok a s" "srv_exec u a s = Inr s'"
  shows "srv_frame a s s'"
proof (cases a)
  case (SAccept p fd junk)
  show ?thesis using frame_accept assms(3,4) unfolding SAccept .
next
  case (SRun l)
  show ?thesis
  proof (cases "queues s l")
    case Nil
    then have "s' = s" using assms(4) SRun by simp
    then show ?thesis by (simp add: srv_frame_def)
  next
    case (Cons f fs)
    then show ?thesis using frame_run [OF assms(1,2) Cons] assms(4) SRun by simp
  qed
next
  case (SConn p b)
  show ?thesis using frame_conn [OF assms(1-3) [unfolded SConn]] assms(4) unfolding SConn .
qed

section \<open>Progress\<close>

text \<open>A job in a queue of the system: other actions only append to the queue, \<open>run\<close> takes its head, and
  taking the job reaches the goal, which stays. Then as many \<open>run\<close>s as the queue is long are enough.\<close>

locale fifo_progress = legal_system +
  fixes queue :: "'b \<Rightarrow> 'f list" and run :: 'a and job :: 'f and goal :: "'b \<Rightarrow> bool"
  assumes waiting: "inv s \<Longrightarrow> \<not> goal s \<Longrightarrow> job \<in> set (queue s)"
    and goal_stays: "inv s \<Longrightarrow> legal a s \<Longrightarrow> exec a s = Inr s' \<Longrightarrow> goal s \<Longrightarrow> goal s'"
    and job_done: "inv s \<Longrightarrow> exec run s = Inr s' \<Longrightarrow> queue s = job # fs \<Longrightarrow> goal s'"
    and fifo: "inv s \<Longrightarrow> legal a s \<Longrightarrow> exec a s = Inr s' \<Longrightarrow>
      prefix (if a = run then tl (queue s) else queue s) (queue s')"
begin

lemma progress_at:
  assumes "inv s" "legal_run exec legal as s" "rfold exec as s = Inr s'"
    and "goal s \<or> (\<exists>xs ys. queue s = xs @ job # ys \<and> length xs < length (filter ((=) run) as))"
  shows "goal s'"
  using assms
proof (induction as arbitrary: s)
  case (Cons a as)
  then obtain s1 where s1: "exec a s = Inr s1" "rfold exec as s1 = Inr s'" "legal a s" "legal_run exec legal as s1"
    by (auto simp: rbind_Inr_iff)
  have inv1: "inv s1" using legal_step [OF Cons.prems(1) s1(3)] s1(1) by simp
  have "goal s1 \<or> (\<exists>xs ys. queue s1 = xs @ job # ys \<and> length xs < length (filter ((=) run) as))"
  proof (cases "goal s")
    case False
    then obtain xs ys where q: "queue s = xs @ job # ys" "length xs < length (filter ((=) run) (a # as))"
      using Cons.prems(4) by blast
    note grow = fifo [OF Cons.prems(1) s1(3,1)]
    show ?thesis
    proof (cases "a = run")
      case True
      show ?thesis
      proof (cases xs)
        case Nil
        then show ?thesis using job_done [OF Cons.prems(1)] s1(1) q(1) True by simp
      next
        case (Cons x xs')
        then show ?thesis using grow q True by (auto simp: prefix_def)
      qed
    qed (use grow q in \<open>auto simp: prefix_def\<close>)
  qed (use goal_stays [OF Cons.prems(1) s1(3,1)] in blast)
  then show ?case by (rule Cons.IH [OF inv1 s1(4,2)])
qed simp

lemma progress:
  assumes "inv s" "legal_run exec legal as s" "rfold exec as s = Inr s'" "length (queue s) \<le> length (filter ((=) run) as)"
  shows "goal s'"
proof (rule progress_at [OF assms(1-3)])
  show "goal s \<or> (\<exists>xs ys. queue s = xs @ job # ys \<and> length xs < length (filter ((=) run) as))"
  proof (cases "goal s")
    case False
    then obtain xs ys where "queue s = xs @ job # ys" using waiting [OF assms(1)] by (meson split_list)
    then show ?thesis using assms(4) by auto
  qed simp
qed

end

lemma removeConnection_grows:
  "removeConnection l p s = Inr s' \<Longrightarrow> prefix (queues s k) (queues s' k) \<and> connections s' \<subseteq>\<^sub>m connections s"
  by (auto simp: removeConnection_def removeConnectionInLoop_def result_iffs srv_queue_def map_le_def split: if_splits)

lemma removeConnections_grow:
  "rfold (\<lambda>_. removeConnection l p) xs s = Inr s' \<Longrightarrow>
    prefix (queues s k) (queues s' k) \<and> connections s' \<subseteq>\<^sub>m connections s"
proof (induction xs arbitrary: s)
  case (Cons x xs)
  then show ?case
    by (auto simp: rbind_Inr_iff dest!: removeConnection_grows [where k = k]
        intro: prefix_order.trans map_le_trans)
qed simp

lemma functor_grows:
  "exec_srv_functor u l f s = Inr s' \<Longrightarrow>
    prefix (queues s k) (queues s' k) \<and> (connections s' n = Some q \<longrightarrow> connections s n = Some q)"
  by (cases f) (auto simp: establish_def destroy_def removeConnectionInLoop_def set_body_def srv_queue_def result_iffs
      split: if_splits)

text \<open>What a step does to the queues and the map.\<close>

lemma queues_map_step:
  assumes "srv_exec u a s = Inr s'"
  shows "prefix (if a = SRun k then tl (queues s k) else queues s k) (queues s' k) \<and>
    (connections s' n = Some q \<longrightarrow> connections s n = Some q \<or> (\<exists>fd junk. a = SAccept q fd junk))"
proof (cases a)
  case (SAccept p fd junk)
  show ?thesis
  proof (cases "0 \<le> fd")
    case True
    have "srv_exec u (SAccept p fd junk) s = Inr s'" using assms by (simp only: SAccept)
    from this True show ?thesis by (rule accept_step) (auto simp: SAccept split: if_splits)
  qed (use assms SAccept in \<open>auto simp: acceptor_HandleRead_def\<close>)
next
  case (SRun l)
  show ?thesis
  proof (cases "queues s l")
    case Nil
    then show ?thesis using assms SRun by auto
  next
    case (Cons f fs)
    let ?s = "s\<lparr>queues := (queues s)(l := fs)\<rparr>"
    have "exec_srv_functor u l f ?s = Inr s'" using assms SRun Cons by simp
    from functor_grows [OF this, of k n q]
    show ?thesis using Cons SRun by (auto split: if_splits)
  qed
next
  case (SConn p b)
  then obtain c where c: "conns s p = Some c" using assms by (auto simp: deref_Inr_iff)
  then obtain t where t: "rfold (\<lambda>_. removeConnection (cloop c) p)
      (replicate (closes t - closes (cbody c)) ()) (set_body p t s) = Inr s'"
    using assms SConn by (auto simp: rbind_Inr_iff)
  from removeConnections_grow [OF t, of k] show ?thesis
    using SConn by (auto simp: set_body_def map_le_def dom_def)
qed

text \<open>A closed connection: from the call of its close callback on, on its way through the base loop, then its own.\<close>

definition closing_inv :: "user_prog \<Rightarrow> nat \<Rightarrow> nat \<Rightarrow> sconn \<Rightarrow> server \<Rightarrow> bool" where
  "closing_inv u base p c s \<longleftrightarrow>
     user_ok u \<and> srv_inv s \<and> eventloop s = base \<and>
     (\<exists>c'. conns s p = Some c' \<and> cname c' = cname c \<and> cloop c' = cloop c \<and> state (cbody c') = KDisconnected)"

definition off_map :: "nat \<Rightarrow> sconn \<Rightarrow> server \<Rightarrow> bool" where
  "off_map p c s \<longleftrightarrow> connections s (cname c) \<noteq> Some p"

definition destroyed :: "nat \<Rightarrow> server \<Rightarrow> bool" where
  "destroyed p s \<longleftrightarrow> (\<exists>c. conns s p = Some c \<and> cgone c)"

lemma conn_next_disconnected: "conn_next c c' \<Longrightarrow> state (cbody c) = KDisconnected \<Longrightarrow> state (cbody c') = KDisconnected"
  by (cases "state (cbody c')") (auto simp: conn_next_def rank_def)

lemma frame_next:
  assumes "srv_frame a s s'" "conns s p = Some c"
  shows "\<exists>c'. conns s' p = Some c' \<and> conn_next c c'"
proof -
  consider "conns s' = conns s" | q d d' where "conns s q = Some d" "conns s' = (conns s)(q \<mapsto> d')" "conn_next d d'"
    | q d' where "conns s q = None" "conns s' = (conns s)(q \<mapsto> d')"
    using assms(1) unfolding srv_frame_def by blast
  then show ?thesis using assms(2) by cases (auto split: if_splits)
qed

lemma closing_step:
  assumes inv: "closing_inv u base p c s" and ok: "srv_ok a s"
  shows "case srv_exec u a s of Inl e \<Rightarrow> e = LengthError | Inr s' \<Rightarrow> closing_inv u base p c s'"
proof (cases "srv_exec u a s")
  case (Inr s')
  have s: "srv_inv s" "user_ok u" using inv by (simp_all add: closing_inv_def)
  have f: "srv_frame a s s'" by (rule srv_frame_step [OF s ok Inr])
  have s': "srv_inv s'" "eventloop s' = eventloop s" using srv_step [OF s ok] Inr f by (simp_all add: srv_frame_def)
  obtain c0 where c0: "conns s p = Some c0" "cname c0 = cname c" "cloop c0 = cloop c" "state (cbody c0) = KDisconnected"
    using inv by (auto simp: closing_inv_def)
  obtain c' where c': "conns s' p = Some c'" "conn_next c0 c'" using frame_next [OF f c0(1)] by blast
  have "state (cbody c') = KDisconnected" by (rule conn_next_disconnected [OF c'(2) c0(4)])
  then have "closing_inv u base p c s'" using s s' c0 c' inv by (simp add: closing_inv_def conn_next_def)
  then show ?thesis using Inr by simp
next
  case (Inl e)
  then show ?thesis using srv_step [of s u a] inv ok by (simp add: closing_inv_def)
qed

lemma closing_stage:
  assumes "closing_inv u base p c s"
  shows "\<not> off_map p c s \<Longrightarrow> SRemove p \<in> set (queues s base)"
    and "off_map p c s \<Longrightarrow> \<not> destroyed p s \<Longrightarrow> SDestroy p \<in> set (queues s (cloop c))"
proof -
  obtain c' where c': "conns s p = Some c'" "cname c' = cname c" "cloop c' = cloop c" "state (cbody c') = KDisconnected"
    using assms by (auto simp: closing_inv_def)
  have "conn_stage s p c'" "eventloop s = base" using assms srv_invD(3) c'(1) by (auto simp: closing_inv_def)
  then show "\<not> off_map p c s \<Longrightarrow> SRemove p \<in> set (queues s base)"
    and "off_map p c s \<Longrightarrow> \<not> destroyed p s \<Longrightarrow> SDestroy p \<in> set (queues s (cloop c))"
    using c' by (auto simp: conn_stage_def in_map_def off_map_def destroyed_def)
qed

lemma off_map_stays:
  "srv_exec u a s = Inr s' \<Longrightarrow> srv_ok a s \<Longrightarrow> closing_inv u base p c s \<Longrightarrow> off_map p c s \<Longrightarrow> off_map p c s'"
  using queues_map_step [of u a s s' 0 "cname c" p] by (auto simp: off_map_def closing_inv_def)

interpretation rm: fifo_progress "srv_exec u" srv_ok "closing_inv u base p c" "\<lambda>e. e = LengthError"
  "\<lambda>s. queues s base" "SRun base" "SRemove p" "off_map p c" for u base p c
proof
  fix s a s' fs
  assume inv: "closing_inv u base p c s"
  show "srv_ok a s \<Longrightarrow> case srv_exec u a s of Inl e \<Rightarrow> e = LengthError | Inr s' \<Rightarrow> closing_inv u base p c s'"
    by (rule closing_step [OF inv])
  show "\<not> off_map p c s \<Longrightarrow> SRemove p \<in> set (queues s base)" by (rule closing_stage(1) [OF inv])
  show "srv_ok a s \<Longrightarrow> srv_exec u a s = Inr s' \<Longrightarrow> off_map p c s \<Longrightarrow> off_map p c s'"
    using off_map_stays inv by blast
  show "srv_exec u a s = Inr s' \<Longrightarrow> prefix (if a = SRun base then tl (queues s base) else queues s base) (queues s' base)"
    using queues_map_step by blast
  show "srv_exec u (SRun base) s = Inr s' \<Longrightarrow> queues s base = SRemove p # fs \<Longrightarrow> off_map p c s'"
    using inv by (auto simp: removeConnectionInLoop_def result_iffs srv_queue_def off_map_def closing_inv_def)
qed

interpretation ds: fifo_progress "srv_exec u" srv_ok "\<lambda>s. closing_inv u base p c s \<and> off_map p c s" "\<lambda>e. e = LengthError"
  "\<lambda>s. queues s (cloop c)" "SRun (cloop c)" "SDestroy p" "destroyed p" for u base p c
proof
  fix s a s' fs
  assume inv: "closing_inv u base p c s \<and> off_map p c s"
  show "srv_ok a s \<Longrightarrow> case srv_exec u a s of Inl e \<Rightarrow> e = LengthError
      | Inr s' \<Rightarrow> closing_inv u base p c s' \<and> off_map p c s'"
    using closing_step [of u base p c s a] off_map_stays inv by (auto split: sum.splits)
  show "\<not> destroyed p s \<Longrightarrow> SDestroy p \<in> set (queues s (cloop c))" using closing_stage(2) inv by blast
  show "srv_ok a s \<Longrightarrow> srv_exec u a s = Inr s' \<Longrightarrow> destroyed p s \<Longrightarrow> destroyed p s'"
    using frame_next [OF srv_frame_step, of s u a s' p] inv by (auto simp: destroyed_def closing_inv_def conn_next_def)
  show "srv_exec u a s = Inr s' \<Longrightarrow>
      prefix (if a = SRun (cloop c) then tl (queues s (cloop c)) else queues s (cloop c)) (queues s' (cloop c))"
    using queues_map_step by blast
  show "srv_exec u (SRun (cloop c)) s = Inr s' \<Longrightarrow> queues s (cloop c) = SDestroy p # fs \<Longrightarrow> destroyed p s'"
    by (auto simp: destroy_def result_iffs destroyed_def)
qed

lemma closing_start:
  assumes "srv_inv s" "user_ok u" "conns s p = Some c" "state (cbody c) = KDisconnected"
  shows "closing_inv u (eventloop s) p c s"
  using assms by (simp add: closing_inv_def)

lemma closing_destroyed:
  assumes inv: "closing_inv u base p c s" and gone: "destroyed p s"
  shows "\<exists>c'. conns s p = Some c' \<and> cgone c' \<and> connections s (cname c) = None \<and>
    (\<forall>l. \<forall>f \<in> set (queues s l). fptr f \<noteq> p) \<and> conn_delete (cbody c') = Inr ()"
proof -
  obtain c' where c': "conns s p = Some c'" "cname c' = cname c" "state (cbody c') = KDisconnected" "cgone c'"
    using inv gone by (auto simp: closing_inv_def destroyed_def)
  have s: "srv_inv s" using inv by (simp add: closing_inv_def)
  have off: "\<not> in_map s p c'" using srv_invD(3) [OF s c'(1)] c'(4) by (simp add: conn_stage_def)
  have "connections s (cname c) = None"
  proof (rule ccontr)
    assume "connections s (cname c) \<noteq> None"
    then obtain q d where "connections s (cname c) = Some q" "conns s q = Some d" "cname d = cname c"
      using srv_invD(4) [OF s] unfolding names_inv_def by blast
    moreover from this have "q = p" using srv_invD(4) [OF s] c'(1,2) unfolding names_inv_def by metis
    ultimately show False using off c'(2) by (simp add: in_map_def)
  qed
  then show ?thesis using c' queued_for [OF s c'(1)] by (fastforce simp: conn_delete_def)
qed

text \<open>C3: every closed connection is destroyed. From any state the server can be in, once a connection has
  disconnected, whatever else happens: when the base loop has run as many functors as were queued to it,
  and after that the connection's loop as many as were then queued to it, the connection's
  \<open>ConnectDestoryed\<close> has run, its name is free, no functor holds it, and its destructor's assertion holds.\<close>

theorem server_destroys_closed:
  assumes "user_ok u" and "srv_start True cb addr (srv_setThreadNum n (TcpServer base fd)) = Inr s0"
    and "srv_all_ok u as s0" and "rfold (srv_exec u) as s0 = Inr s"
    and "conns s p = Some c" and "state (cbody c) = KDisconnected"
    and "srv_all_ok u bs s" and "rfold (srv_exec u) bs s = Inr s1"
    and "length (queues s (eventloop s)) \<le> length (filter ((=) (SRun (eventloop s))) bs)"
    and "srv_all_ok u cs s1" and "rfold (srv_exec u) cs s1 = Inr s2"
    and "length (queues s1 (cloop c)) \<le> length (filter ((=) (SRun (cloop c))) cs)"
  shows "\<exists>c'. conns s2 p = Some c' \<and> cgone c' \<and> connections s2 (cname c) = None \<and>
    (\<forall>l. \<forall>f \<in> set (queues s2 l). fptr f \<noteq> p) \<and> conn_delete (cbody c') = Inr ()"
proof -
  have "srv_inv s" using srv_history [OF srv_inv_start [OF assms(2)] assms(1,3)] assms(4) by simp
  then have inv: "closing_inv u (eventloop s) p c s" using closing_start assms(1,5,6) by blast
  have off: "off_map p c s1" by (rule rm.progress [OF inv assms(7-9)])
  have inv1: "closing_inv u (eventloop s) p c s1" using rm.history [OF inv assms(7)] assms(8) by simp
  have "destroyed p s2" by (rule ds.progress [OF conjI [OF inv1 off] assms(10-12)])
  moreover have "closing_inv u (eventloop s) p c s2" using rm.history [OF inv1 assms(10)] assms(11) by simp
  ultimately show ?thesis using closing_destroyed by blast
qed

theorem server_destroys_closed_witness:
  "\<exists>s c s1 s2. conns s 5 = Some c \<and> state (cbody c) = KDisconnected \<and> rfold (srv_exec silent_user) [SRun 1] s = Inr s1 \<and>
     rfold (srv_exec silent_user) [SRun 10] s1 = Inr s2 \<and> (\<exists>c'. conns s2 5 = Some c' \<and> cgone c')"
proof -
  let ?as = "[SAccept 5 9 0, SRun 10, SConn 5 (AEvent POLLHUP (ReadOk []) (Wrote 0))]"
  have "\<exists>s0 s c s1 s2. one_server = Inr s0 \<and> srv_all_ok silent_user ?as s0 \<and> rfold (srv_exec silent_user) ?as s0 = Inr s \<and>
      conns s 5 = Some c \<and> state (cbody c) = KDisconnected \<and> cloop c = 10 \<and> eventloop s = 1 \<and>
      queues s 1 = [SRemove 5] \<and> rfold (srv_exec silent_user) [SRun 1] s = Inr s1 \<and> queues s1 10 = [SDestroy 5] \<and>
      rfold (srv_exec silent_user) [SRun 10] s1 = Inr s2"
    by (simp add: server_run)
  then obtain s0 s c s1 s2 where run: "one_server = Inr s0" "srv_all_ok silent_user ?as s0"
      "rfold (srv_exec silent_user) ?as s0 = Inr s" "conns s 5 = Some c" "state (cbody c) = KDisconnected"
    and b: "cloop c = 10" "eventloop s = 1" "queues s 1 = [SRemove 5]" "rfold (srv_exec silent_user) [SRun 1] s = Inr s1"
      "queues s1 10 = [SDestroy 5]" "rfold (srv_exec silent_user) [SRun 10] s1 = Inr s2"
    by blast
  have u: "user_ok silent_user" by (simp add: user_ok_def silent_user_def)
  have "srv_all_ok silent_user [SRun 1] s" "srv_all_ok silent_user [SRun 10] s1"
    by (simp_all split: sum.splits list.splits)
  moreover have "length (queues s (eventloop s)) \<le> length (filter ((=) (SRun (eventloop s))) [SRun 1])"
    "length (queues s1 (cloop c)) \<le> length (filter ((=) (SRun (cloop c))) [SRun 10])" using b(1-3,5) by simp_all
  ultimately obtain c' where "conns s2 5 = Some c'" "cgone c'"
    using server_destroys_closed [OF u run(1) [unfolded one_server_def] run(2-5) _ b(4) _ _ b(6)] by blast
  then show ?thesis using run(4,5) b(4,6) by blast
qed

end
