(* ===== verification/Reactor.thy ===== *)
theory Reactor
  imports Server_Steps Conn_Poller Event_Loop
begin

text \<open>
  The server, its connections and the pollers of its loops together. Each loop has an \<open>EpollPoller\<close> and the
  channels it was given: those of its connections, and any others (the acceptor's, the wakeup's, the timers').
  A step of the server is followed, in the loop of the connection it is about, by the channel operations that
  step made. A turn of a loop polls, then calls the handler of each active channel, then runs functors; what
  other loops and threads do may come anywhere in between.
\<close>

section \<open>State and steps\<close>

record reactor =
  rsrv :: server
  rheap :: "nat \<Rightarrow> nat \<rightharpoonup> conn_cb channel"
  rpoll :: "nat \<Rightarrow> epoller"
  ractive :: "nat \<Rightarrow> nat list"

definition follow :: "nat \<Rightarrow> server \<Rightarrow> reactor \<Rightarrow> reactor result" where
  "follow p s' r =
     (case conns s' p of
        None \<Rightarrow> Inr (r\<lparr>rsrv := s'\<rparr>)
      | Some c \<Rightarrow>
          let l = cloop c;
              made = (case conns (rsrv r) p of None \<Rightarrow> [] | Some c0 \<Rightarrow> effects (cbody c0));
              h = (case conns (rsrv r) p of
                     None \<Rightarrow> (rheap r l)(p \<mapsto> channel (TcpConnection (conn_fd (cbody c)) 0)) | Some c0 \<Rightarrow> rheap r l)
          in rbind (epoll_run (conn_ops p (drop (length made) (effects (cbody c)))) (h, rpoll r l)) (\<lambda>(h', e').
               Inr (r\<lparr>rsrv := s', rheap := (rheap r)(l := h'), rpoll := (rpoll r)(l := e')\<rparr>)))"

definition react_srv :: "user_prog \<Rightarrow> srv_act \<Rightarrow> reactor \<Rightarrow> reactor result" where
  "react_srv u a r =
     rbind (srv_exec u a (rsrv r)) (\<lambda>s'.
       case touched a (rsrv r) of None \<Rightarrow> Inr (r\<lparr>rsrv := s'\<rparr>) | Some p \<Rightarrow> follow p s' r)"

text \<open>\<open>poller_->poll\<close> of loop \<open>l\<close>, where \<open>evs\<close> is what \<open>epoll_wait\<close> reports for the connections; the handler of
  the first channel that is still active; or a step of the server.\<close>

datatype react_act =
    RPoll nat "(events \<times> nat) list"
  | RHandle nat sysread syswrite
  | RStep srv_act

fun react_exec :: "user_prog \<Rightarrow> react_act \<Rightarrow> reactor \<Rightarrow> reactor result" where
  "react_exec u (RPoll l evs) r =
     rbind (epoll_poll evs (rheap r l) (rpoll r l)) (\<lambda>(active, h', e').
       Inr (r\<lparr>rheap := (rheap r)(l := h'), rpoll := (rpoll r)(l := e'), ractive := (ractive r)(l := active)\<rparr>))"
| "react_exec u (RHandle l rv w) r =
     (case ractive r l of
        [] \<Rightarrow> Inr r
      | p # ps \<Rightarrow> deref (rheap r l) p (\<lambda>c.
          react_srv u (SConn p (AEvent (rEvents c) rv w)) (r\<lparr>ractive := (ractive r)(l := ps)\<rparr>)))"
| "react_exec u (RStep a) r = react_srv u a r"

text \<open>The kernel reports each descriptor once, only what is watched at the time of the poll, with the
  pointer it was registered with; it accepts descriptors that are not open. Functors run when no handler of the turn is due;
  so must the timers of \<open>forceCloseWithDelay\<close> (\<open>delayed_close_race\<close>). Nothing else is assumed of a handler:
  that its connection is still up when it runs is proved.\<close>

definition accepts_new :: "nat \<Rightarrow> int \<Rightarrow> reactor \<Rightarrow> bool" where
  "accepts_new p fd r \<longleftrightarrow>
     (\<forall>l. rheap r l p = None) \<and> (\<forall>l. channels (rpoll r l) fd = None) \<and>
     (\<forall>q d. conns (rsrv r) q = Some d \<and> \<not> cgone d \<longrightarrow> conn_fd (cbody d) \<noteq> fd)"

fun react_ok :: "react_act \<Rightarrow> reactor \<Rightarrow> bool" where
  "react_ok (RPoll l evs) r \<longleftrightarrow>
     ractive r l = [] \<and> distinct (map snd evs) \<and>
     (\<forall>(ev, p) \<in> set evs. \<not> hup_and_read ev \<and> conns (rsrv r) p \<noteq> None \<and>
        (\<exists>fd ev'. epoll_watched (rpoll r l) fd = Some (ev', p)))"
| "react_ok (RHandle l rv w) r \<longleftrightarrow>
     (case ractive r l of [] \<Rightarrow> True
      | p # ps \<Rightarrow> (case conns (rsrv r) p of None \<Rightarrow> True | Some c \<Rightarrow> read_ok rv (cbody c)))"
| "react_ok (RStep a) r \<longleftrightarrow>
     srv_ok a (rsrv r) \<and>
     (case a of
        SAccept p fd junk \<Rightarrow> 0 \<le> fd \<longrightarrow> accepts_new p fd r
      | SRun l \<Rightarrow> ractive r l = []
      | SConn p b \<Rightarrow>
          (case b of
             AEvent ev rv w \<Rightarrow> False
           | AFunctor f mem w \<Rightarrow> (case conns (rsrv r) p of None \<Rightarrow> True | Some c \<Rightarrow> ractive r (cloop c) = [])
           | _ \<Rightarrow> True))"

section \<open>The invariant\<close>

definition live :: "reactor \<Rightarrow> nat \<Rightarrow> sconn \<Rightarrow> bool" where
  "live r p c \<longleftrightarrow> conns (rsrv r) p = Some c \<and> \<not> cgone c"

text \<open>A connection's channel is in its loop's heap only, with the events the connection asks for; the poller of the loop
  knows it from \<open>ConnectEstablished\<close> to \<open>ConnectDestoryed\<close>.\<close>

definition placed :: "reactor \<Rightarrow> nat \<Rightarrow> sconn \<Rightarrow> bool" where
  "placed r p c \<longleftrightarrow>
     (\<exists>ch. rheap r (cloop c) p = Some ch \<and> m_socketFd ch = conn_fd (cbody c) \<and>
        (\<not> cgone c \<longrightarrow> events ch = events (channel (cbody c)))) \<and>
     (\<forall>l. l \<noteq> cloop c \<longrightarrow> rheap r l p = None) \<and>
     (if cgone c then channels (rpoll r (cloop c)) (conn_fd (cbody c)) \<noteq> Some p
      else channels (rpoll r (cloop c)) (conn_fd (cbody c)) = (if state (cbody c) = KConnecting then None else Some p))"

definition active_ok :: "reactor \<Rightarrow> nat \<Rightarrow> bool" where
  "active_ok r l \<longleftrightarrow>
     distinct (ractive r l) \<and>
     (\<forall>p \<in> set (ractive r l). \<exists>c ch. live r p c \<and> cloop c = l \<and> up (state (cbody c)) \<and>
        rheap r l p = Some ch \<and> \<not> hup_and_read (rEvents ch))"

definition react_inv :: "(nat \<Rightarrow> int \<Rightarrow> (events \<times> nat) option) \<Rightarrow> reactor \<Rightarrow> bool" where
  "react_inv w0 r \<longleftrightarrow>
     srv_inv (rsrv r) \<and>
     (\<forall>l. epoll_ok (rheap r l) (rpoll r l) \<and> heap_ok (rheap r l)) \<and>
     (\<forall>p c. conns (rsrv r) p = Some c \<longrightarrow> placed r p c) \<and>
     (\<forall>p c q d. live r p c \<and> live r q d \<and> conn_fd (cbody c) = conn_fd (cbody d) \<longrightarrow> p = q) \<and>
     (\<forall>p c. live r p c \<longrightarrow> w0 (cloop c) (conn_fd (cbody c)) = None) \<and>
     (\<forall>l fd. (\<nexists>p c. live r p c \<and> cloop c = l \<and> conn_fd (cbody c) = fd) \<longrightarrow> epoll_watched (rpoll r l) fd = w0 l fd) \<and>
     (\<forall>l. active_ok r l)"

lemma react_invD:
  assumes "react_inv w0 r"
  shows "srv_inv (rsrv r)" "epoll_ok (rheap r l) (rpoll r l)" "heap_ok (rheap r l)"
    "conns (rsrv r) p = Some c \<Longrightarrow> placed r p c"
    "live r p c \<Longrightarrow> live r q d \<Longrightarrow> conn_fd (cbody c) = conn_fd (cbody d) \<Longrightarrow> p = q"
    "live r p c \<Longrightarrow> w0 (cloop c) (conn_fd (cbody c)) = None"
    "(\<And>p c. live r p c \<Longrightarrow> cloop c = l \<Longrightarrow> conn_fd (cbody c) \<noteq> fd) \<Longrightarrow> epoll_watched (rpoll r l) fd = w0 l fd"
    "active_ok r l"
  using assms unfolding react_inv_def by blast+

section \<open>The channel operations of one step\<close>

lemma forget_statusE:
  assumes "forget_status h' q = forget_status h q" "h q = Some d"
  obtains d' where "h' q = Some d'" "m_socketFd d' = m_socketFd d" "events d' = events d" "rEvents d' = rEvents d"
proof -
  obtain d' where d': "h' q = Some d'" "d'\<lparr>inPollerStatus := KInit\<rparr> = d\<lparr>inPollerStatus := KInit\<rparr>"
    using assms by (auto simp: forget_status_def)
  show ?thesis
    by (rule that [OF d'(1)])
      (use arg_cong [OF d'(2), of m_socketFd] arg_cong [OF d'(2), of events] arg_cong [OF d'(2), of rEvents] in simp_all)
qed

lemma watched_known:
  assumes "epoll_ok h e"
  shows "epoll_watched e fd =
    (case channels e fd of None \<Rightarrow> None | Some p \<Rightarrow> (case h p of None \<Rightarrow> None
     | Some c \<Rightarrow> if events c = 0 then None else Some (events c, p)))"
  using epoll.watched_ok [OF assms] by (simp add: wanted_def split: option.splits)

text \<open>The operations succeed; nothing but the connection's own channel and descriptor changes.\<close>

lemma attached:
  assumes "epoll_ok h e" "heap_ok h" "h p = Some ch" "m_socketFd ch = fd"
    and "channels e fd = (if known then Some p else None)" and "chan_run es (known, events ch) = Some (known', ev')"
  obtains h' e' where "epoll_run (conn_ops p es) (h, e) = Inr (h', e')" "epoll_ok h' e'" "heap_ok h'"
    "channels e' = (channels e)(fd := if known' then Some p else None)"
    "\<exists>ch'. h' p = Some ch' \<and> m_socketFd ch' = fd \<and> events ch' = ev' \<and> rEvents ch' = rEvents ch"
    "\<And>q. q \<noteq> p \<Longrightarrow> forget_status h' q = forget_status h q"
    "\<And>x. x \<noteq> fd \<Longrightarrow> epoll_watched e' x = epoll_watched e x"
proof -
  obtain h' e' where r: "epoll_run (conn_ops p es) (h, e) = Inr (h', e')" "epoll_ok h' e'" "heap_ok h'"
    "forget_status h' = (forget_status h)(p \<mapsto> ch\<lparr>events := ev', inPollerStatus := KInit\<rparr>)"
    "channels e' = (channels e)(fd := if known' then Some p else None)"
    using epoll.conn_ops_run [of "(h, e)" p ch es known known' ev'] assms by auto
  have "forget_status h' p = Some (ch\<lparr>events := ev', inPollerStatus := KInit\<rparr>)" using r(4) by simp
  then obtain ch' where ch': "h' p = Some ch'" "ch'\<lparr>inPollerStatus := KInit\<rparr> = ch\<lparr>events := ev', inPollerStatus := KInit\<rparr>"
    by (auto simp: forget_status_def)
  have other: "forget_status h' q = forget_status h q" if "q \<noteq> p" for q using r(4) that by simp
  have "epoll_watched e' x = epoll_watched e x" if x: "x \<noteq> fd" for x
  proof (cases "channels e x")
    case (Some q)
    obtain d where d: "h q = Some d" "m_socketFd d = x" using epoll_okE [OF assms(1)] Some by metis
    then have q: "q \<noteq> p" using x assms(3,4) by auto
    obtain d' where "h' q = Some d'" "events d' = events d" by (rule forget_statusE [OF other [OF q] d(1)])
    then show ?thesis using x d Some r(5) by (simp add: watched_known [OF r(2)] watched_known [OF assms(1)])
  qed (use x r(5) in \<open>simp add: watched_known [OF r(2)] watched_known [OF assms(1)]\<close>)
  moreover have "m_socketFd ch' = fd" "events ch' = ev'" "rEvents ch' = rEvents ch"
    using arg_cong [OF ch'(2), of m_socketFd] arg_cong [OF ch'(2), of events] arg_cong [OF ch'(2), of rEvents] assms(4)
    by simp_all
  ultimately show ?thesis using that [OF r(1-3,5)] ch'(1) other by blast
qed

text \<open>One connection changes, or is new, and the poller of its loop follows.\<close>

lemma react_inv_attach:
  fixes r :: reactor and s' :: server
  assumes inv: "react_inv w0 r" and s': "srv_inv s'" "conns s' = (conns (rsrv r))(p \<mapsto> c)"
    and h: "epoll_ok h (rpoll r (cloop c))" "heap_ok h" "h p = Some ch" "m_socketFd ch = conn_fd (cbody c)"
      "\<And>q. q \<noteq> p \<Longrightarrow> h q = rheap r (cloop c) q" and away: "\<And>l. l \<noteq> cloop c \<Longrightarrow> rheap r l p = None"
    and known: "channels (rpoll r (cloop c)) (conn_fd (cbody c)) = (if known then Some p else None)"
    and run: "chan_run es (known, events ch) = Some (\<not> cgone c \<and> state (cbody c) \<noteq> KConnecting, ev')"
    and ev': "\<not> cgone c \<Longrightarrow> ev' = events (channel (cbody c))"
    and own: "\<And>q d. q \<noteq> p \<Longrightarrow> live r q d \<Longrightarrow> conn_fd (cbody d) \<noteq> conn_fd (cbody c)"
    and w0: "w0 (cloop c) (conn_fd (cbody c)) = None"
    and was: "\<And>d. conns (rsrv r) p = Some d \<Longrightarrow> cloop d = cloop c \<and> conn_fd (cbody d) = conn_fd (cbody c)"
    and act: "\<And>l. p \<in> set (ractive r l) \<Longrightarrow> up (state (cbody c)) \<and> \<not> cgone c \<and> rheap r (cloop c) p = Some ch"
  shows "\<exists>r'. rbind (epoll_run (conn_ops p es) (h, rpoll r (cloop c))) (\<lambda>(h', e').
        Inr (r\<lparr>rsrv := s', rheap := (rheap r)(cloop c := h'), rpoll := (rpoll r)(cloop c := e')\<rparr>)) = Inr r' \<and>
      react_inv w0 r' \<and> ractive r' = ractive r \<and> rsrv r' = s'"
proof -
  let ?l = "cloop c" and ?fd = "conn_fd (cbody c)"
  obtain h' e' where x: "epoll_run (conn_ops p es) (h, rpoll r ?l) = Inr (h', e')" "epoll_ok h' e'" "heap_ok h'"
      "channels e' = (channels (rpoll r ?l))(?fd := if \<not> cgone c \<and> state (cbody c) \<noteq> KConnecting then Some p else None)"
      "\<exists>ch'. h' p = Some ch' \<and> m_socketFd ch' = ?fd \<and> events ch' = ev' \<and> rEvents ch' = rEvents ch"
      "\<And>q. q \<noteq> p \<Longrightarrow> forget_status h' q = forget_status h q"
      "\<And>x. x \<noteq> ?fd \<Longrightarrow> epoll_watched e' x = epoll_watched (rpoll r ?l) x"
    by (rule attached [OF h(1-4) known run]) (rule that)
  define r' where "r' = r\<lparr>rsrv := s', rheap := (rheap r)(?l := h'), rpoll := (rpoll r)(?l := e')\<rparr>"
  have r': "rsrv r' = s'" "rheap r' = (rheap r)(?l := h')" "rpoll r' = (rpoll r)(?l := e')" "ractive r' = ractive r"
    by (simp_all add: r'_def)
  have live': "live r' q d \<longleftrightarrow> (if q = p then d = c \<and> \<not> cgone c else live r q d)" for q d
    using s'(2) by (auto simp: live_def r')
  have none: "h' q = None \<longleftrightarrow> rheap r ?l q = None" if "q \<noteq> p" for q
    using x(6) [OF that] h(5) [OF that] by (auto simp: forget_status_def)
  have kept: "\<exists>d'. h' q = Some d' \<and> m_socketFd d' = m_socketFd d \<and> events d' = events d \<and> rEvents d' = rEvents d"
    if "q \<noteq> p" "rheap r ?l q = Some d" for q d
    using forget_statusE [OF x(6) [OF that(1)]] h(5) [OF that(1)] that(2) by metis
  have "placed r' q d" if d: "conns (rsrv r') q = Some d" for q d
  proof (cases "q = p")
    case True
    then have "d = c" using d s'(2) by (simp add: r')
    then show ?thesis using True x(4,5) ev' away by (auto simp: placed_def r')
  next
    case False
    then have old: "conns (rsrv r) q = Some d" using d s'(2) by (simp add: r')
    note pl = react_invD(4) [OF inv old]
    have fd_other: "\<not> cgone d \<Longrightarrow> conn_fd (cbody d) \<noteq> ?fd" using own [OF False] old by (auto simp: live_def)
    show ?thesis
    proof (cases "cloop d = ?l")
      case True
      obtain ch0 where "rheap r ?l q = Some ch0" "m_socketFd ch0 = conn_fd (cbody d)"
          "\<not> cgone d \<longrightarrow> events ch0 = events (channel (cbody d))" using pl True by (auto simp: placed_def)
      from kept [OF False this(1)] this(2,3)
      have "\<exists>ch. h' q = Some ch \<and> m_socketFd ch = conn_fd (cbody d) \<and> (\<not> cgone d \<longrightarrow> events ch = events (channel (cbody d)))"
        by auto
      then show ?thesis using pl True fd_other False by (auto simp: placed_def r' x(4))
    next
      case False
      then show ?thesis using pl none [OF \<open>q \<noteq> p\<close>] by (auto simp: placed_def r')
    qed
  qed
  moreover have "q1 = q2" if "live r' q1 d1" "live r' q2 d2" "conn_fd (cbody d1) = conn_fd (cbody d2)" for q1 d1 q2 d2
    using that own [of q1 d1] own [of q2 d2] react_invD(5) [OF inv, of q1 d1 q2 d2] by (auto simp: live' split: if_splits)
  moreover have "w0 (cloop d) (conn_fd (cbody d)) = None" if "live r' q d" for q d
    using that w0 react_invD(6) [OF inv] by (auto simp: live' split: if_splits)
  moreover have "epoll_watched (rpoll r' k) y = w0 k y"
    if dead: "\<nexists>q d. live r' q d \<and> cloop d = k \<and> conn_fd (cbody d) = y" for k y
  proof (cases "k = ?l \<and> y = ?fd")
    case True
    then have "cgone c" using dead live' [of p c] by auto
    then show ?thesis using True w0 x(4) by (simp add: r' watched_known [OF x(2)])
  next
    case False
    have "epoll_watched (rpoll r k) y = w0 k y"
    proof (rule react_invD(7) [OF inv])
      fix q d assume that_live: "live r q d" "cloop d = k"
      show "conn_fd (cbody d) \<noteq> y"
      proof (cases "q = p")
        case True
        then show ?thesis using that_live was False by (auto simp: live_def)
      next
        case other: False
        then have "live r' q d" using that_live(1) live' [of q d] by simp
        then show ?thesis using dead that_live(2) by blast
      qed
    qed
    then show ?thesis using False x(7) by (auto simp: r')
  qed
  moreover have "active_ok r' k" for k
  proof -
    note a = react_invD(8) [OF inv, of k]
    have "\<exists>d ch. live r' q d \<and> cloop d = k \<and> up (state (cbody d)) \<and> rheap r' k q = Some ch \<and> \<not> hup_and_read (rEvents ch)"
      if q: "q \<in> set (ractive r k)" for q
    proof -
      obtain d ch0 where d: "live r q d" "cloop d = k" "up (state (cbody d))" "rheap r k q = Some ch0"
        "\<not> hup_and_read (rEvents ch0)" using a q unfolding active_ok_def by blast
      show ?thesis
      proof (cases "q = p")
        case True
        then have "up (state (cbody c)) \<and> \<not> cgone c \<and> rheap r ?l p = Some ch" using act q by blast
        moreover have "cloop c = k" using was d True by (auto simp: live_def)
        ultimately show ?thesis using x(5) d True by (auto simp: live' r')
      next
        case False
        then have "live r' q d" using d(1) by (simp add: live')
        moreover have "\<exists>ch. rheap r' k q = Some ch \<and> rEvents ch = rEvents ch0"
          using kept [OF False, of ch0] d(4) by (auto simp: r')
        ultimately show ?thesis using d by fastforce
      qed
    qed
    then show ?thesis using a by (simp add: active_ok_def r')
  qed
  moreover have "epoll_ok (rheap r' k) (rpoll r' k) \<and> heap_ok (rheap r' k)" for k
    using react_invD(2,3) [OF inv] x(2,3) by (simp add: r')
  ultimately have "react_inv w0 r'" using s'(1) unfolding react_inv_def by (simp add: r'(1)) blast
  then show ?thesis using x(1) r'(1,4) by (simp add: r'_def)
qed

section \<open>A step of the server, followed by the poller\<close>

lemma react_inv_same:
  assumes "react_inv w0 r" "srv_inv s'" "conns s' = conns (rsrv r)"
  shows "react_inv w0 (r\<lparr>rsrv := s'\<rparr>)"
proof -
  have "live (r\<lparr>rsrv := s'\<rparr>) = live r" "placed (r\<lparr>rsrv := s'\<rparr>) = placed r"
    using assms(3) by (simp_all add: live_def placed_def fun_eq_iff)
  moreover from this have "active_ok (r\<lparr>rsrv := s'\<rparr>) = active_ok r" by (simp add: active_ok_def fun_eq_iff)
  ultimately show ?thesis using assms by (simp add: react_inv_def)
qed

lemma follow_same:
  assumes "conns s' = conns (rsrv r)"
  shows "follow p s' r = Inr (r\<lparr>rsrv := s'\<rparr>)"
  using assms by (auto simp: follow_def Let_def split: option.splits)

text \<open>What the effects say of the channel, from the invariant of the connection.\<close>

lemma conn_chan:
  assumes "srv_inv s" "conns s p = Some c" "\<not> cgone c"
  shows "chan_run (effects (cbody c)) (False, 0) = Some (state (cbody c) \<noteq> KConnecting, events (channel (cbody c)))"
    "state (cbody c) = KDisconnected \<Longrightarrow> events (channel (cbody c)) = 0"
    "state (cbody c) = KConnecting \<Longrightarrow> events (channel (cbody c)) = 0"
  using srv_invD(3) [OF assms(1,2)] assms(3) by (auto simp: conn_stage_def conn_ok_def conn_inv_def out_ok_def)

lemma next_chan:
  assumes "srv_inv s" "conns s p = Some c" "\<not> cgone c" and "srv_inv s'" "conns s' p = Some c'" "conn_next c c'"
  shows "\<exists>ev. chan_run (drop (length (effects (cbody c))) (effects (cbody c')))
        (state (cbody c) \<noteq> KConnecting, events (channel (cbody c))) =
      Some (\<not> cgone c' \<and> state (cbody c') \<noteq> KConnecting, ev) \<and> (\<not> cgone c' \<longrightarrow> ev = events (channel (cbody c')))"
proof -
  obtain es where es: "effects (cbody c') = effects (cbody c) @ es"
    using assms(6) by (auto simp: conn_next_def prefix_def)
  show ?thesis
  proof (cases "cgone c'")
    case True
    then have "es = [ERemove]" "state (cbody c) = KDisconnected"
      using es assms(3,6) by (auto simp: conn_next_def emit_def)
    then show ?thesis using es True conn_chan(2) [OF assms(1-3)] by auto
  next
    case False
    then show ?thesis
      using conn_chan(1) [OF assms(1-3)] conn_chan(1) [OF assms(4,5) False] es by (simp add: chan_run_append)
  qed
qed

lemma fresh_chan:
  "channel (TcpConnection fd hw) = \<lparr>m_socketFd = fd, rEvents = 0, events = 0, inPollerStatus = KInit,
    readCallback = Some HandleRead, writeCallback = Some HandleWirte, closeCallback = Some HandleClose, eventHandling = False\<rparr>"
  by (simp add: TcpConnection_def SetReadCallback_def SetWirteCallback_def SetCloseCallback_def Channel_def KNoneEvent_def)

text \<open>Adding a fresh channel leaves the loop's poller as it is.\<close>

lemma epoll_ok_fresh:
  assumes "epoll_ok h e" "h p = None" "inPollerStatus ch = KInit"
  shows "epoll_ok (h(p \<mapsto> ch)) e"
proof -
  obtain k where k: "ctl_replay (ctl e) = Some k" "\<And>fd. channels e fd = None \<Longrightarrow> k fd = None"
    "\<And>fd p. channels e fd = Some p \<Longrightarrow> \<exists>c. h p = Some c \<and> m_socketFd c = fd \<and> channel_registered c p (k fd)"
    "\<And>p c. h p = Some c \<Longrightarrow> channels e (m_socketFd c) \<noteq> Some p \<Longrightarrow> inPollerStatus c = KInit"
    using assms(1) by (rule epoll_okE) blast
  show ?thesis
  proof (rule epoll_okI [OF k(1,2)])
    fix fd q assume "channels e fd = Some q"
    then obtain c where "h q = Some c" "m_socketFd c = fd" "channel_registered c q (k fd)" using k(3) by blast
    then show "\<exists>c. (h(p \<mapsto> ch)) q = Some c \<and> m_socketFd c = fd \<and> channel_registered c q (k fd)"
      using assms(2) by (intro exI [of _ c]) auto
  next
    fix q c assume "(h(p \<mapsto> ch)) q = Some c" "channels e (m_socketFd c) \<noteq> Some q"
    then show "inPollerStatus c = KInit" using k(4) assms(3) by (auto split: if_splits)
  qed simp
qed

text \<open>No step for an active connection may end it, unless it is its own event.\<close>

definition undisturbed :: "srv_act \<Rightarrow> reactor \<Rightarrow> bool" where
  "undisturbed a r \<longleftrightarrow> (\<forall>l. \<forall>p \<in> set (ractive r l). \<forall>c. conns (rsrv r) p = Some c \<longrightarrow> \<not> may_end a p c)"

lemma react_srv_step:
  assumes inv: "react_inv w0 r" and u: "user_ok u" and ok: "srv_ok a (rsrv r)"
    and acc: "\<And>p fd junk. a = SAccept p fd junk \<Longrightarrow> 0 \<le> fd \<Longrightarrow> accepts_new p fd r" and calm: "undisturbed a r"
  shows "case react_srv u a r of Inl e \<Rightarrow> e = LengthError | Inr r' \<Rightarrow> react_inv w0 r' \<and> srv_exec u a (rsrv r) = Inr (rsrv r')"
proof (cases "srv_exec u a (rsrv r)")
  case (Inl e)
  then show ?thesis using srv_step [OF react_invD(1) [OF inv] u ok] by (simp add: react_srv_def)
next
  case (Inr s')
  note s = react_invD(1) [OF inv]
  have s': "srv_inv s'" using srv_step [OF s u ok] Inr by simp
  have f: "srv_frame a (rsrv r) s'" by (rule srv_frame_step [OF s u ok Inr])
  have same: ?thesis if eq: "conns s' = conns (rsrv r)"
  proof -
    have "react_srv u a r = Inr (r\<lparr>rsrv := s'\<rparr>)"
      using Inr follow_same [OF eq] by (simp add: react_srv_def split: option.splits)
    then show ?thesis using Inr react_inv_same [OF inv s' eq] by simp
  qed
  have attach: ?thesis
    if "touched a (rsrv r) = Some p" "\<exists>r'. follow p s' r = Inr r' \<and> react_inv w0 r' \<and> ractive r' = ractive r \<and> rsrv r' = s'"
    for p using that Inr by (auto simp: react_srv_def)
  consider "conns s' = conns (rsrv r)"
    | (changed) p c c' where "touched a (rsrv r) = Some p" "conns (rsrv r) p = Some c" "conns s' = (conns (rsrv r))(p \<mapsto> c')"
      "conn_next c c'" "up (state (cbody c)) \<and> \<not> cgone c \<and> \<not> may_end a p c \<longrightarrow> up (state (cbody c')) \<and> \<not> cgone c'" "\<not> cgone c"
    | (created) p fd junk c' where "a = SAccept p fd junk" "0 \<le> fd" "conns (rsrv r) p = None"
      "conns s' = (conns (rsrv r))(p \<mapsto> c')" "conn_fd (cbody c') = fd" "\<not> cgone c'"
  proof -
    have "conns s' = conns (rsrv r)" if "conns (rsrv r) p = Some c" "conns s' = (conns (rsrv r))(p \<mapsto> c')" "conn_next c c'"
      "cgone c" for p c c'
      using that by (simp add: conn_next_def fun_upd_idem)
    then show ?thesis using f that unfolding srv_frame_def by blast
  qed
  then show ?thesis
  proof cases
    case changed
    have lv: "live r p c" using changed(2,6) by (simp add: live_def)
    note pl = react_invD(4) [OF inv changed(2)]
    obtain ch where ch: "rheap r (cloop c) p = Some ch" "m_socketFd ch = conn_fd (cbody c)"
      "events ch = events (channel (cbody c))" using pl changed(6) by (auto simp: placed_def)
    have eq: "cloop c' = cloop c" "conn_fd (cbody c') = conn_fd (cbody c)" using changed(4) by (simp_all add: conn_next_def)
    have c': "conns s' p = Some c'" using changed(3) by simp
    obtain ev where ev: "chan_run (drop (length (effects (cbody c))) (effects (cbody c')))
        (state (cbody c) \<noteq> KConnecting, events ch) = Some (\<not> cgone c' \<and> state (cbody c') \<noteq> KConnecting, ev)"
      "\<not> cgone c' \<longrightarrow> ev = events (channel (cbody c'))"
      using next_chan [OF s changed(2,6) s' c' changed(4)] ch(3) by auto
    have "\<exists>r'. rbind (epoll_run (conn_ops p (drop (length (effects (cbody c))) (effects (cbody c')))) (rheap r (cloop c'), rpoll r (cloop c')))
        (\<lambda>(h', e'). Inr (r\<lparr>rsrv := s', rheap := (rheap r)(cloop c' := h'), rpoll := (rpoll r)(cloop c' := e')\<rparr>)) = Inr r' \<and>
      react_inv w0 r' \<and> ractive r' = ractive r \<and> rsrv r' = s'"
    proof (rule react_inv_attach [OF inv s' changed(3), where ch = ch and known = "state (cbody c) \<noteq> KConnecting" and ev' = ev])
      show "up (state (cbody c')) \<and> \<not> cgone c' \<and> rheap r (cloop c') p = Some ch" if "p \<in> set (ractive r l)" for l
      proof -
        have "up (state (cbody c))" using react_invD(8) [OF inv, of l] that lv by (auto simp: active_ok_def live_def)
        moreover have "\<not> may_end a p c" using calm that changed(2) by (auto simp: undisturbed_def)
        ultimately show ?thesis using changed(5,6) ch(1) eq by simp
      qed
      show "conn_fd (cbody d) \<noteq> conn_fd (cbody c')" if "q \<noteq> p" "live r q d" for q d
        using react_invD(5) [OF inv that(2) lv] that(1) eq(2) by auto
    qed (use ch ev eq pl changed(2,6) react_invD(2,3,6) [OF inv] lv in \<open>auto simp: placed_def\<close>)
    then show ?thesis
      by (intro attach [OF changed(1)]) (simp add: follow_def Let_def c' changed(2))
  next
    case created
    have new: "accepts_new p fd r" by (rule acc [OF created(1,2)])
    let ?ch = "channel (TcpConnection fd 0)"
    have c': "conns s' p = Some c'" using created(4) by simp
    have idle: "p \<notin> set (ractive r l)" for l
      using react_invD(8) [OF inv, of l] created(3) by (auto simp: active_ok_def live_def)
    have "w0 (cloop c') fd = epoll_watched (rpoll r (cloop c')) fd"
      by (rule react_invD(7) [OF inv, symmetric]) (use new in \<open>auto simp: accepts_new_def live_def\<close>)
    also have "\<dots> = None" using new by (simp add: watched_known [OF react_invD(2) [OF inv]] accepts_new_def)
    finally have w: "w0 (cloop c') (conn_fd (cbody c')) = None" using created(5) by simp
    have hp: "heap_ok ((rheap r (cloop c'))(p \<mapsto> ?ch))"
      using react_invD(3) [OF inv] created(2) by (auto simp: heap_ok_def fresh_chan)
    have "\<exists>r'. rbind (epoll_run (conn_ops p (effects (cbody c'))) ((rheap r (cloop c'))(p \<mapsto> ?ch), rpoll r (cloop c')))
        (\<lambda>(h', e'). Inr (r\<lparr>rsrv := s', rheap := (rheap r)(cloop c' := h'), rpoll := (rpoll r)(cloop c' := e')\<rparr>)) = Inr r' \<and>
      react_inv w0 r' \<and> ractive r' = ractive r \<and> rsrv r' = s'"
    proof (rule react_inv_attach [OF inv s' created(4), where ch = ?ch and known = False and ev' = "events (channel (cbody c'))"])
      show "epoll_ok ((rheap r (cloop c'))(p \<mapsto> ?ch)) (rpoll r (cloop c'))"
        using react_invD(2) [OF inv] new by (intro epoll_ok_fresh) (auto simp: accepts_new_def fresh_chan)
      show "chan_run (effects (cbody c')) (False, events ?ch) =
          Some (\<not> cgone c' \<and> state (cbody c') \<noteq> KConnecting, events (channel (cbody c')))"
        using conn_chan(1) [OF s' c' created(6)] created(6) by (simp add: fresh_chan)
    qed (use created new w hp idle in \<open>auto simp: fresh_chan accepts_new_def live_def\<close>)
    then show ?thesis
      by (intro attach [of p]) (simp_all add: follow_def Let_def c' created)
  qed (rule same)
qed

section \<open>A turn of a loop\<close>

lemma registered_channel:
  assumes "epoll_ok h e" "epoll_watched e fd = Some (ev, p)"
  shows "channels e fd = Some p \<and> (\<exists>ch. h p = Some ch \<and> m_socketFd ch = fd \<and> events ch = ev)"
proof -
  obtain q where q: "channels e fd = Some q"
    using assms(2) by (cases "channels e fd") (simp_all add: watched_known [OF assms(1)])
  obtain ch where "h q = Some ch" "m_socketFd ch = fd" using epoll_okE [OF assms(1)] q by metis
  then show ?thesis using q assms(2) by (auto simp: watched_known [OF assms(1)] split: if_splits)
qed

text \<open>What is watched for a connection is watched while it is up.\<close>

lemma watched_up:
  assumes inv: "react_inv w0 r" and w: "epoll_watched (rpoll r l) fd = Some (ev, p)" and p: "conns (rsrv r) p = Some c"
  shows "live r p c \<and> cloop c = l \<and> up (state (cbody c)) \<and> conn_fd (cbody c) = fd"
proof -
  note pl = react_invD(4) [OF inv p]
  obtain ch where ch: "channels (rpoll r l) fd = Some p" "rheap r l p = Some ch" "m_socketFd ch = fd" "events ch = ev"
    using registered_channel [OF react_invD(2) [OF inv] w] by blast
  have "ev \<noteq> 0" using w ch by (auto simp: watched_known [OF react_invD(2) [OF inv]] split: if_splits)
  have l: "cloop c = l" using pl ch(2) unfolding placed_def by (metis option.distinct(1))
  then have fd: "conn_fd (cbody c) = fd" using pl ch(2,3) by (auto simp: placed_def)
  then have gone: "\<not> cgone c" using pl ch(1) l by (auto simp: placed_def)
  have "state (cbody c) \<noteq> KConnecting" using pl l fd gone ch(1) by (auto simp: placed_def split: if_splits)
  moreover have "events (channel (cbody c)) = ev" using pl l fd gone ch by (auto simp: placed_def)
  then have "state (cbody c) \<noteq> KDisconnected"
    using conn_chan(2) [OF react_invD(1) [OF inv] p gone] \<open>ev \<noteq> 0\<close> by auto
  ultimately show ?thesis using l fd gone p by (cases "state (cbody c)") (auto simp: live_def)
qed

lemma fill_events:
  assumes "epoll_fillActiveChannels evs h = Inr (ps, h')" "distinct (map snd evs)"
  shows "(ev, p) \<in> set evs \<Longrightarrow> \<exists>c. h' p = Some c \<and> rEvents c = ev"
    and "p \<notin> snd ` set evs \<Longrightarrow> h' p = h p"
proof -
  have "(\<forall>(ev, p) \<in> set evs. \<exists>c. h' p = Some c \<and> rEvents c = ev) \<and> (\<forall>p. p \<notin> snd ` set evs \<longrightarrow> h' p = h p)"
    using assms
  proof (induction evs arbitrary: h ps)
    case (Cons x evs)
    obtain ev p where x: "x = (ev, p)" by fastforce
    then obtain c qs where c: "h p = Some c" "epoll_fillActiveChannels evs (h(p \<mapsto> SetReceiveEvent ev c)) = Inr (qs, h')"
      using Cons.prems(1) by (auto simp: result_iffs)
    have "p \<notin> snd ` set evs" using Cons.prems(2) x by auto
    then show ?case using Cons.IH [OF c(2)] Cons.prems(2) x by (auto simp: SetReceiveEvent_def)
  qed simp
  then show "(ev, p) \<in> set evs \<Longrightarrow> \<exists>c. h' p = Some c \<and> rEvents c = ev"
    and "p \<notin> snd ` set evs \<Longrightarrow> h' p = h p" by auto
qed

lemma heap_ok_registration: "registration h' = registration h \<Longrightarrow> heap_ok h \<Longrightarrow> heap_ok h'"
  unfolding heap_ok_def by (metis registration_Some)

lemma epoll_ok_size: "epoll_ok h (e\<lparr>evlist_size := n\<rparr>) = epoll_ok h e"
  by (simp add: epoll_ok_def)

lemma poll_step:
  assumes inv: "react_inv w0 r" and ok: "react_ok (RPoll l evs) r"
  shows "\<exists>r'. react_exec u (RPoll l evs) r = Inr r' \<and> react_inv w0 r'"
proof -
  have ev: "\<exists>c. live r p c \<and> cloop c = l \<and> up (state (cbody c)) \<and> \<not> hup_and_read e" if "(e, p) \<in> set evs" for e p
    using ok that watched_up [OF inv, of l _ _ p] by fastforce
  have alive: "\<forall>p \<in> snd ` set evs. rheap r l p \<noteq> None"
    using ev react_invD(4) [OF inv] by (fastforce simp: placed_def live_def)
  then obtain h' where h': "epoll_fillActiveChannels evs (rheap r l) = Inr (map snd evs, h')"
      "registration h' = registration (rheap r l)" using epoll_fill [OF alive] by blast
  have dist: "distinct (map snd evs)" using ok by simp
  obtain e' where e': "epoll_poll evs (rheap r l) (rpoll r l) = Inr (map snd evs, h', e')" "channels e' = channels (rpoll r l)"
      "ctl e' = ctl (rpoll r l)"
  proof (cases "evs = []")
    case True
    then show ?thesis using that h'(1) by (auto simp: epoll_poll_def)
  next
    case False
    then show ?thesis using that h'(1) by (auto simp: epoll_poll_def)
  qed
  define r' where "r' = r\<lparr>rheap := (rheap r)(l := h'), rpoll := (rpoll r)(l := e'), ractive := (ractive r)(l := map snd evs)\<rparr>"
  have r': "rsrv r' = rsrv r" "rheap r' = (rheap r)(l := h')" "rpoll r' = (rpoll r)(l := e')"
    "ractive r' = (ractive r)(l := map snd evs)" by (simp_all add: r'_def)
  have live': "live r' = live r" by (simp add: live_def r' fun_eq_iff)
  have eok: "epoll_ok h' e'" if "epoll_ok (rheap r l) (rpoll r l)"
    using epoll_ok_registration [OF that h'(2)] e'(2,3) by (simp add: epoll_ok_def)
  have none: "h' p = None \<longleftrightarrow> rheap r l p = None" for p
    using arg_cong [OF h'(2), of "\<lambda>g. g p = None"] by (simp add: registration_def)
  have "placed r' p c" if c: "conns (rsrv r) p = Some c" for p c
  proof (cases "cloop c = l")
    case True
    obtain ch where ch: "rheap r l p = Some ch" "m_socketFd ch = conn_fd (cbody c)"
      "\<not> cgone c \<longrightarrow> events ch = events (channel (cbody c))" using react_invD(4) [OF inv c] True by (auto simp: placed_def)
    obtain ch' where "h' p = Some ch'" "m_socketFd ch' = m_socketFd ch" "events ch' = events ch"
      by (rule registration_Some [OF h'(2) ch(1)])
    then show ?thesis using react_invD(4) [OF inv c] True ch by (auto simp: placed_def r' e'(2))
  next
    case False
    then show ?thesis using react_invD(4) [OF inv c] none [of p] by (auto simp: placed_def r')
  qed
  moreover
  have "active_ok r' k" for k
  proof (cases "k = l")
    case True
    have "\<exists>c ch. live r p c \<and> cloop c = l \<and> up (state (cbody c)) \<and> h' p = Some ch \<and> \<not> hup_and_read (rEvents ch)"
      if p: "p \<in> snd ` set evs" for p
    proof -
      obtain e where e: "(e, p) \<in> set evs" using p by auto
      obtain ch where "h' p = Some ch" "rEvents ch = e" using fill_events(1) [OF h'(1) dist e] by blast
      then show ?thesis using ev [OF e] by blast
    qed
    then show ?thesis using True dist by (simp add: active_ok_def r' live')
  qed (use react_invD(8) [OF inv, of k] in \<open>simp add: active_ok_def r' live'\<close>)
  then have "\<forall>k. active_ok r' k" by blast
  moreover have "epoll_watched (rpoll r' k) = epoll_watched (rpoll r k)" for k
    using e' by (auto simp: r' epoll_watched_def fun_eq_iff)
  ultimately have "react_inv w0 r'"
    using inv eok heap_ok_registration [OF h'(2)] unfolding react_inv_def by (simp add: r' live')
  then show ?thesis using e'(1) by (simp add: r'_def)
qed

text \<open>For the server, a step of the reactor is a legal step, or none.\<close>

definition srv_moves :: "user_prog \<Rightarrow> server \<Rightarrow> server \<Rightarrow> bool" where
  "srv_moves u s s' \<longleftrightarrow> s' = s \<or> (\<exists>a. srv_ok a s \<and> srv_exec u a s = Inr s')"

lemma srv_movesI: "srv_ok a s \<Longrightarrow> srv_exec u a s = Inr s' \<Longrightarrow> srv_moves u s s'"
  unfolding srv_moves_def by blast

lemma handle_step:
  assumes inv: "react_inv w0 r" and u: "user_ok u" and ok: "react_ok (RHandle l rv w) r"
  shows "case react_exec u (RHandle l rv w) r of
    Inl e \<Rightarrow> e = LengthError | Inr r' \<Rightarrow> react_inv w0 r' \<and> srv_moves u (rsrv r) (rsrv r')"
proof (cases "ractive r l")
  case (Cons p ps)
  obtain c ch where c: "live r p c" "cloop c = l" "up (state (cbody c))" "rheap r l p = Some ch" "\<not> hup_and_read (rEvents ch)"
    using react_invD(8) [OF inv, of l] Cons unfolding active_ok_def by (metis list.set_intros(1))
  define r0 where "r0 = r\<lparr>ractive := (ractive r)(l := ps)\<rparr>"
  have r0: "rsrv r0 = rsrv r" "rheap r0 = rheap r" "rpoll r0 = rpoll r" "ractive r0 = (ractive r)(l := ps)"
    by (simp_all add: r0_def)
  have live0: "live r0 = live r" and placed0: "placed r0 = placed r" by (simp_all add: live_def placed_def r0 fun_eq_iff)
  have act0: "active_ok r0 k" for k
    using react_invD(8) [OF inv, of k] Cons by (auto simp: active_ok_def r0 live0)
  have inv0: "react_inv w0 r0" using inv act0 by (simp add: react_inv_def r0 live0 placed0)
  let ?a = "AEvent (rEvents ch) rv w"
  have once: "p \<notin> set (ractive r0 k)" for k
  proof (cases "k = l")
    case True
    then show ?thesis using react_invD(8) [OF inv, of l] Cons by (simp add: active_ok_def r0)
  next
    case False
    then show ?thesis using react_invD(8) [OF inv, of k] c(1,2) by (auto simp: active_ok_def r0 live_def)
  qed
  have "undisturbed (SConn p ?a) r0"
    using once by (auto simp: undisturbed_def)
  moreover have legal: "srv_ok (SConn p ?a) (rsrv r0)"
    using c ok Cons by (auto simp: r0 live_def)
  ultimately have "case react_srv u (SConn p ?a) r0 of Inl e \<Rightarrow> e = LengthError
      | Inr r' \<Rightarrow> react_inv w0 r' \<and> srv_exec u (SConn p ?a) (rsrv r0) = Inr (rsrv r')"
    by (intro react_srv_step [OF inv0 u]) simp_all
  moreover have "react_exec u (RHandle l rv w) r = react_srv u (SConn p ?a) r0" using Cons c(4) by (simp add: r0_def)
  moreover have "srv_moves u (rsrv r) s'" if "srv_exec u (SConn p ?a) (rsrv r0) = Inr s'" for s'
    using srv_movesI [OF legal that] by (simp add: r0(1))
  ultimately show ?thesis by (cases "react_srv u (SConn p ?a) r0") simp_all
qed (use inv in \<open>simp add: srv_moves_def\<close>)

lemma step_undisturbed:
  assumes inv: "react_inv w0 r" and ok: "react_ok (RStep a) r"
  shows "undisturbed a r"
  unfolding undisturbed_def
proof (intro allI ballI impI)
  fix l p c
  assume p: "p \<in> set (ractive r l)" and c: "conns (rsrv r) p = Some c"
  have l: "cloop c = l" using react_invD(8) [OF inv, of l] p c by (auto simp: active_ok_def live_def)
  show "\<not> may_end a p c"
  proof (cases a)
    case (SConn q b)
    then show ?thesis using ok p c l by (cases b) auto
  qed (use ok p l in auto)
qed

lemma react_step:
  assumes inv: "react_inv w0 r" and u: "user_ok u" and ok: "react_ok x r"
  shows "case react_exec u x r of Inl e \<Rightarrow> e = LengthError | Inr r' \<Rightarrow> react_inv w0 r' \<and> srv_moves u (rsrv r) (rsrv r')"
proof (cases x)
  case (RPoll l evs)
  obtain r' where r': "react_exec u x r = Inr r'" "react_inv w0 r'" using poll_step [OF inv, of l evs u] ok RPoll by auto
  then have "rsrv r' = rsrv r" using RPoll by (auto simp: rbind_Inr_iff)
  then show ?thesis using r' by (simp add: srv_moves_def)
next
  case (RHandle l rv w)
  then show ?thesis using handle_step [OF inv u] ok by blast
next
  case (RStep a)
  have "case react_srv u a r of Inl e \<Rightarrow> e = LengthError | Inr r' \<Rightarrow> react_inv w0 r' \<and> srv_exec u a (rsrv r) = Inr (rsrv r')"
    by (rule react_srv_step [OF inv u]) (use ok RStep step_undisturbed [OF inv, of a] in auto)
  moreover have "srv_ok a (rsrv r)" using ok RStep by simp
  ultimately show ?thesis using RStep by (auto simp: srv_moves_def split: sum.splits)
qed

lemma legal_run_append:
  "legal_run exec legal (xs @ ys) s \<longleftrightarrow>
    legal_run exec legal xs s \<and> (case rfold exec xs s of Inl _ \<Rightarrow> True | Inr s' \<Rightarrow> legal_run exec legal ys s')"
proof (induction xs arbitrary: s)
  case (Cons x xs)
  then show ?case by (cases "exec x s") auto
qed simp

definition srv_reached :: "user_prog \<Rightarrow> server \<Rightarrow> server \<Rightarrow> bool" where
  "srv_reached u s0 s \<longleftrightarrow> (\<exists>as. srv_all_ok u as s0 \<and> rfold (srv_exec u) as s0 = Inr s)"

lemma srv_reached_move:
  assumes "srv_reached u s0 s" "srv_moves u s s'"
  shows "srv_reached u s0 s'"
proof -
  obtain as where as: "srv_all_ok u as s0" "rfold (srv_exec u) as s0 = Inr s" using assms(1) by (auto simp: srv_reached_def)
  have "srv_all_ok u (as @ [a]) s0 \<and> rfold (srv_exec u) (as @ [a]) s0 = Inr s'"
    if "srv_ok a s" "srv_exec u a s = Inr s'" for a
    using as that by (simp add: legal_run_append rfold_append)
  then show ?thesis using as assms(2) unfolding srv_reached_def srv_moves_def by blast
qed

interpretation rx: legal_system "react_exec u" react_ok
  "\<lambda>r. user_ok u \<and> react_inv w r \<and> srv_reached u init (rsrv r)" "\<lambda>e. e = LengthError" for u :: user_prog and w and init
proof
  fix r x
  assume r: "user_ok u \<and> react_inv w r \<and> srv_reached u init (rsrv r)" and "react_ok x r"
  then show "case react_exec u x r of Inl e \<Rightarrow> e = LengthError
      | Inr r' \<Rightarrow> user_ok u \<and> react_inv w r' \<and> srv_reached u init (rsrv r')"
    using react_step [of w r u x] srv_reached_move by (auto split: sum.splits)
qed

section \<open>Histories\<close>

definition reactor_start :: "server \<Rightarrow> (nat \<Rightarrow> nat \<rightharpoonup> conn_cb channel) \<Rightarrow> (nat \<Rightarrow> epoller) \<Rightarrow> reactor" where
  "reactor_start s h e = \<lparr>rsrv = s, rheap = h, rpoll = e, ractive = (\<lambda>_. [])\<rparr>"

lemma reactor_history:
  assumes "user_ok u" and "srv_start True cb addr (srv_setThreadNum n (TcpServer base fd)) = Inr s0"
    and "\<forall>l. epoll_ok (h l) (e l) \<and> heap_ok (h l)"
    and "legal_run (react_exec u) react_ok xs (reactor_start s0 h e)"
  shows "case rfold (react_exec u) xs (reactor_start s0 h e) of Inl x \<Rightarrow> x = LengthError
    | Inr r \<Rightarrow> react_inv (\<lambda>l. epoll_watched (e l)) r \<and> srv_reached u s0 (rsrv r)"
proof -
  have c0: "conns s0 = Map.empty"
    using assms(2) by (auto simp: srv_start_def srv_setThreadNum_def TcpServer_def rbind_Inr_iff cassert_Inr_iff)
  have "react_inv (\<lambda>l. epoll_watched (e l)) (reactor_start s0 h e)"
    using srv_inv_start [OF assms(2)] assms(3) c0
    by (simp add: react_inv_def reactor_start_def live_def active_ok_def)
  moreover have "srv_reached u s0 (rsrv (reactor_start s0 h e))"
    by (auto simp: srv_reached_def reactor_start_def intro: exI [of _ "[]"])
  ultimately show ?thesis using rx.history [where u = u and init = s0 and s = "reactor_start s0 h e" and as = xs] assms(1,4) by (auto split: sum.splits)
qed

text \<open>C11: the server and the pollers of its loops. Over every history - accepts, polls, handlers, functors, calls from
  other threads, in any order the code allows - no operation fails, except \<open>append\<close> beyond \<open>max_size\<close>. Each
  loop's kernel watches, for each of the loop's connections that is not destroyed, exactly the events its channel asks
  for, under its own pointer, and for other descriptors what it watched before: of a destroyed connection nothing is
  left. A channel that is active in a turn belongs to a connection that is up when its handler runs.\<close>

theorem reactor_watched:
  assumes "user_ok u" and "srv_start True cb addr (srv_setThreadNum n (TcpServer base fd)) = Inr s0"
    and "\<forall>l. epoll_ok (h l) (e l) \<and> heap_ok (h l)"
    and "legal_run (react_exec u) react_ok xs (reactor_start s0 h e)"
  shows "case rfold (react_exec u) xs (reactor_start s0 h e) of
      Inl x \<Rightarrow> x = LengthError
    | Inr r \<Rightarrow>
        (\<forall>p c. conns (rsrv r) p = Some c \<and> \<not> cgone c \<longrightarrow>
           epoll_watched (rpoll r (cloop c)) (conn_fd (cbody c)) =
             (if events (channel (cbody c)) = 0 then None else Some (events (channel (cbody c)), p))) \<and>
        (\<forall>l fd. (\<forall>p c. conns (rsrv r) p = Some c \<and> \<not> cgone c \<and> cloop c = l \<longrightarrow> conn_fd (cbody c) \<noteq> fd) \<longrightarrow>
           epoll_watched (rpoll r l) fd = epoll_watched (e l) fd) \<and>
        (\<forall>l. \<forall>p \<in> set (ractive r l).
           \<exists>c. conns (rsrv r) p = Some c \<and> cloop c = l \<and> \<not> cgone c \<and> up (state (cbody c)))"
proof (cases "rfold (react_exec u) xs (reactor_start s0 h e)")
  case (Inr r)
  have inv: "react_inv (\<lambda>l. epoll_watched (e l)) r" using reactor_history [OF assms] Inr by simp
  have watched: "epoll_watched (rpoll r (cloop c)) (conn_fd (cbody c)) =
      (if events (channel (cbody c)) = 0 then None else Some (events (channel (cbody c)), p))"
    if "conns (rsrv r) p = Some c \<and> \<not> cgone c" for p c
  proof -
    have "state (cbody c) = KConnecting \<Longrightarrow> events (channel (cbody c)) = 0"
      using conn_chan(3) [OF react_invD(1) [OF inv], of p c] that by simp
    then show ?thesis
      using react_invD(4) [OF inv, of p c] that
      by (auto simp: placed_def watched_known [OF react_invD(2) [OF inv]])
  qed
  have others: "epoll_watched (rpoll r l) fd = epoll_watched (e l) fd"
    if "\<forall>p c. conns (rsrv r) p = Some c \<and> \<not> cgone c \<and> cloop c = l \<longrightarrow> conn_fd (cbody c) \<noteq> fd" for l fd
    by (rule react_invD(7) [OF inv]) (use that in \<open>auto simp: live_def\<close>)
  have "\<exists>c. conns (rsrv r) p = Some c \<and> cloop c = l \<and> \<not> cgone c \<and> up (state (cbody c))"
    if "p \<in> set (ractive r l)" for l p
    using react_invD(8) [OF inv, of l] that unfolding active_ok_def live_def by blast
  then show ?thesis using Inr watched others by simp
qed (use reactor_history [OF assms] in simp)

lemmas reactor_run =
  server_run reactor_start_def react_srv_def follow_def set_interest_def event_masks EpollPoller_def epoll_updateChannel_def
  epoll_RemoveChannel_def updateOperator2Poller_def channel_interest_def channel_remove_def IsNoneEvent_def conn_fd_def
  epoll_poll_def SetReceiveEvent_def accepts_new_def

definition empty_heaps :: "nat \<Rightarrow> nat \<rightharpoonup> conn_cb channel" where
  "empty_heaps l = Map.empty"

definition new_pollers :: "nat \<Rightarrow> epoller" where
  "new_pollers l = EpollPoller"

lemma new_reactor_ok: "\<forall>l. epoll_ok (empty_heaps l) (new_pollers l) \<and> heap_ok (empty_heaps l)"
  by (simp add: epoll_ok_def heap_ok_def empty_heaps_def new_pollers_def EpollPoller_def)

theorem reactor_watched_witness:
  "\<exists>s0 r. one_server = Inr s0 \<and>
     rfold (react_exec silent_user) [RStep (SAccept 5 9 0), RStep (SRun 10)] (reactor_start s0 empty_heaps new_pollers) = Inr r \<and>
     epoll_watched (rpoll r 10) 9 = Some (3, 5)"
proof -
  let ?xs = "[RStep (SAccept 5 9 0), RStep (SRun 10)]"
  have "\<exists>s0. one_server = Inr s0" by (simp add: server_run)
  then obtain s0 where s0: "one_server = Inr s0" by blast
  have "\<exists>r c. legal_run (react_exec silent_user) react_ok ?xs (reactor_start s0 empty_heaps new_pollers) \<and>
      rfold (react_exec silent_user) ?xs (reactor_start s0 empty_heaps new_pollers) = Inr r \<and>
      conns (rsrv r) 5 = Some c \<and> \<not> cgone c \<and> cloop c = 10 \<and> conn_fd (cbody c) = 9 \<and> events (channel (cbody c)) = 3"
    using s0 [symmetric] by (simp add: reactor_run empty_heaps_def new_pollers_def)
  then obtain r c where r: "legal_run (react_exec silent_user) react_ok ?xs (reactor_start s0 empty_heaps new_pollers)"
      "rfold (react_exec silent_user) ?xs (reactor_start s0 empty_heaps new_pollers) = Inr r"
      "conns (rsrv r) 5 = Some c" "\<not> cgone c" "cloop c = 10" "conn_fd (cbody c) = 9" "events (channel (cbody c)) = 3"
    by blast
  have u: "user_ok silent_user" by (simp add: user_ok_def silent_user_def)
  from reactor_watched [OF u s0 [unfolded one_server_def] new_reactor_ok r(1)] r(2-7)
  have "epoll_watched (rpoll r 10) 9 = Some (3, 5)" by fastforce
  then show ?thesis using s0 r(2) by blast
qed

text \<open>C12: what the server's own histories assume of an event - that it comes while the connection is up - holds in
  the reactor: every history of the reactor, with its polls and turns, is for the server a history of legal actions,
  which ends in the same state.\<close>

theorem reactor_refines_server:
  assumes "user_ok u" and "srv_start True cb addr (srv_setThreadNum n (TcpServer base fd)) = Inr s0"
    and "\<forall>l. epoll_ok (h l) (e l) \<and> heap_ok (h l)"
    and "legal_run (react_exec u) react_ok xs (reactor_start s0 h e)"
    and "rfold (react_exec u) xs (reactor_start s0 h e) = Inr r"
  shows "\<exists>as. srv_all_ok u as s0 \<and> rfold (srv_exec u) as s0 = Inr (rsrv r)"
  using reactor_history [OF assms(1-4)] assms(5) by (simp add: srv_reached_def)

text \<open>A turn that reads the end of the stream.\<close>

lemma readFd_nil: "writerIdx b < 2 ^ 64 \<Longrightarrow> readFd (ReadOk []) b = Inr (0, b)"
  by (simp add: readFd_def Let_def write_at_def)

lemma handleRead_end:
  "writerIdx (inputBuffer s) < 2 ^ 64 \<Longrightarrow> handleRead inLoop cbs (ReadOk []) s = handleClose inLoop cbs s"
  by (simp add: handleRead_def readFd_nil)

lemma new_writerIdx: "writerIdx (buffer_new KInitSize) = 0"
  by (simp add: buffer_new_def kCheapPrepend_def)

lemma one_watched:
  "\<exists>fd ev. epoll_watched \<lparr>channels = m, evlist_size = n, ctl = [(EPOLL_CTL_ADD, 9, 3, 5)]\<rparr> fd = Some (ev, 5)"
  by (rule exI [of _ 9]) (simp add: epoll_watched_def ctl_replay_def)

definition one_turn :: "react_act list" where
  "one_turn = [RStep (SAccept 5 9 0), RStep (SRun 10), RPoll 10 [(POLLIN, 5)], RHandle 10 (ReadOk []) (Wrote 0)]"

theorem reactor_refines_server_witness:
  "\<exists>s0 r as c. one_server = Inr s0 \<and>
     rfold (react_exec silent_user) one_turn (reactor_start s0 empty_heaps new_pollers) = Inr r \<and>
     rfold (srv_exec silent_user) as s0 = Inr (rsrv r) \<and> conns (rsrv r) 5 = Some c \<and> state (cbody c) = KDisconnected"
proof -
  have "\<exists>s0. one_server = Inr s0" by (simp add: server_run)
  then obtain s0 where s0: "one_server = Inr s0" by blast
  have "\<exists>r c. legal_run (react_exec silent_user) react_ok one_turn (reactor_start s0 empty_heaps new_pollers) \<and>
      rfold (react_exec silent_user) one_turn (reactor_start s0 empty_heaps new_pollers) = Inr r \<and>
      conns (rsrv r) 5 = Some c \<and> state (cbody c) = KDisconnected"
    using s0 [symmetric]
    by (simp add: reactor_run one_turn_def empty_heaps_def new_pollers_def handleRead_end new_writerIdx one_watched
        KInitEventListSize_def)
  then obtain r c where r: "legal_run (react_exec silent_user) react_ok one_turn (reactor_start s0 empty_heaps new_pollers)"
      "rfold (react_exec silent_user) one_turn (reactor_start s0 empty_heaps new_pollers) = Inr r"
      "conns (rsrv r) 5 = Some c" "state (cbody c) = KDisconnected" by blast
  have u: "user_ok silent_user" by (simp add: user_ok_def silent_user_def)
  from reactor_refines_server [OF u s0 [unfolded one_server_def] new_reactor_ok r(1,2)] s0 r show ?thesis by blast
qed

text \<open>C35: the timer of \<open>forceCloseWithDelay\<close> runs \<open>forceCloseInLoop\<close> among the handlers of a turn, not after
  them. When the connection's own channel is active in the same turn, its handler runs on a connection that is
  disconnected; if the peer has closed too, the read returns 0 and the assertion of \<open>handleClose\<close> fails.\<close>

theorem delayed_close_race:
  assumes "user_ok u" and "conn_ok s" and "up (state s)"
    and "conn_exec (user_callbacks u) (AFunctor FForceCloseInLoop mem w) s = Inr s1"
    and "r AND (POLLIN OR POLLPRI OR POLLRDHUP) \<noteq> 0"
  shows "state s1 = KDisconnected \<and> conn_exec (user_callbacks u) (AEvent r (ReadOk []) w') s1 = Inl AssertFail"
proof -
  have run: "handleClose True (user_callbacks u) s = Inr s1" using assms(3,4) by (simp add: forceCloseInLoop_def)
  have s1: "state s1 = KDisconnected" "conn_ok s1"
    using cu.handleClose_post(2) [OF assms(1-3) run] cu.handleClose_post(1) [OF assms(1-3)] run by simp_all
  define v where "v = s1\<lparr>channel := SetReceiveEvent r (channel s1)\<rparr>"
  define t where "t = conn_upd (set_handling 0 True) v"
  have v: "rEvents (channel v) = r" "closeCallback (channel v) = Some HandleClose"
    using dispatch_wired [OF s1(2)] by (simp_all add: v_def SetReceiveEvent_def)
  have t: "state t = KDisconnected" "rEvents (channel t) = r" "readCallback (channel t) = Some HandleRead"
      "inputBuffer t = inputBuffer s1"
    using s1(1) dispatch_wired [OF s1(2)] by (simp_all add: t_def v_def conn_upd_handling SetReceiveEvent_def)
  have close: "handleClose True (user_callbacks u) t = Inl AssertFail" using t(1) by (simp add: handleClose_def)
  have "wf_buffer (inputBuffer s1)" using s1(2) by (simp add: conn_ok_def conn_inv_def)
  then have "writerIdx (inputBuffer t) < 2 ^ 64" using t(4) by (simp add: wf_buffer_def vec_max_size_def)
  from handleRead_end [OF this] close have "handleRead True (user_callbacks u) (ReadOk []) t = Inl AssertFail" by simp
  then have "conn_HandleEvent (user_callbacks u) (ReadOk []) w' v = Inl AssertFail"
    using close t(2,3) v assms(5) by (simp add: conn_HandleEvent_eq t_def [symmetric] call_if_def)
  then show ?thesis using s1(1) by (simp add: v_def)
qed

text \<open>A user that closes with a delay: the reactor's turn in which the timer comes first.\<close>

definition delaying_user :: user_prog where
  "delaying_user = ((\<lambda>_. None), (\<lambda>c. if c = OnConnection then [UForceCloseWithDelay (Dbl 3 0)] else []))"

definition race :: "react_act list" where
  "race = [RStep (SAccept 5 9 0), RStep (SRun 10), RPoll 10 [(POLLIN, 5)],
     RStep (SConn 5 (AFunctor FForceCloseInLoop (\<lambda>_. None) (Wrote 0)))]"

theorem delayed_close_race_witness:
  "\<exists>s0 r c. one_server = Inr s0 \<and>
     rfold (react_exec delaying_user) race (reactor_start s0 empty_heaps new_pollers) = Inr r \<and>
     conns (rsrv r) 5 = Some c \<and> ractive r 10 = [5] \<and>
     conn_exec (user_callbacks delaying_user) (AEvent POLLIN (ReadOk []) (Wrote 0)) (cbody c) = Inl AssertFail"
proof -
  let ?f = "AFunctor FForceCloseInLoop (\<lambda>_. None) (Wrote 0)"
  let ?xs = "butlast race"
  have "\<exists>s0. one_server = Inr s0" by (simp add: server_run)
  then obtain s0 where s0: "one_server = Inr s0" by blast
  have "\<exists>r c r2 c2. legal_run (react_exec delaying_user) react_ok ?xs (reactor_start s0 empty_heaps new_pollers) \<and>
      rfold (react_exec delaying_user) ?xs (reactor_start s0 empty_heaps new_pollers) = Inr r \<and>
      conns (rsrv r) 5 = Some c \<and> \<not> cgone c \<and> up (state (cbody c)) \<and>
      conn_exec (user_callbacks delaying_user) ?f (cbody c) = Inr (cbody c2) \<and>
      rfold (react_exec delaying_user) race (reactor_start s0 empty_heaps new_pollers) = Inr r2 \<and>
      conns (rsrv r2) 5 = Some c2 \<and> ractive r2 10 = [5]"
    using s0 [symmetric]
    by (simp add: reactor_run race_def delaying_user_def empty_heaps_def new_pollers_def one_watched KInitEventListSize_def
        forceCloseWithDelay_def forceCloseInLoop_def)
  then obtain r c r2 c2 where r: "legal_run (react_exec delaying_user) react_ok ?xs (reactor_start s0 empty_heaps new_pollers)"
      "rfold (react_exec delaying_user) ?xs (reactor_start s0 empty_heaps new_pollers) = Inr r"
      "conns (rsrv r) 5 = Some c" "\<not> cgone c" "up (state (cbody c))"
      "conn_exec (user_callbacks delaying_user) ?f (cbody c) = Inr (cbody c2)"
    and r2: "rfold (react_exec delaying_user) race (reactor_start s0 empty_heaps new_pollers) = Inr r2"
      "conns (rsrv r2) 5 = Some c2" "ractive r2 10 = [5]" by blast
  have u: "user_ok delaying_user" by (auto simp: user_ok_def delaying_user_def)
  have "react_inv (\<lambda>l. epoll_watched (new_pollers l)) r"
    using reactor_history [OF u s0 [unfolded one_server_def] new_reactor_ok r(1)] r(2) by simp
  from srv_invD(3) [OF react_invD(1) [OF this] r(3)] have ok: "conn_ok (cbody c)" using r(4) by (simp add: conn_stage_def)
  have "conn_exec (user_callbacks delaying_user) (AEvent POLLIN (ReadOk []) (Wrote 0)) (cbody c2) = Inl AssertFail"
    using delayed_close_race [OF u ok r(5,6), of POLLIN "Wrote 0"] by (simp add: poll_bits)
  then show ?thesis using s0 r2 by blast
qed

end
