(* ===== verification/Echo_Server.thy ===== *)
theory Echo_Server
  imports Server_Steps Tcp_Stream
begin

text \<open>
  The server of \<open>main.cpp\<close>: a \<open>TcpServer\<close> with the default callbacks of \<open>net/Callback.cpp\<close>, of which
  only \<open>defaultMessageCallback\<close> does anything to a connection. It echoes: over every history of all its
  connections, what is on the wire and in the output buffer of each is what was read from it.
\<close>

section \<open>The program\<close>

text \<open>The default callbacks, when the kernel takes up to \<open>k\<close> bytes of the next direct write.\<close>

definition default_callbacks :: "nat \<Rightarrow> user_prog" where
  "default_callbacks k = (\<lambda>_. None, \<lambda>c. if c = OnMessage then [UEcho (Wrote k)] else [])"

text \<open>\<open>main\<close> without arguments; any number of threads will do for what follows.\<close>

definition main_server :: "bool \<Rightarrow> (nat \<Rightarrow> nat) \<Rightarrow> 64 word \<Rightarrow> nat \<Rightarrow> int \<Rightarrow> server result" where
  "main_server cb addr n base listenFd = srv_start True cb addr (srv_setThreadNum n (TcpServer base listenFd))"

text \<open>Each step comes with the answer to the direct write it may make. Besides accepting and running the
  functors of the server, the loops deliver events and run the functors of the default
  callbacks, which log; nobody else calls the connections.\<close>

fun echo_exec :: "nat \<times> srv_act \<Rightarrow> server \<Rightarrow> server result" where
  "echo_exec (k, a) s = srv_exec (default_callbacks k) a s"

fun by_loop :: "srv_act \<Rightarrow> bool" where
  "by_loop (SConn p (AEvent r rv w)) = True"
| "by_loop (SConn p (AFunctor f mem w)) = (case f of FWriteComplete \<Rightarrow> True | FHighWater n \<Rightarrow> True | _ \<Rightarrow> False)"
| "by_loop (SConn p a) = False"
| "by_loop a = True"

fun echo_ok :: "nat \<times> srv_act \<Rightarrow> server \<Rightarrow> bool" where
  "echo_ok (k, a) s \<longleftrightarrow> srv_ok a s \<and> by_loop a"

text \<open>The bytes that a history reads from the connection at \<open>p\<close>.\<close>

definition reads_event :: "events \<Rightarrow> bool" where
  "reads_event r \<longleftrightarrow> r AND (POLLIN OR POLLPRI OR POLLRDHUP) \<noteq> 0"

fun taken :: "conn_act \<Rightarrow> byte list" where
  "taken (AEvent r (ReadOk bytes) w) = (if reads_event r then bytes else [])"
| "taken a = []"

fun received_in :: "nat \<Rightarrow> nat \<times> srv_act \<Rightarrow> byte list" where
  "received_in p (k, SConn q a) = (if q = p then taken a else [])"
| "received_in p x = []"

definition received :: "nat \<Rightarrow> (nat \<times> srv_act) list \<Rightarrow> byte list" where
  "received p xs = concat (map (received_in p) xs)"

lemma received_simps [simp]: "received p [] = []" "received p (x # xs) = received_in p x @ received p xs"
  by (simp_all add: received_def)

section \<open>One connection\<close>

text \<open>All that was read has been handed over, and is on the wire or waits.\<close>

definition echoed :: "byte list \<Rightarrow> conn \<Rightarrow> bool" where
  "echoed rx s \<longleftrightarrow> handed s = rx \<and> wire s @ content (outputBuffer s) = rx \<and> content (inputBuffer s) = [] \<and>
     state s \<noteq> KDisconnecting"

lemma echoedI:
  "conn_ok s \<Longrightarrow> handed s = rx \<Longrightarrow> content (inputBuffer s) = [] \<Longrightarrow> state s \<noteq> KDisconnecting \<Longrightarrow> echoed rx s"
  by (simp add: echoed_def conn_ok_def)

lemma default_user_ok: "user_ok (default_callbacks k)"
  by (simp add: user_ok_def default_callbacks_def write_ok_def)

lemma default_calls:
  "user_callbacks (default_callbacks k) c = (if c = OnMessage then defaultMessageCallback (Wrote k) else Inr)"
proof
  fix s show "user_callbacks (default_callbacks k) c s = (if c = OnMessage then defaultMessageCallback (Wrote k) else Inr) s"
    by (cases "defaultMessageCallback (Wrote k) s") (auto simp: user_callbacks_def default_callbacks_def)
qed

abbreviation dcbs :: "nat \<Rightarrow> callbacks" where
  "dcbs k \<equiv> user_callbacks (default_callbacks k)"

lemma echoed_handleClose:
  assumes "echoed rx s" "handleClose True (dcbs k) s = Inr s'"
  shows "echoed rx s' \<and> state s' = KDisconnected"
  using assms by (auto simp: handleClose_def cassert_Inr_iff call_def default_calls echoed_def)

lemma echoed_handleWirte:
  assumes "echoed rx s" "conn_ok s'" "handleWirte True w s = Inr s'"
  shows "echoed rx s'"
proof -
  have sys: "sys_write bs w s = Inr (n, s1) \<Longrightarrow>
      handed s1 = handed s \<and> inputBuffer s1 = inputBuffer s \<and> state s1 = state s" for bs n s1
    by (cases w) (auto split: if_splits)
  have "handed s' = handed s \<and> inputBuffer s' = inputBuffer s \<and> state s' = state s"
  proof (cases "IsEnableWriteEvent (channel s)")
    case True
    then obtain n s1 where s1: "sys_write (peek (readableBytes (outputBuffer s)) (outputBuffer s)) w s = Inr (n, s1)"
      using assms(3) by (auto simp: handleWirte_def rbind_Inr_iff)
    show ?thesis
    proof (cases "0 < n")
      case pos: True
      then obtain ob where "retrieve (nat n) (outputBuffer s1) = Inr ob" "state s1 \<noteq> KDisconnecting"
        using assms(1,3) True s1 sys [OF s1] by (auto simp: handleWirte_def rbind_Inr_iff echoed_def)
      then show ?thesis
        using assms(3) True s1 pos sys [OF s1] by (auto simp: handleWirte_def Let_def split: if_splits)
    qed (use assms(3) True s1 sys [OF s1] in \<open>simp add: handleWirte_def\<close>)
  qed (use assms(3) in \<open>simp add: handleWirte_def\<close>)
  then show ?thesis using assms(1,2) by (intro echoedI) (auto simp: echoed_def)
qed

lemma echoed_handleRead:
  assumes "echoed rx s" "conn_ok s" "state s = KConnected" "read_ok rv s" "handleRead True (dcbs k) rv s = Inr s'"
  shows "echoed (rx @ (case rv of ReadErr \<Rightarrow> [] | ReadOk bytes \<Rightarrow> bytes)) s'"
proof -
  have ok: "conn_ok s'" using cu.handleRead_post [OF default_user_ok [of k] assms(2) _ assms(4)] assms(3,5) by simp
  show ?thesis
  proof (cases rv)
    case ReadErr
    have wf: "wf_buffer (inputBuffer s)" using assms(2) by (simp add: conn_ok_def conn_inv_def)
    have run: "defaultMessageCallback (Wrote k) (emit (ECall OnMessage) s) = Inr s'"
      using assms(5) ReadErr by (simp add: handleRead_error call_def default_calls)
    have none: "content (inputBuffer s) = []" using assms(1) by (simp add: echoed_def)
    obtain ib where ib: "retrieveAllAsString (inputBuffer s) = Inr ([], ib)" "wf_buffer ib" "content ib = []"
      using retrieveAsString_spec [OF wf, of 0] wf none
      by (cases "retrieveAsString 0 (inputBuffer s)") (auto simp: retrieveAllAsString_def)
    let ?s = "(emit (ECall OnMessage) s)\<lparr>inputBuffer := ib\<rparr>"
    have "conn_ok ?s" using assms(2) ib(2) by (simp add: conn_ok_def conn_inv_def chan_run_append)
    moreover have "logged_send (string_mem []) 0 0 (Wrote 0) ?s = Inr s'"
      using run ib(1) by (simp add: defaultMessageCallback_def)
    ultimately have "handed s' = handed s \<and> inputBuffer s' = ib \<and> state s' = state s"
      using logged_send_takes [of ?s "string_mem []" 0 0 "[]" 0 s'] assms(3) by simp
    then show ?thesis using ReadErr assms(1,3) ib(3) ok by (intro echoedI) (auto simp: echoed_def)
  next
    case (ReadOk bytes)
    show ?thesis
    proof (cases "bytes = []")
      case True
      have wf: "wf_buffer (inputBuffer s)" using assms(2) by (simp add: conn_ok_def conn_inv_def)
      obtain ib where ib: "readFd (ReadOk []) (inputBuffer s) = Inr (0, ib)" "content ib = []"
        using readFd_spec [OF wf, of "[]"] assms(1,4,5) ReadOk True
        by (cases "readFd (ReadOk []) (inputBuffer s)") (auto simp: read_ok_def echoed_def handleRead_def)
      have "echoed rx (s\<lparr>inputBuffer := ib\<rparr>)" using assms(1) ib(2) by (simp add: echoed_def)
      moreover have "handleClose True (dcbs k) (s\<lparr>inputBuffer := ib\<rparr>) = Inr s'"
        using assms(5) ReadOk True ib(1) by (simp add: handleRead_def)
      ultimately show ?thesis using echoed_handleClose ReadOk True by simp
    next
      case False
      have "handed s' = handed s @ content (inputBuffer s) @ bytes \<and> content (inputBuffer s') = [] \<and> state s' = state s"
        by (rule echo_returns_input [of s bytes "dcbs k" k s'])
          (use assms ReadOk False in \<open>simp_all add: default_calls\<close>)
      then show ?thesis using ReadOk assms(1,3) ok by (intro echoedI) (auto simp: echoed_def)
    qed
  qed
qed

text \<open>A whole event: close, read and write handlers.\<close>

lemma echoed_event:
  assumes s: "echoed rx s" "conn_ok s" "state s = KConnected" "read_ok rv s" "\<not> hup_and_read (rEvents (channel s))"
    and run: "conn_HandleEvent (dcbs k) rv w s = Inr s'"
  shows "echoed (rx @ (if reads_event (rEvents (channel s)) then (case rv of ReadErr \<Rightarrow> [] | ReadOk bytes \<Rightarrow> bytes) else [])) s'"
proof -
  let ?r = "rEvents (channel s)" and ?t = "conn_upd (set_handling 0 True) s" and ?run = "exec_conn_cb (dcbs k) rv w"
  let ?hup = "?r AND POLLHUP \<noteq> 0 \<and> ?r AND POLLIN = 0"
  define rx' where "rx' = rx @ (if reads_event ?r then (case rv of ReadErr \<Rightarrow> [] | ReadOk bytes \<Rightarrow> bytes) else [])"
  have t: "echoed rx ?t" "conn_ok ?t" "state ?t = KConnected" "read_ok rv ?t" "rEvents (channel ?t) = ?r"
    using s conn_ok_handling [OF s(2), of True]
    by (auto simp: conn_upd_handling echoed_def read_ok_def split: sysread.splits)
  note post = cu.handleClose_post [OF default_user_ok [of k] t(2)] cu.handleRead_post [OF default_user_ok [of k] t(2) _ t(4)]
  obtain s2 where s2: "echoed rx' s2" "conn_ok s2" "state s2 \<noteq> KConnecting"
    and wr: "rbind (call_if (rEvents (channel s2) AND POLLOUT \<noteq> 0) ?run (writeCallback (channel s2)) s2)
        (\<lambda>s3. Inr (conn_upd (set_handling 0 False) s3)) = Inr s'"
  proof (cases ?hup)
    case True
    then obtain s1 where s1: "handleClose True (dcbs k) ?t = Inr s1"
      using run dispatch_wired [OF s(2)] by (auto simp: conn_HandleEvent_eq call_if_def rbind_Inr_iff)
    have le: "conn_ok s1" "conn_le ?t s1" using post(1) t(3) s1 by simp_all
    have same: "rEvents (channel s1) = ?r" using le(2) t(5) by (simp add: conn_le_def same_dispatch_def)
    have no: "\<not> reads_event ?r" using True s(5) by (simp add: hup_and_read_def reads_event_def)
    have e: "echoed rx s1" "state s1 = KDisconnected" using echoed_handleClose [OF t(1) s1] by simp_all
    show ?thesis
      by (rule that [of s1])
        (use run True s1 same no e le(1) dispatch_wired [OF s(2)] in
          \<open>auto simp: conn_HandleEvent_eq call_if_def rx'_def reads_event_def\<close>)
  next
    case no_hup: False
    show ?thesis
    proof (cases "reads_event ?r")
      case True
      then obtain s2 where s2: "handleRead True (dcbs k) rv ?t = Inr s2"
        using run no_hup t(5) dispatch_wired [OF t(2)]
        by (auto simp: conn_HandleEvent_eq call_if_def rbind_Inr_iff reads_event_def)
      have le: "conn_ok s2" "conn_le ?t s2" using post(3) t(3) s2 by simp_all
      then have "state s2 \<noteq> KConnecting" using conn_le_started [OF le(2)] t(3) by simp
      moreover have "echoed rx' s2" using echoed_handleRead [OF t(1-4) s2] True by (simp add: rx'_def)
      ultimately show ?thesis
        by (intro that [of s2])
          (use run no_hup True s2 le t(5) dispatch_wired [OF t(2)] in
            \<open>auto simp: conn_HandleEvent_eq call_if_def reads_event_def\<close>)
    next
      case False
      show ?thesis
        by (rule that [of ?t])
          (use run no_hup False t in \<open>auto simp: conn_HandleEvent_eq call_if_def rx'_def reads_event_def\<close>)
    qed
  qed
  have "\<exists>s3. echoed rx' s3 \<and> s' = conn_upd (set_handling 0 False) s3"
  proof (cases "rEvents (channel s2) AND POLLOUT \<noteq> 0")
    case True
    then obtain s3 where s3: "handleWirte True (at_most (readableBytes (outputBuffer s2)) w) s2 = Inr s3"
        "s' = conn_upd (set_handling 0 False) s3"
      using wr dispatch_wired [OF s2(2)] by (auto simp: call_if_def rbind_Inr_iff)
    have "conn_ok s3" using handleWirte_post [OF s2(2,3), of "at_most (readableBytes (outputBuffer s2)) w"] s3(1)
      by (auto simp: at_most_le)
    then show ?thesis using echoed_handleWirte [OF s2(1) _ s3(1)] s3(2) by blast
  qed (use wr s2(1) in \<open>auto simp: call_if_def\<close>)
  then show ?thesis by (auto simp: rx'_def [symmetric] echoed_def conn_upd_handling)
qed

section \<open>All connections\<close>

definition echo_inv :: "(nat \<Rightarrow> byte list) \<Rightarrow> server \<Rightarrow> bool" where
  "echo_inv rx s \<longleftrightarrow> srv_inv s \<and> (\<forall>p c. conns s p = Some c \<longrightarrow> echoed (rx p) (cbody c)) \<and>
     (\<forall>p. conns s p = None \<longrightarrow> rx p = [])"

lemma echoed_fresh: "echoed [] (fresh_body hw fd junk)"
  by (simp add: echoed_def fresh_body_def setHighWaterMarkCallback_def setWriteCompleteCallback_def TcpConnection_def
      buffer_new_def content_def)

lemma echoed_established: "echoed rx b \<Longrightarrow> conn_exec (dcbs k) AEstablish b = Inr b' \<Longrightarrow> echoed rx b'"
  by (auto simp: ConnectEstablished_def cassert_Inr_iff call_def default_calls echoed_def)

lemma echoed_emit [simp]: "echoed rx (emit e b) = echoed rx b"
  by (simp add: echoed_def)

lemma echoed_act:
  assumes "echoed rx b" "conn_ok b" "act_ok a b" "by_loop (SConn p a)" "conn_exec (dcbs k) a b = Inr b'"
  shows "echoed (rx @ taken a) b'"
proof (cases a)
  case (AEvent r rv w)
  let ?b = "b\<lparr>channel := SetReceiveEvent r (channel b)\<rparr>"
  have st: "state b = KConnected" using assms(1,3) AEvent by (auto simp: echoed_def)
  have ok: "conn_ok ?b"
    by (rule conn_ok_channel) (use assms(2) in \<open>auto simp: conn_ok_def conn_inv_def wired_def SetReceiveEvent_def\<close>)
  have "echoed (rx @ (if reads_event (rEvents (channel ?b)) then (case rv of ReadErr \<Rightarrow> [] | ReadOk bytes \<Rightarrow> bytes) else [])) b'"
    by (rule echoed_event [OF _ ok, of rx rv k w])
      (use assms(1,3,5) AEvent st in \<open>auto simp: echoed_def read_ok_def SetReceiveEvent_def split: sysread.splits\<close>)
  moreover have "rEvents (channel ?b) = r" by (simp add: SetReceiveEvent_def)
  ultimately show ?thesis using AEvent by (cases rv; cases "reads_event r") simp_all
next
  case (AFunctor f mem w)
  then show ?thesis using assms(1,4,5) by (cases f) auto
qed (use assms(4) in simp_all)

lemma echo_step:
  assumes inv: "echo_inv rx s" and ok: "echo_ok (k, a) s" and run: "srv_exec (default_callbacks k) a s = Inr s'"
  shows "echo_inv (\<lambda>p. rx p @ received_in p (k, a)) s'"
proof -
  have s: "srv_inv s" "srv_ok a s" "\<And>p c. conns s p = Some c \<Longrightarrow> echoed (rx p) (cbody c)" "\<And>p. conns s p = None \<Longrightarrow> rx p = []"
    using inv ok by (simp_all add: echo_inv_def)
  have srv: "srv_inv s'" using srv_step [of s "default_callbacks k" a] s(1,2) run by (simp add: default_user_ok split: sum.splits)
  have one: ?thesis
    if p: "conns s p = Some c" "conns s' = (conns s)(p \<mapsto> c')" "echoed (rx p @ received_in p (k, a)) (cbody c')"
      and other: "\<And>q. q \<noteq> p \<Longrightarrow> received_in q (k, a) = []" for p c c'
    using p other s(3,4) srv by (auto simp: echo_inv_def)
  have same: ?thesis if "conns s' = conns s" "\<And>q. received_in q (k, a) = []"
    using that s(3,4) srv by (simp add: echo_inv_def)
  show ?thesis
  proof (cases a)
    case (SAccept p fd junk)
    show ?thesis
    proof (cases "0 \<le> fd")
      case True
      obtain io b where b: "conns s' = (conns s)(p \<mapsto> \<lparr>cname = to_string (nextConnId s), cloop = io, cbody = b, cgone = False\<rparr>)"
        "b = fresh_body (srvHighWaterMark s) fd junk \<or>
          conn_exec (dcbs k) AEstablish (fresh_body (srvHighWaterMark s) fd junk) = Inr b"
        by (rule accept_step [OF run [unfolded SAccept] True])
      have "echoed [] b" using b(2) echoed_fresh echoed_established by blast
      moreover have "rx p = []" using s(2,4) SAccept by simp
      ultimately show ?thesis using b(1) s(3,4) srv SAccept by (auto simp: echo_inv_def)
    next
      case False
      then show ?thesis using run SAccept by (intro same) (simp_all add: acceptor_HandleRead_def)
    qed
  next
    case (SRun l)
    show ?thesis
    proof (cases "queues s l")
      case Nil
      then show ?thesis using run SRun by (intro same) simp_all
    next
      case (Cons f fs)
      let ?s = "s\<lparr>queues := (queues s)(l := fs)\<rparr>"
      have f: "exec_srv_functor (default_callbacks k) l f ?s = Inr s'" using run SRun Cons by simp
      show ?thesis
      proof (cases f)
        case (SEstablish p)
        then obtain c b where c: "conns ?s p = Some c" "conn_exec (dcbs k) AEstablish (cbody c) = Inr b" "s' = set_body p b ?s"
          using f by (auto elim: establish_frame)
        then have "echoed (rx p) b" using s(3) [of p c] echoed_established by simp
        then show ?thesis using c SRun by (intro one [of p c "c\<lparr>cbody := b\<rparr>"]) (simp_all add: set_body_def)
      next
        case (SRemove p)
        then show ?thesis using f SRun
          by (intro same) (auto simp: removeConnectionInLoop_def result_iffs srv_queue_def)
      next
        case (SDestroy p)
        then obtain c where c: "conns s p = Some c" "cloop c = l" "state (cbody c) = KDisconnected"
          using srv_invD(2) [OF s(1), of f l] Cons by (auto simp: functor_stage_def)
        then show ?thesis using f SDestroy SRun s(3) [OF c(1)]
          by (intro one [of p c "c\<lparr>cbody := emit ERemove (cbody c), cgone := True\<rparr>"])
            (auto simp: destroy_def destroy_body)
      qed
    qed
  next
    case (SConn p b)
    then obtain c where c: "conns s p = Some c" "\<not> cgone c" "act_ok b (cbody c)" using s(2) by (auto split: option.splits)
    have body: "conn_ok (cbody c)" using srv_invD(3) [OF s(1) c(1)] c(2) by (simp add: conn_stage_def)
    obtain d where d: "conn_exec (dcbs k) b (cbody c) = Inr d"
      and r: "rfold (\<lambda>_. removeConnection (cloop c) p) (replicate (closes d - closes (cbody c)) ()) (set_body p d s) = Inr s'"
      using run SConn c(1) by (auto simp: result_iffs)
    have "echoed (rx p @ taken b) d"
      by (rule echoed_act [OF s(3) [OF c(1)] body c(3) _ d, of p]) (use ok SConn in simp)
    then show ?thesis using c(1) removeConnections_frame [OF r] SConn
      by (intro one [of p c "c\<lparr>cbody := d\<rparr>"]) (simp_all add: set_body_def)
  qed
qed

lemma echo_history:
  "echo_inv rx s \<Longrightarrow> legal_run echo_exec echo_ok xs s \<Longrightarrow>
     case rfold echo_exec xs s of Inl e \<Rightarrow> e = LengthError | Inr s' \<Rightarrow> echo_inv (\<lambda>p. rx p @ received p xs) s'"
proof (induction xs arbitrary: rx s)
  case (Cons x xs)
  obtain k a where x: "x = (k, a)" by (cases x)
  have ok: "srv_inv s" "srv_ok a s" using Cons.prems x by (simp_all add: echo_inv_def)
  show ?case
  proof (cases "srv_exec (default_callbacks k) a s")
    case (Inl e)
    then show ?thesis using srv_step [OF ok(1) default_user_ok ok(2), of k] x by simp
  next
    case (Inr s1)
    have "echo_inv (\<lambda>p. rx p @ received_in p x) s1" using echo_step [OF Cons.prems(1) _ Inr] Cons.prems(2) x by simp
    from Cons.IH [OF this] show ?thesis using Cons.prems(2) x Inr by (simp split: sum.splits)
  qed
qed simp


definition two_bytes :: "(nat \<times> srv_act) list" where
  "two_bytes = [(9, SAccept 5 9 0), (9, SConn 5 (AEvent POLLIN (ReadOk [1, 2]) (Wrote 0)))]"


end
