(* ===== verification/Programs.thy ===== *)
theory Programs
  imports Tcp_Client Tcp_Stream
begin

text \<open>
  The programs around the library: the client of \<open>main.cpp\<close>, which connects with \<open>retry_\<close> on and sends a line
  when it is connected; the plain socket client of \<open>client.cpp\<close>; and \<open>logic/logic.cpp\<close>. The server of
  \<open>main.cpp\<close> is in \<open>Echo_Server\<close>.
\<close>

section \<open>The client of main\<close>

text \<open>\<open>ans\<close> is the kernel's answer to the first \<open>connect\<close>.\<close>

definition main_client :: "int \<times> int \<Rightarrow> client result" where
  "main_client ans = client_connect True ans (enableRetry TcpClient)"

text \<open>The timer callback of \<open>testClientSendAndRecvData\<close>, run in the connection's loop: \<open>send\<close> of a literal.\<close>

definition greeting :: "byte list" where
  "greeting = map of_char ''ni hao from client!''"

definition mockSend :: "syswrite \<Rightarrow> conn \<Rightarrow> conn result" where
  "mockSend w s = logged_send (string_mem greeting) 0 (length greeting) (at_most (length greeting) w) s"

text \<open>It sends the whole line on a connection that is up, and nothing on one that has gone in the meantime.\<close>

lemma mockSend_spec:
  assumes "conn_ok s" and "mockSend (Wrote k) s = Inr s'"
  shows "if state s = KConnected then handed s' = handed s @ greeting else s' = s"
proof (cases "state s = KConnected")
  case True
  have "length greeting \<le> vec_max_size" by (simp add: greeting_def vec_max_size_def)
  then show ?thesis
    using logged_send_takes [OF assms(1) True read_string_mem [of greeting], of "min k (length greeting)" s'] assms(2) True
    by (simp add: mockSend_def)
qed (use assms(2) in \<open>simp add: mockSend_def logged_send_def send_def\<close>)

text \<open>The actions of a client that nobody disconnects, when \<open>connect\<close> never fails for good: the connector gives up on
  \<open>EACCES\<close>, \<open>EPERM\<close> and their like, and on errors it does not expect.\<close>

definition hopeful :: "int \<times> int \<Rightarrow> bool" where
  "hopeful ans \<longleftrightarrow> connect_switch (snd ans) \<noteq> GiveUp"

fun persistent :: "client_act \<Rightarrow> bool" where
  "persistent (CDisconnect inLoop) = False"
| "persistent (CConnect inLoop ans) = hopeful ans"
| "persistent (CLoop a p junk) = (case a of RunFunctor ans \<Rightarrow> hopeful ans | RetryTimer i ans \<Rightarrow> hopeful ans | _ \<Rightarrow> True)"
| "persistent (CConn p a ans) = hopeful ans"
| "persistent a = True"

text \<open>It has a connection, is making one, or has something queued that will start one.\<close>

definition under_way :: "connector \<Rightarrow> bool" where
  "under_way k \<longleftrightarrow> cstate k = CConnecting \<or> cstate k = CDisconnected \<and> (retries k \<noteq> [] \<or> RunStart \<in> set (cpending k))"

definition trying :: "client \<Rightarrow> bool" where
  "trying s \<longleftrightarrow> clRetry s \<and> clEnableConnect s \<and> enableConnect (clConnector s) \<and> RunStop \<notin> set (cpending (clConnector s)) \<and>
     (under_way (clConnector s) \<or> cstate (clConnector s) = CConnected \<and> connection s \<noteq> None)"

lemma connect_under_way:
  assumes "connect ans k = Inr k'" "hopeful ans" "enableConnect k"
  shows "under_way k' \<and> enableConnect k' \<and> cpending k' = cpending k"
  using assms
  by (cases ans; cases "connect_switch (snd ans)")
    (auto simp: connect_def connecting_def under_way_def hopeful_def Let_def cassert_Inr_iff)

lemma start_under_way:
  assumes "startInLoop b ans k = Inr k'" "hopeful ans" "enableConnect k"
  shows "under_way k' \<and> enableConnect k' \<and> cpending k' = cpending k"
  using assms connect_under_way [of ans k k'] by (auto simp: startInLoop_def result_iffs)

text \<open>What the loop does for the connector keeps it under way, or connects it.\<close>

lemma connector_under_way:
  assumes inv: "connector_inv k" "usage_inv k" and stop: "RunStop \<notin> set (cpending k)" and en: "enableConnect k"
    and a: "persistent (CLoop a p junk)" "legal a k"
      "case a of RunFunctor _ \<Rightarrow> True | RetryTimer _ _ \<Rightarrow> True | Writable _ _ _ \<Rightarrow> True | _ \<Rightarrow> False"
    and run: "connector_exec a k = Inr k'" and before: "under_way k \<or> cstate k = CConnected"
  shows "enableConnect k' \<and> RunStop \<notin> set (cpending k') \<and>
    (under_way k' \<or> cstate k' = CConnected \<and> (cstate k = CConnected \<or> given k' \<noteq> given k))"
proof (cases a)
  case (RunFunctor ans)
  show ?thesis
  proof (cases "cpending k")
    case (Cons f fs)
    show ?thesis
    proof (cases f)
      case RunStart
      then have "startInLoop True ans (k\<lparr>cpending := fs\<rparr>) = Inr k'" using run RunFunctor Cons by simp
      from start_under_way [OF this] show ?thesis using a(1) RunFunctor stop en Cons by auto
    next
      case ResetChannel
      then show ?thesis
        using run RunFunctor Cons stop en before by (auto simp: resetChannel_def under_way_def)
    qed (use stop Cons in simp)
  qed (use run RunFunctor stop en before in auto)
next
  case (RetryTimer i ans)
  show ?thesis
  proof (cases "i < length (retries k)")
    case True
    then have "startInLoop True ans (k\<lparr>retries := take i (retries k) @ drop (Suc i) (retries k)\<rparr>) = Inr k'"
      using run RetryTimer by simp
    from start_under_way [OF this] show ?thesis using a(1) RetryTimer stop en by auto
  qed (use run RetryTimer stop en before in auto)
next
  case (Writable err l q)
  show ?thesis
  proof (cases "cstate k = CConnecting")
    case True
    have cb: "newConnectionCallback k" using inv(1) by (simp add: connector_inv_def sockets_inv_def)
    obtain fd k1 where k1: "removeAndResetChannel k = Inr (fd, k1)"
      using run Writable True by (auto simp: handleWrite_def rbind_Inr_iff)
    then have f: "enableConnect k1" "RunStop \<notin> set (cpending k1)" "newConnectionCallback k1" "given k1 = given k"
      using stop en cb by (auto simp: removeAndResetChannel_def queue_functor_def split: option.splits)
    show ?thesis
      using run Writable True k1 f
      by (auto simp: handleWrite_def under_way_def Let_def split: if_splits)
  qed (use run Writable stop en before in \<open>auto simp: handleWrite_def cassert_Inr_iff\<close>)
qed (use a(3) in simp_all)

lemma newConnection_fields:
  assumes "client_newConnection u p junk fd s = Inr s'"
  shows "connection s' = Some p \<and> clConnector s' = clConnector s \<and> clRetry s' = clRetry s \<and> clEnableConnect s' = clEnableConnect s"
  using assms by (auto simp: client_newConnection_def rbind_Inr_iff Let_def set_ccbody_def split: if_splits)

lemma newConnections_fields:
  assumes "rfold (client_newConnection u p junk) fds s = Inr s'"
  shows "(if fds = [] then s' = s else connection s' = Some p) \<and> clConnector s' = clConnector s \<and>
    clRetry s' = clRetry s \<and> clEnableConnect s' = clEnableConnect s"
  using assms
proof (induction fds arbitrary: s)
  case (Cons fd fds)
  then obtain s1 where s1: "client_newConnection u p junk fd s = Inr s1" "rfold (client_newConnection u p junk) fds s1 = Inr s'"
    by (auto simp: rbind_Inr_iff)
  from Cons.IH [OF s1(2)] newConnection_fields [OF s1(1)] show ?case by (auto split: if_splits)
qed simp

lemma trying_step:
  assumes inv: "client_inv s" and u: "user_ok u" and t: "trying s" and a: "client_legal a s" "persistent a"
    and run: "client_exec u a s = Inr s'"
  shows "trying s'"
proof (cases a)
  case (CConnect inLoop ans)
  then show ?thesis using a(1) t by (auto simp: trying_def under_way_def split: if_splits)
next
  case (CLoop x p junk)
  have x: "legal x (clConnector s)" "case x of RunFunctor _ \<Rightarrow> True | RetryTimer _ _ \<Rightarrow> True | Writable _ _ _ \<Rightarrow> True | _ \<Rightarrow> False"
    using a(1) CLoop by auto
  obtain k where k: "connector_exec x (clConnector s) = Inr k"
    and new: "rfold (client_newConnection u p junk) (drop (length (given (clConnector s))) (given k)) (s\<lparr>clConnector := k\<rparr>) = Inr s'"
    using run CLoop client_invD(3) [OF inv] by (auto simp: connector_run_def rbind_Inr_iff)
  note f = newConnections_fields [OF new]
  have w: "enableConnect k \<and> RunStop \<notin> set (cpending k) \<and>
      (under_way k \<or> cstate k = CConnected \<and> (cstate (clConnector s) = CConnected \<or> given k \<noteq> given (clConnector s)))"
    by (rule connector_under_way [OF client_invD(1,2) [OF inv] _ _ _ x k]) (use t a(2) CLoop in \<open>auto simp: trying_def\<close>)
  have "connection s' \<noteq> None" if "cstate k = CConnected" "\<not> under_way k"
  proof (cases "given k = given (clConnector s)")
    case True
    then have "cstate (clConnector s) = CConnected" using w that(2) by blast
    then have "connection s \<noteq> None" using t by (auto simp: trying_def under_way_def)
    then show ?thesis using f True by simp
  next
    case False
    then obtain fd where "given k = given (clConnector s) @ [fd]"
      using connector_exec_fwd [OF k] by (auto simp: connector_fwd_def)
    then show ?thesis using f by simp
  qed
  then show ?thesis using f t w by (auto simp: trying_def)
next
  case (CConn p x ans)
  obtain c where c: "clConns s p = Some c" "\<not> ccgone c" "act_ok x (ccbody c)"
    using a(1) CConn by (auto split: option.splits)
  obtain b where b: "conn_exec (user_callbacks u) x (ccbody c) = Inr b"
    and cl: "rfold (\<lambda>_. client_closed (ccdetached c) ans p) (replicate (closes b - closes (ccbody c)) ()) (set_ccbody p b s) = Inr s'"
    using run CConn c(1) by (auto simp: rbind_Inr_iff)
  have fields: "clRetry (set_ccbody p b s) = clRetry s" "clEnableConnect (set_ccbody p b s) = clEnableConnect s"
    "clConnector (set_ccbody p b s) = clConnector s" "connection (set_ccbody p b s) = connection s"
    by (simp_all add: set_ccbody_def)
  have diff: "closes b - closes (ccbody c) = 0 \<or> closes b - closes (ccbody c) = 1"
    using client_act_body [OF inv u c] b by (auto split: if_splits)
  show ?thesis
  proof (cases "closes b - closes (ccbody c) = 0")
    case True
    then show ?thesis using cl t fields by (simp add: trying_def)
  next
    case False
    have "client_closed (ccdetached c) = client_removeConnection"
      using client_invD(6) [OF inv c(1)] by (auto simp: client_stage_def client_closed_def fun_eq_iff)
    then have one: "client_removeConnection ans p (set_ccbody p b s) = Inr s'" using cl diff False by (auto simp: rbind_Inr_iff)
    then obtain k where k: "restart True ans (clConnector s) = Inr k" "clConnector s' = k" "clRetry s'" "clEnableConnect s'"
      using t fields by (auto simp: client_removeConnection_def Let_def result_iffs trying_def)
    then have "under_way k \<and> enableConnect k \<and> cpending k = cpending (clConnector s)"
      using start_under_way [of True ans _ k] a(2) CConn by (fastforce simp: restart_def)
    then show ?thesis using k t by (simp add: trying_def)
  qed
next
  case CDestroy
  then show ?thesis
    using run t by (cases "clDestroys s") (auto simp: client_destroyed_def result_iffs trying_def)
qed (use run t a(2) in \<open>auto simp: trying_def enableRetry_def client_setWriteCompleteCallback_def\<close>)

definition keeps_on :: "client_act \<Rightarrow> client \<Rightarrow> bool" where
  "keeps_on a s \<longleftrightarrow> client_legal a s \<and> persistent a"

interpretation mc: legal_system "client_exec u" keeps_on "\<lambda>s. user_ok u \<and> client_inv s \<and> trying s" "\<lambda>e. e = LengthError"
  for u :: user_prog
proof
  fix s a
  assume s: "user_ok u \<and> client_inv s \<and> trying s" and a: "keeps_on a s"
  show "case client_exec u a s of Inl e \<Rightarrow> e = LengthError | Inr s' \<Rightarrow> user_ok u \<and> client_inv s' \<and> trying s'"
    using cl.legal_step [of u s a] trying_step [of s u a] s a by (simp add: keeps_on_def split: sum.splits)
qed

lemma main_client_start:
  assumes "main_client ans = Inr s" "hopeful ans"
  shows "client_inv s \<and> trying s"
proof
  let ?s0 = "enableRetry TcpClient"
  have s0: "client_inv ?s0" using client_inv_new by (simp add: enableRetry_def client_inv_def client_stage_def)
  have "client_legal (CConnect True ans) ?s0"
    by (simp add: enableRetry_def TcpClient_def Connector_def Connector.setNewConnectionCallback_def)
  then show "client_inv s"
    using client_step [OF s0 idle_user_ok, of "CConnect True ans"] assms(1) by (simp add: main_client_def)
  obtain k where k: "startInLoop True ans ((clConnector ?s0)\<lparr>enableConnect := True\<rparr>) = Inr k"
      "s = ?s0\<lparr>clEnableConnect := True, clConnector := k\<rparr>"
    using assms(1) by (auto simp: main_client_def client_connect_def start_def Let_def rbind_Inr_iff)
  from start_under_way [OF k(1) assms(2)] show "trying s"
    using k(2) by (simp add: trying_def enableRetry_def TcpClient_def Connector_def Connector.setNewConnectionCallback_def)
qed

text \<open>C8: The client of \<open>main\<close> never gives up: as long as \<open>connect\<close> does not fail for good, in every history the client has a
  connection that is up, or its connector waits for a socket to become writable, for a retry or for its queued start.
  It fails no assertion on the way.\<close>

theorem client_never_gives_up:
  assumes "user_ok u" and "main_client ans = Inr s0" and "hopeful ans" and "legal_run (client_exec u) keeps_on as s0"
  shows "case rfold (client_exec u) as s0 of
      Inl e \<Rightarrow> e = LengthError
    | Inr s \<Rightarrow>
        (\<exists>p c. connection s = Some p \<and> clConns s p = Some c \<and> up (state (ccbody c))) \<or>
        (cstate (clConnector s) = CConnecting \<and> cchannel (clConnector s) \<noteq> None) \<or>
        (cstate (clConnector s) = CDisconnected \<and> enableConnect (clConnector s) \<and>
          (retries (clConnector s) \<noteq> [] \<or> RunStart \<in> set (cpending (clConnector s))))"
proof (cases "rfold (client_exec u) as s0")
  case (Inl e)
  then show ?thesis using mc.history [of u s0 as] main_client_start [OF assms(2,3)] assms(1,4) by simp
next
  case (Inr s)
  have s: "client_inv s" "trying s"
    using mc.history [of u s0 as] main_client_start [OF assms(2,3)] assms(1,4) Inr by simp_all
  have "\<exists>c. clConns s p = Some c \<and> up (state (ccbody c))" if p: "connection s = Some p" for p
  proof -
    obtain c where c: "clConns s p = Some c" using client_invD(4) [OF s(1) p] by auto
    then have "state (ccbody c) \<noteq> KConnecting" "state (ccbody c) \<noteq> KDisconnected"
      using client_invD(6) [OF s(1) c] p by (auto simp: client_stage_def)
    then show ?thesis using c by (cases "state (ccbody c)") auto
  qed
  moreover have "cstate (clConnector s) = CConnecting \<Longrightarrow> cchannel (clConnector s) \<noteq> None"
    using client_invD(1) [OF s(1)] by (simp add: connector_inv_def channel_inv_def)
  ultimately show ?thesis using s(2) Inr by (auto simp: trying_def under_way_def)
qed

theorem client_never_gives_up_witness:
  "\<exists>s0 s. main_client (5, 115) = Inr s0 \<and> rfold (client_exec idle_user) [CLoop (Writable 111 (1, 2) (3, 4)) 7 0] s0 = Inr s \<and>
     retries (clConnector s) \<noteq> []"
proof -
  let ?as = "[CLoop (Writable 111 (1, 2) (3, 4)) 7 0]"
  have "\<exists>s0 s. main_client (5, 115) = Inr s0 \<and> legal_run (client_exec idle_user) keeps_on ?as s0 \<and>
      rfold (client_exec idle_user) ?as s0 = Inr s \<and> connection s = None \<and> cstate (clConnector s) = CDisconnected \<and>
      cpending (clConnector s) = [ResetChannel]"
    by (simp add: main_client_def keeps_on_def client_run)
  then obtain s0 s where s: "main_client (5, 115) = Inr s0" "legal_run (client_exec idle_user) keeps_on ?as s0"
      "rfold (client_exec idle_user) ?as s0 = Inr s" "connection s = None" "cstate (clConnector s) = CDisconnected"
      "cpending (clConnector s) = [ResetChannel]" by blast
  have "hopeful (5, 115)" by (simp add: hopeful_def connect_switch_def connect_errnos)
  from client_never_gives_up [OF idle_user_ok s(1) this s(2)] s have "retries (clConnector s) \<noteq> []" by simp
  then show ?thesis using s(1,3) by blast
qed

section \<open>client.cpp\<close>

text \<open>\<open>startClient\<close>, with the answers of \<open>socket\<close>, \<open>connect\<close>, \<open>send\<close> and \<open>recv\<close> (its result and the bytes it stored). The
  result, the descriptors closed, and what is printed of \<open>recvBuf\<close>: a C string, read up to the
  first zero of an array of 32.\<close>

definition SEND_DATA :: string where "SEND_DATA = ''helloworld''"

definition c_string :: "byte list \<Rightarrow> byte list result" where
  "c_string xs = (if 0 \<in> set xs then Inr (takeWhile (\<lambda>b. b \<noteq> 0) xs) else Inl Undefined)"

definition startClient :: "int \<Rightarrow> int \<Rightarrow> int \<Rightarrow> int \<Rightarrow> byte list \<Rightarrow> (int \<times> int list \<times> byte list) result" where
  "startClient clientFd connected sent received bytes =
     (if clientFd = - 1 then Inr (- 1, [], [])
      else if connected = - 1 then Inr (- 1, [], [])
      else if sent mod 2 ^ 64 \<noteq> int (length SEND_DATA) then Inr (- 1, [], [])
      else let recvBuf = (if received > 0 then bytes @ replicate (32 - length bytes) 0 else replicate 32 0)
           in rbind (c_string recvBuf) (\<lambda>s. Inr (0, [clientFd], s)))"

text \<open>It closes its socket exactly when it succeeds, so each failure after \<open>socket\<close> leaks it; an answer of 32
  bytes without a zero is printed beyond the end of the array.\<close>

lemma startClient_leaks:
  assumes "clientFd \<noteq> - 1" and "startClient clientFd connected sent received bytes = Inr (r, cs, out)"
  shows "cs = (if r = 0 then [clientFd] else [])"
  using assms by (auto simp: startClient_def result_iffs Let_def split: if_splits)

lemma startClient_overrun:
  assumes "clientFd \<noteq> - 1" "connected \<noteq> - 1" "length bytes = 32" "0 \<notin> set bytes"
  shows "startClient clientFd connected 10 32 bytes = Inl Undefined"
  using assms by (simp add: startClient_def SEND_DATA_def c_string_def)

section \<open>logic.cpp\<close>

text \<open>\<open>Logic::Exec\<close> in the thread printed as \<open>tid\<close>: the result, the seconds slept and the lines printed.\<close>

datatype Cmd = Cmd1 | Cmd2 | CmdDef

definition cmd_name :: "Cmd \<Rightarrow> string" where
  "cmd_name c = (case c of Cmd1 \<Rightarrow> ''Cmd1'' | Cmd2 \<Rightarrow> ''Cmd2'' | CmdDef \<Rightarrow> ''CmdDef'')"

definition cmd_Exec :: "string \<Rightarrow> Cmd \<Rightarrow> string \<Rightarrow> bool \<times> string" where
  "cmd_Exec tid c params = (True, ''['' @ cmd_name c @ ''::Exec] Thread ID: '' @ tid @ '', params:'' @ params)"

definition Logic_Exec :: "string \<Rightarrow> string \<Rightarrow> bool \<times> nat \<times> string list" where
  "Logic_Exec tid params =
     (if params = [] then (False, 0, [''[Logic::Exec] params.empty error''])
      else let (c, sec) = (if hd params = CHR ''1'' then (Cmd1, 1) else if hd params = CHR ''2'' then (Cmd2, 2) else (CmdDef, 3));
               (ret, line) = cmd_Exec tid c params
           in (ret, sec, [line]))"

lemma Logic_Exec_spec:
  "fst (Logic_Exec tid params) \<longleftrightarrow> params \<noteq> []" "fst (snd (Logic_Exec tid params)) \<le> 3"
  "fst (snd (Logic_Exec tid params)) = 0 \<longleftrightarrow> params = []"
  by (auto simp: Logic_Exec_def cmd_Exec_def)

end
