(* ===== verification/Teardown.thy ===== *)
theory Teardown
  imports Event_Loop Tcp_Server
begin

text \<open>
  The destructors: \<open>~EventLoop\<close> with those of its members (\<open>net/Eventloop.cpp\<close>, \<open>net/TimerQueue.cpp\<close>,
  \<open>net/poller/EpollPoller.cpp\<close>), \<open>~EventLoopThread\<close>, and those of the server and the acceptor. Members are
  destroyed in the reverse order of their declaration.
\<close>

section \<open>The loop\<close>

text \<open>\<open>~TimerQueue\<close>, then its member \<open>timefdChannel_\<close>; with the descriptor closed. The timers still in
  \<open>timers_\<close> are not deleted.\<close>

definition TimerQueue_delete :: "bool \<Rightarrow> int \<Rightarrow> nat \<Rightarrow> 'u evloop \<Rightarrow> ('u evloop \<times> int) result" where
  "TimerQueue_delete inLoop timefd pt s =
     rbind (loop_updateChannel inLoop DisableAllEvent pt s) (\<lambda>s1.
     rbind (loop_removeChannel inLoop pt s1) (\<lambda>s2.
     rbind (channel_delete pt (chan_heap s2)) (\<lambda>h. Inr (s2\<lparr>chan_heap := h\<rparr>, timefd))))"

text \<open>\<open>~EpollPoller\<close> closes its descriptor, \<open>~PollPoller\<close> has none.\<close>

fun poller_delete :: "int \<Rightarrow> poller \<Rightarrow> int list" where
  "poller_delete epollfd (EpollP e) = [epollfd]"
| "poller_delete epollfd (PollP e) = []"

text \<open>\<open>~EventLoop\<close>, then \<open>pendingFunctors_\<close>, \<open>wakeupChannel_\<close>, \<open>timerQueue_\<close> and \<open>poller_\<close>; with the
  descriptors closed, in order.\<close>

definition EventLoop_delete ::
    "bool \<Rightarrow> int \<Rightarrow> int \<Rightarrow> int \<Rightarrow> nat \<Rightarrow> nat \<Rightarrow> 'u evloop \<Rightarrow> ('u evloop \<times> int list) result" where
  "EventLoop_delete inLoop epollfd timefd wakeupFd pt pw s =
     rbind (loop_updateChannel inLoop DisableAllEvent pw s) (\<lambda>s1.
     rbind (loop_removeChannel inLoop pw s1) (\<lambda>s2.
     rbind (channel_delete pw (chan_heap s2)) (\<lambda>h.
     rbind (TimerQueue_delete inLoop timefd pt (s2\<lparr>pending := [], chan_heap := h\<rparr>)) (\<lambda>(s3, fd).
       Inr (s3, [wakeupFd, fd] @ poller_delete epollfd (poller s3))))))"

text \<open>What a history of the loop leaves alone: the channels but for the events last received, the poller but for
  the room and the results of a poll.\<close>

definition quiet :: "(nat \<rightharpoonup> 'cb channel) \<Rightarrow> (nat \<rightharpoonup> 'cb channel)" where
  "quiet h p = map_option (SetReceiveEvent 0) (h p)"

fun poller_shape :: "poller \<Rightarrow> poller" where
  "poller_shape (EpollP e) = EpollP (e\<lparr>evlist_size := 0\<rparr>)"
| "poller_shape (PollP e) = PollP (e\<lparr>pollfds := map (\<lambda>s. s\<lparr>pfd_revents := 0\<rparr>) (pollfds e)\<rparr>)"

definition loop_shape :: "'u evloop \<Rightarrow> (nat \<rightharpoonup> 'u handler channel) \<times> poller" where
  "loop_shape s = (quiet (chan_heap s), poller_shape (poller s))"

definition resting :: "(nat \<rightharpoonup> 'cb channel) \<Rightarrow> bool" where
  "resting h \<longleftrightarrow> (\<forall>p c. h p = Some c \<longrightarrow> \<not> eventHandling c)"

lemma resting_of_quiet: "resting (quiet h) \<longleftrightarrow> resting h"
proof -
  have "(\<forall>c. quiet h p = Some c \<longrightarrow> \<not> eventHandling c) \<longleftrightarrow> (\<forall>c. h p = Some c \<longrightarrow> \<not> eventHandling c)" for p
    by (cases "h p") (simp_all add: quiet_def SetReceiveEvent_def)
  then show ?thesis by (simp add: resting_def)
qed

lemma resting_quiet: "quiet h' = quiet h \<Longrightarrow> resting h \<Longrightarrow> resting h'"
  by (metis resting_of_quiet)

lemma quiet_receive [simp]: "h p = Some c \<Longrightarrow> quiet (h(p \<mapsto> SetReceiveEvent ev c)) = quiet h"
  by (auto simp: quiet_def SetReceiveEvent_def)

lemma quiet_handled [simp]:
  assumes "resting h"
  shows "quiet (set_handling p False (set_handling p True h)) = quiet h"
proof
  fix q
  have "c\<lparr>eventHandling := False\<rparr> = c" if "h q = Some c" for c
  proof -
    have "eventHandling c = False" using assms that by (simp add: resting_def)
    then show ?thesis by (cases c) simp
  qed
  then show "quiet (set_handling p False (set_handling p True h)) q = quiet h q"
    by (cases "h q") (auto simp: quiet_def set_handling_def)
qed

lemma epoll_fill_quiet: "epoll_fillActiveChannels evs h = Inr (as, h') \<Longrightarrow> quiet h' = quiet h"
proof (induction evs arbitrary: h as)
  case (Cons x evs)
  obtain ev p where x: "x = (ev, p)" by fastforce
  then obtain c bs where "h p = Some c" "epoll_fillActiveChannels evs (h(p \<mapsto> SetReceiveEvent ev c)) = Inr (bs, h')"
    using Cons.prems by (auto simp: result_iffs)
  then show ?case using Cons.IH by fastforce
qed simp

lemma poll_fill_quiet: "poll_fillActiveChannels n pfds chs h = Inr (as, h') \<Longrightarrow> quiet h' = quiet h"
proof (induction n pfds chs h arbitrary: as rule: poll_fillActiveChannels.induct)
  case (2 n s pfds chs h)
  show ?case
  proof (cases "n > 0 \<and> sint (pfd_revents s) > 0")
    case True
    then obtain p c bs where "chs (pfd_fd s) = Some p" "h p = Some c"
      "poll_fillActiveChannels (n - 1) pfds chs (h(p \<mapsto> SetReceiveEvent (scast (pfd_revents s)) c)) = Inr (bs, h')"
      using 2(3) by (auto simp: result_iffs split: option.splits)
    then show ?thesis using 2(1) [of p c bs] True by fastforce
  next
    case False
    then show ?thesis using 2 by (cases "n > 0") auto
  qed
qed simp

lemma poller_poll_shape:
  assumes "poller_poll env h po = Inr (as, h', po')" and "kernel_ok env po"
  shows "quiet h' = quiet h \<and> poller_shape po' = poller_shape po"
proof (cases po)
  case (EpollP e)
  then show ?thesis
    using assms(1) by (auto simp: epoll_poll_def result_iffs dest: epoll_fill_quiet split: if_splits)
next
  case (PollP e)
  have "map (\<lambda>s. s\<lparr>pfd_revents := 0\<rparr>) (map2 (\<lambda>s r. s\<lparr>pfd_revents := r\<rparr>) (pollfds e) (env_revents env)) =
      map (\<lambda>s. s\<lparr>pfd_revents := 0\<rparr>) (pollfds e)"
    using assms(2) PollP by (auto simp: list_eq_iff_nth_eq)
  then show ?thesis
    using assms(1) PollP by (auto simp: poll_poll_def Let_def result_iffs dest: poll_fill_quiet split: if_splits)
qed

lemma handle_active_shape:
  assumes "handle_active env p s = Inr s'" and "resting (chan_heap s)"
  shows "loop_shape s' = loop_shape s"
proof (cases "chan_heap s p")
  case None
  then show ?thesis using assms(1) by (simp add: handle_active_def HandleEvent_def)
next
  case (Some c)
  let ?s = "chan_heap_update (set_handling p True) s"
  obtain t where t: "rfold (exec_handler env) (due_callbacks c) ?s = Inr t" "s' = chan_heap_update (set_handling p False) t"
    using assms(1) ch.HandleEvent_eq [of s p c env, OF Some] by (auto simp: handle_active_def rbind_Inr_iff)
  have "loop_frame t = loop_frame ?s"
    by (rule rfold_same [where f = "exec_handler env" and m = loop_frame, OF _ t(1)]) (rule exec_handler_frame)
  then show ?thesis using t(2) assms(2) by (simp add: loop_shape_def loop_frame_def)
qed

lemma handle_actives_shape:
  assumes "rfold (handle_active env) ps s = Inr s'" and "resting (chan_heap s)"
  shows "loop_shape s' = loop_shape s"
proof -
  have "loop_shape s' = loop_shape s \<and> resting (chan_heap s')"
  proof (rule rfold_inv [where I = "\<lambda>_ t. loop_shape t = loop_shape s \<and> resting (chan_heap t)", OF assms(1)])
    fix p ps t t'
    assume t: "loop_shape t = loop_shape s \<and> resting (chan_heap t)" and "handle_active env p t = Inr t'"
    then have "loop_shape t' = loop_shape t" using handle_active_shape by blast
    then show "loop_shape t' = loop_shape s \<and> resting (chan_heap t')"
      using t resting_quiet [of "chan_heap t'" "chan_heap t"] by (simp add: loop_shape_def)
  qed (use assms(2) in simp)
  then show ?thesis ..
qed

lemma exec_functor_frame: "exec_functor env f s = Inr s' \<Longrightarrow> loop_frame s' = loop_frame s"
  by (cases f) (auto intro: loop_frame_more dest: run_user_frame addTimerInLoop_more cancelInLoop_more)

lemma loop_shape_queue [simp]: "loop_shape (queueInLoop b f s) = loop_shape s"
  by (simp add: loop_shape_def queueInLoop_def wakeup_def Let_def)

lemma loop_shape_more: "tqueue.more s' = tqueue.more s \<Longrightarrow> loop_shape s' = loop_shape s"
  by (simp add: loop_shape_def evloop_more [of s' s])

lemma loop_exec_shape:
  assumes "loop_exec x s = Inr s'" and "input_ok x s" and "ev_inv s" and "resting (chan_heap s)"
  shows "loop_shape s' = loop_shape s"
proof (cases x)
  case (Turn env)
  obtain as h po t where p: "poller_poll env (chan_heap s) (poller s) = Inr (as, h, po)"
    and t: "rfold (handle_active env) as (s\<lparr>activeChanels := as, chan_heap := h, poller := po\<rparr>) = Inr t"
    and e: "handlePendingFunctors env t = Inr s'"
    using assms(1) Turn by (auto simp: loop_body_def rbind_Inr_iff)
  have h: "quiet h = quiet (chan_heap s)" "poller_shape po = poller_shape (poller s)"
    using poller_poll_shape [OF p] assms(2) Turn by simp_all
  have "loop_shape t = loop_shape (s\<lparr>activeChanels := as, chan_heap := h, poller := po\<rparr>)"
    by (rule handle_actives_shape [OF t]) (simp add: resting_quiet [OF h(1) assms(4)])
  moreover have "loop_shape s' = loop_shape t"
  proof -
    obtain v where v: "rfold (exec_functor env) (pending t) (t\<lparr>callingPending := True, pending := []\<rparr>) = Inr v"
        "s' = v\<lparr>callingPending := False\<rparr>"
      using e by (auto simp: handlePendingFunctors_def rbind_Inr_iff)
    have "loop_frame v = loop_frame (t\<lparr>callingPending := True, pending := []\<rparr>)"
      by (rule rfold_same [where f = "exec_functor env" and m = loop_frame, OF _ v(1)]) (rule exec_functor_frame)
    then show ?thesis using v(2) by (simp add: loop_frame_def loop_shape_def)
  qed
  ultimately show ?thesis using h by (simp add: loop_shape_def)
next
  case (OtherAddTimer p cb expir iv)
  then show ?thesis
    using assms(1) by (auto simp: other_addTimer_def rbind_Inr_iff dest!: new_timer_more intro: loop_shape_more)
qed (use assms(1) in auto)

text \<open>So the loop's own two channels keep their registration in every history.\<close>

interpretation shape: legal_system loop_exec input_ok
  "\<lambda>s. ev_inv s \<and> resting (chan_heap s) \<and> loop_shape s = sh" "\<lambda>e. e = BadAlloc"
proof
  fix s x
  assume s: "ev_inv s \<and> resting (chan_heap s) \<and> loop_shape s = sh" and x: "input_ok x s"
  show "case loop_exec x s of Inl e \<Rightarrow> e = BadAlloc
      | Inr s' \<Rightarrow> ev_inv s' \<and> resting (chan_heap s') \<and> loop_shape s' = sh"
  proof (cases "loop_exec x s")
    case (Inr s')
    then have "loop_shape s' = loop_shape s" using loop_exec_shape [OF Inr x] s by blast
    then show ?thesis
      using el.legal_step [of s x] s x Inr resting_quiet [of "chan_heap s'" "chan_heap s"] by (simp add: loop_shape_def)
  qed (use el.legal_step [of s x] s x in simp)
qed

definition own_channel :: "int \<Rightarrow> 'u handler \<Rightarrow> 'u handler channel" where
  "own_channel fd cb = \<lparr>m_socketFd = fd, rEvents = 0, events = KReadEvent, inPollerStatus = KAdded,
     readCallback = Some cb, writeCallback = None, closeCallback = None, eventHandling = False\<rparr>"

definition own_poller :: "string option \<Rightarrow> int \<Rightarrow> int \<Rightarrow> nat \<Rightarrow> nat \<Rightarrow> poller" where
  "own_poller pollerType tfd wfd pt pw =
     (if pollerType = Some ''Poll''
      then PollP \<lparr>pchannels = [tfd \<mapsto> pt, wfd \<mapsto> pw],
        pollfds = [\<lparr>pfd_fd = tfd, pfd_events = ucast KReadEvent, pfd_revents = 0\<rparr>,
                   \<lparr>pfd_fd = wfd, pfd_events = ucast KReadEvent, pfd_revents = 0\<rparr>],
        fdInpollfdsIdx = [tfd \<mapsto> 0, wfd \<mapsto> 1]\<rparr>
      else EpollP \<lparr>channels = [tfd \<mapsto> pt, wfd \<mapsto> pw], evlist_size = 0,
        ctl = [(EPOLL_CTL_ADD, tfd, KReadEvent, pt), (EPOLL_CTL_ADD, wfd, KReadEvent, pw)]\<rparr>)"

lemma new_loop_shape:
  assumes "timefd \<noteq> wakeupFd" "pt \<noteq> pw" and "EventLoop pollerType timefd wakeupFd pt pw = Inr s"
  shows "loop_shape s = ([pt \<mapsto> own_channel timefd HTimer, pw \<mapsto> own_channel wakeupFd HWakeup],
      own_poller pollerType timefd wakeupFd pt pw) \<and> resting (chan_heap s)"
  using assms
  by (auto simp: EventLoop_def NewDefaultPoller_def loop_updateChannel_def SetReadCallback_def run_pollers
      tqueue.defs evloop.defs loop_shape_def own_channel_def own_poller_def quiet_def SetReceiveEvent_def resting_def
      fun_eq_iff split: if_splits)

lemma own_channels:
  assumes "quiet h = [pt \<mapsto> own_channel tfd f, pw \<mapsto> own_channel wfd g]" "pt \<noteq> pw"
  obtains rt rw where "h = [pt \<mapsto> SetReceiveEvent rt (own_channel tfd f), pw \<mapsto> SetReceiveEvent rw (own_channel wfd g)]"
proof -
  have q: "quiet h p = ([pt \<mapsto> own_channel tfd f, pw \<mapsto> own_channel wfd g]) p" for p using assms(1) by simp
  have "\<exists>r. h p = Some (SetReceiveEvent r c)" if c: "quiet h p = Some c" for p c
  proof -
    obtain d where "h p = Some d" "c = SetReceiveEvent 0 d" using c by (auto simp: quiet_def)
    then have "h p = Some (SetReceiveEvent (rEvents d) c)" by (simp add: SetReceiveEvent_def)
    then show ?thesis ..
  qed
  then obtain rt rw where r: "h pt = Some (SetReceiveEvent rt (own_channel tfd f))" "h pw = Some (SetReceiveEvent rw (own_channel wfd g))"
    using q [of pt] q [of pw] assms(2) by (auto; fastforce)
  have "h p = None" if "p \<noteq> pt" "p \<noteq> pw" for p using q [of p] that by (simp add: quiet_def)
  then have "h = [pt \<mapsto> SetReceiveEvent rt (own_channel tfd f), pw \<mapsto> SetReceiveEvent rw (own_channel wfd g)]"
    using r assms(2) by (auto simp: fun_eq_iff)
  then show ?thesis by (rule that)
qed

fun poller_watched :: "poller \<Rightarrow> int \<Rightarrow> (events \<times> nat) option" where
  "poller_watched (EpollP e) = epoll_watched e"
| "poller_watched (PollP e) = poll_watched e"

lemma epoller_eta: "e\<lparr>evlist_size := 0\<rparr> = \<lparr>channels = m, evlist_size = 0, ctl = cs\<rparr> \<Longrightarrow> e = \<lparr>channels = m, evlist_size = evlist_size e, ctl = cs\<rparr>"
  by (cases e) simp

lemma slot_eta:
  "x\<lparr>pfd_revents := 0\<rparr> = \<lparr>pfd_fd = f, pfd_events = v, pfd_revents = 0\<rparr> \<Longrightarrow>
     x = \<lparr>pfd_fd = f, pfd_events = v, pfd_revents = pfd_revents x\<rparr>"
  by (cases x) simp

text \<open>The destructor on any loop that looks like this.\<close>

lemma delete_own:
  assumes fds: "0 \<le> tfd" "0 \<le> wfd" "tfd \<noteq> wfd" "pt \<noteq> pw"
    and s: "loop_shape s = ([pt \<mapsto> own_channel tfd HTimer, pw \<mapsto> own_channel wfd HWakeup], own_poller pollerType tfd wfd pt pw)"
  shows "\<exists>d. EventLoop_delete True epollfd tfd wfd pt pw s =
      Inr (d, [wfd, tfd] @ (if pollerType = Some ''Poll'' then [] else [epollfd])) \<and>
    chan_heap d = Map.empty \<and> poller_channels (poller d) = Map.empty \<and> poller_watched (poller d) = Map.empty \<and>
    timer_heap d = timer_heap s"
proof -
  obtain rt rw where h: "chan_heap s = [pt \<mapsto> SetReceiveEvent rt (own_channel tfd HTimer),
      pw \<mapsto> SetReceiveEvent rw (own_channel wfd HWakeup)]"
    using own_channels [of "chan_heap s" pt tfd HTimer pw wfd HWakeup] s fds(4) by (auto simp: loop_shape_def)
  note run = EventLoop_delete_def TimerQueue_delete_def loop_updateChannel_def loop_removeChannel_def channel_delete_def
    run_pollers h own_channel_def SetReceiveEvent_def fun_upd_twist
  show ?thesis
  proof (cases "pollerType = Some ''Poll''")
    case False
    then obtain n where e: "poller s = EpollP \<lparr>channels = [tfd \<mapsto> pt, wfd \<mapsto> pw], evlist_size = n,
        ctl = [(EPOLL_CTL_ADD, tfd, KReadEvent, pt), (EPOLL_CTL_ADD, wfd, KReadEvent, pw)]\<rparr>"
      using s epoller_eta by (cases "poller s") (auto simp: loop_shape_def own_poller_def)
    show ?thesis using False fds by (simp add: run e epoll_watched_def ctl_replay_def fun_eq_iff)
  next
    case True
    then obtain e0 where e0: "poller s = PollP e0" "poller_shape (PollP e0) = own_poller pollerType tfd wfd pt pw"
      using s by (cases "poller s") (auto simp: loop_shape_def own_poller_def)
    obtain x y where xy: "pollfds e0 = [x, y]" "x\<lparr>pfd_revents := 0\<rparr> = \<lparr>pfd_fd = tfd, pfd_events = ucast KReadEvent, pfd_revents = 0\<rparr>"
        "y\<lparr>pfd_revents := 0\<rparr> = \<lparr>pfd_fd = wfd, pfd_events = ucast KReadEvent, pfd_revents = 0\<rparr>"
        "pchannels e0 = [tfd \<mapsto> pt, wfd \<mapsto> pw]" "fdInpollfdsIdx e0 = [tfd \<mapsto> 0, wfd \<mapsto> 1]"
      using e0(2) True by (cases e0) (auto simp: own_poller_def)
    have e: "poller s = PollP \<lparr>pchannels = [tfd \<mapsto> pt, wfd \<mapsto> pw],
        pollfds = [\<lparr>pfd_fd = tfd, pfd_events = ucast KReadEvent, pfd_revents = pfd_revents x\<rparr>,
                   \<lparr>pfd_fd = wfd, pfd_events = ucast KReadEvent, pfd_revents = pfd_revents y\<rparr>],
        fdInpollfdsIdx = [tfd \<mapsto> 0, wfd \<mapsto> 1]\<rparr>"
      using e0(1) xy slot_eta by (cases e0) fastforce
    show ?thesis using True fds by (simp add: run e poll_watched_def fun_eq_iff)
  qed
qed

text \<open>C16: A loop can be destroyed after any history: \<open>~EventLoop\<close> and the destructors of its members, in its own
  thread, fail no assertion with either poller, close each descriptor once, and leave no channel known, watched or alive. Timers that
  are still scheduled, or whose insertion is still queued, are never freed. From another thread the destructor ends the
  process.\<close>

theorem event_loop_destroyed:
  assumes "0 \<le> timefd" "0 \<le> wakeupFd" "timefd \<noteq> wakeupFd" "pt \<noteq> pw"
    and "EventLoop pollerType timefd wakeupFd pt pw = Inr s0" and "inputs_ok xs s0" and "rfold loop_exec xs s0 = Inr s"
  shows "(\<exists>d. EventLoop_delete True epollfd timefd wakeupFd pt pw s =
        Inr (d, [wakeupFd, timefd] @ (if pollerType = Some ''Poll'' then [] else [epollfd])) \<and>
      chan_heap d = Map.empty \<and> poller_channels (poller d) = Map.empty \<and> poller_watched (poller d) = Map.empty \<and>
      timer_heap d = timer_heap s) \<and>
    EventLoop_delete False epollfd timefd wakeupFd pt pw s = Inl ProcessExit"
proof
  have "ev_inv s0" by (rule EventLoop_inv [OF assms(1-5)])
  then have "loop_shape s = loop_shape s0"
    using shape.history [where s = s0 and as = xs and sh = "loop_shape s0"] new_loop_shape [OF assms(3-5)] assms(6,7) by simp
  then have s: "loop_shape s = ([pt \<mapsto> own_channel timefd HTimer, pw \<mapsto> own_channel wakeupFd HWakeup],
      own_poller pollerType timefd wakeupFd pt pw)" using new_loop_shape [OF assms(3-5)] by simp
  from delete_own [OF assms(1-4) s] show "\<exists>d. EventLoop_delete True epollfd timefd wakeupFd pt pw s =
        Inr (d, [wakeupFd, timefd] @ (if pollerType = Some ''Poll'' then [] else [epollfd])) \<and>
      chan_heap d = Map.empty \<and> poller_channels (poller d) = Map.empty \<and> poller_watched (poller d) = Map.empty \<and>
      timer_heap d = timer_heap s" .
  have "quiet (chan_heap s) pw = Some (own_channel wakeupFd HWakeup)" using s by (simp add: loop_shape_def)
  then obtain c where "chan_heap s pw = Some c" by (auto simp: quiet_def)
  then show "EventLoop_delete False epollfd timefd wakeupFd pt pw s = Inl ProcessExit"
    by (cases "poller s") (simp_all add: EventLoop_delete_def loop_updateChannel_def channel_interest_def
        epoll_updateChannel_def poll_updateChannel_def)
qed

theorem event_loop_destroyed_witness:
  "\<exists>s d. rfold loop_exec [OtherQueue 7, Turn (quiet_env [(1, 2)] 5)] new_loop = Inr s \<and>
     EventLoop_delete True 9 3 4 1 2 s = Inr (d, [4, 3, 9]) \<and> chan_heap d = Map.empty"
proof -
  let ?xs = "[OtherQueue 7, Turn (quiet_env [(1, 2)] 5)]"
  have s: "EventLoop None 3 4 1 2 = Inr new_loop" by (simp add: run_loop)
  have ok: "inputs_ok ?xs new_loop"
    by (simp add: run_loop epoll_watched_def ctl_replay_def exI [of _ 4] split: sum.splits)
  have "\<exists>t. rfold loop_exec ?xs new_loop = Inr t"
    by (simp add: run_loop)
  then obtain t where t: "rfold loop_exec ?xs new_loop = Inr t" by blast
  from event_loop_destroyed [OF _ _ _ _ s ok t, of 9] t show ?thesis by auto
qed

section \<open>The server\<close>

text \<open>The functors queued to a loop hold their connection.\<close>

definition held :: "server \<Rightarrow> nat \<Rightarrow> bool" where
  "held s p \<longleftrightarrow> list_ex (\<lambda>l. list_ex (\<lambda>f. fptr f = p) (queues s l)) (eventloop s # loops (threadPool s))"

text \<open>The map gives up the connection of one name; if nothing else holds it, it is destroyed.\<close>

definition release_conn :: "string \<Rightarrow> server \<Rightarrow> server result" where
  "release_conn k s =
     (case connections s k of
        None \<Rightarrow> Inr s
      | Some p \<Rightarrow>
          let s' = s\<lparr>connections := (connections s)(k := None)\<rparr>
          in if held s' p then Inr s'
             else deref (conns s') p (\<lambda>c.
               rbind (conn_delete (cbody c)) (\<lambda>_. Inr (s'\<lparr>conns := (conns s')(p := None)\<rparr>))))"

text \<open>\<open>~TcpServer\<close>: its body is empty; \<open>threadPool_\<close> goes first, with its threads - \<open>joins l\<close> says whether the destructor
  of the thread of loop \<open>l\<close> returns, and \<open>None\<close> is that one does not - then \<open>connections_\<close>, with the names in their
  order, and \<open>acceptor_\<close>.\<close>

definition TcpServer_delete :: "(nat \<Rightarrow> bool) \<Rightarrow> string list \<Rightarrow> server \<Rightarrow> server result option" where
  "TcpServer_delete joins names s =
     (if list_all joins (loops (threadPool s))
      then Some (rbind (rfold release_conn names s) (\<lambda>s'.
             cassert (\<not> eventHandling (acceptChannel (acceptor s'))) (Inr s')))
      else None)"

text \<open>A server without threads of its own: everything happens in its base loop, and nothing but
  \<open>ConnectDestoryed\<close> is ever queued.\<close>

fun is_destroy :: "srv_functor \<Rightarrow> bool" where
  "is_destroy (SDestroy p) = True"
| "is_destroy f = False"

definition single_loop :: "server \<Rightarrow> bool" where
  "single_loop s \<longleftrightarrow>
     loops (threadPool s) = [] \<and> baseloop (threadPool s) = eventloop s \<and> \<not> eventHandling (acceptChannel (acceptor s)) \<and>
     (\<forall>p c. conns s p = Some c \<longrightarrow> cloop c = eventloop s) \<and> (\<forall>l. list_all is_destroy (queues s l))"

lemma single_loop_body: "single_loop s \<Longrightarrow> single_loop (set_body p b s)"
  by (auto simp: single_loop_def set_body_def)

lemma single_loop_remove: "single_loop s \<Longrightarrow> removeConnection l p s = Inr s' \<Longrightarrow> l = eventloop s \<Longrightarrow> single_loop s' \<and> eventloop s' = l"
  by (auto simp: single_loop_def removeConnection_def removeConnectionInLoop_def result_iffs srv_queue_def)

lemma single_loop_step:
  assumes s: "single_loop s" and run: "srv_exec u a s = Inr s'"
  shows "single_loop s'"
proof (cases a)
  case (SAccept p fd junk)
  then show ?thesis
    using s run
    by (auto simp: acceptor_HandleRead_def newConnection_def getNextLoop_def single_loop_def establish_def set_body_def
        Let_def result_iffs split: if_splits)
next
  case (SRun l)
  show ?thesis
  proof (cases "queues s l")
    case (Cons f fs)
    have q: "list_all is_destroy (queues s l)" using s by (simp add: single_loop_def)
    then obtain p where "f = SDestroy p" using Cons by (cases f) auto
    then show ?thesis using s run SRun Cons q by (auto simp: destroy_def result_iffs single_loop_def split: if_splits)
  qed (use s run SRun in simp)
next
  case (SConn p b)
  then obtain c d where c: "conns s p = Some c"
    and r: "rfold (\<lambda>_. removeConnection (cloop c) p) (replicate (closes d - closes (cbody c)) ()) (set_body p d s) = Inr s'"
    using run by (auto simp: result_iffs)
  have "cloop c = eventloop (set_body p d s)" using s c by (simp add: single_loop_def set_body_def)
  then have "single_loop s' \<and> eventloop s' = cloop c"
    using rfold_inv [where I = "\<lambda>_ t. single_loop t \<and> eventloop t = cloop c", OF r] single_loop_remove single_loop_body [OF s]
    by metis
  then show ?thesis ..
qed

interpretation single: legal_system "srv_exec u" srv_ok "\<lambda>s. srv_inv s \<and> user_ok u \<and> single_loop s" "\<lambda>e. e = LengthError"
  for u :: user_prog
proof
  fix s a
  assume "srv_inv s \<and> user_ok u \<and> single_loop s" "srv_ok a s"
  then show "case srv_exec u a s of Inl e \<Rightarrow> e = LengthError | Inr s' \<Rightarrow> srv_inv s' \<and> user_ok u \<and> single_loop s'"
    using sv.legal_step [of u s a] single_loop_step [of s u a] by (simp split: sum.splits)
qed

lemma single_loop_start:
  assumes "srv_start True cb addr (srv_setThreadNum 0 (TcpServer base fd)) = Inr s"
  shows "single_loop s"
  using assms
  by (auto simp: srv_start_def srv_setThreadNum_def TcpServer_def pool_start_def setThreadNum_def EventLoopThreadPool_def
      Let_def result_iffs single_loop_def Acceptor_def acceptor_listen_def Channel_def SetReadCallback_def set_interest_def
      split: if_splits)

text \<open>In it, a connection in the map is up, and no functor holds it.\<close>

lemma single_loop_up:
  assumes s: "srv_inv s" "single_loop s" and k: "connections s k = Some p"
  shows "\<exists>c. conns s p = Some c \<and> state (cbody c) \<noteq> KDisconnected \<and> \<not> held s p"
proof -
  obtain c where c: "conns s p = Some c" "in_map s p c"
    using srv_invD(4) [OF s(1)] k unfolding names_inv_def in_map_def by blast
  have "\<not> held s p"
  proof
    assume "held s p"
    then obtain l f where f: "f \<in> set (queues s l)" "fptr f = p" by (auto simp: held_def list_ex_iff)
    have "is_destroy f" using s(2) f(1) by (simp add: single_loop_def list_all_iff)
    then show False using queued_for [OF s(1) c(1) f] c(2) by auto
  qed
  moreover have "state (cbody c) \<noteq> KDisconnected"
  proof
    assume d: "state (cbody c) = KDisconnected"
    then have "SRemove p \<in> set (queues s (eventloop s))"
      using srv_invD(3) [OF s(1) c(1)] c(2) by (auto simp: conn_stage_def)
    then show False using s(2) by (fastforce simp: single_loop_def list_all_iff)
  qed
  ultimately show ?thesis using c(1) by blast
qed

text \<open>A server without threads of its own can be destroyed exactly when no connection is left in its map: the
  first one there is destroyed while it is connected, and the assertion of \<open>~TcpConnection\<close> fails. (One with threads
  is never destroyed at all: \<open>thread_destructor\<close>.)\<close>

theorem server_destructor:
  assumes "user_ok u" and "srv_start True cb addr (srv_setThreadNum 0 (TcpServer base fd)) = Inr s0"
    and "srv_all_ok u as s0" and "rfold (srv_exec u) as s0 = Inr s"
    and "set names = dom (connections s)"
  shows "TcpServer_delete joins names s = Some (if names = [] then Inr s else Inl AssertFail)"
proof -
  have s: "srv_inv s" "single_loop s"
    using single.history [where s = s0 and as = as and u = u] srv_inv_start [OF assms(2)] single_loop_start [OF assms(2)]
      assms(1,3,4) by simp_all
  have pool: "loops (threadPool s) = []" "\<not> eventHandling (acceptChannel (acceptor s))"
    using s(2) by (simp_all add: single_loop_def)
  show ?thesis
  proof (cases names)
    case (Cons k ks)
    then obtain p where k: "connections s k = Some p" using assms(5) by auto
    obtain c where c: "conns s p = Some c" "state (cbody c) \<noteq> KDisconnected" "\<not> held s p"
      using single_loop_up [OF s k] by blast
    then have "release_conn k s = Inl AssertFail"
      using k by (simp add: release_conn_def held_def conn_delete_def)
    then show ?thesis using Cons pool by (simp add: TcpServer_delete_def)
  qed (use pool in \<open>simp add: TcpServer_delete_def\<close>)
qed

theorem server_destructor_witness:
  "\<exists>s0 s. srv_start True True (\<lambda>i. 10 + i) (srv_setThreadNum 0 (TcpServer 1 3)) = Inr s0 \<and>
     rfold (srv_exec silent_user) [SAccept 5 9 0] s0 = Inr s \<and>
     TcpServer_delete (\<lambda>_. True) [to_string 1] s = Some (Inl AssertFail)"
proof -
  have "\<exists>s0 s. srv_start True True (\<lambda>i. 10 + i) (srv_setThreadNum 0 (TcpServer 1 3)) = Inr s0 \<and>
      srv_all_ok silent_user [SAccept 5 9 0] s0 \<and> rfold (srv_exec silent_user) [SAccept 5 9 0] s0 = Inr s \<and>
      connections s = [to_string 1 \<mapsto> 5]"
    by (simp add: server_run)
  then obtain s0 s where s: "srv_start True True (\<lambda>i. 10 + i) (srv_setThreadNum 0 (TcpServer 1 3)) = Inr s0"
      "srv_all_ok silent_user [SAccept 5 9 0] s0" "rfold (srv_exec silent_user) [SAccept 5 9 0] s0 = Inr s"
      "connections s = [to_string 1 \<mapsto> 5]" by blast
  have "user_ok silent_user" by (simp add: user_ok_def silent_user_def)
  from server_destructor [OF this s(1-3), of "[to_string 1]" "\<lambda>_. True"] s show ?thesis by simp
qed

section \<open>The acceptor\<close>

text \<open>\<open>~Acceptor\<close> is empty: its members go, \<open>acceptChannel_\<close> and \<open>acceptSocket_\<close>, which closes the descriptor; the
  channel is neither disabled nor removed.\<close>

definition Acceptor_delete :: "nat \<Rightarrow> (nat \<rightharpoonup> 'cb channel) \<Rightarrow> (nat \<rightharpoonup> 'cb channel) result" where
  "Acceptor_delete pa h = channel_delete pa h"

lemma poll_fill_dead:
  assumes "\<forall>x \<in> set before. \<not> sint (pfd_revents x) > 0" "sint (pfd_revents s) > 0"
    and "chs (pfd_fd s) = Some p" "h p = None" "n > 0"
  shows "poll_fillActiveChannels n (before @ s # after) chs h = Inl BadDeref"
  using assms(1) by (induction before) (simp_all add: assms(2-))

text \<open>So with \<open>PollPoller\<close> a listening acceptor that is destroyed while its loop lives leaves its entry in \<open>pollfds_\<close>:
  the next \<open>poll\<close> reports \<open>POLLNVAL\<close> for the closed descriptor, and the loop dereferences the destroyed channel.\<close>

theorem acceptor_delete_dangles:
  assumes "poll_ok h e" and "h pa = Some c" and "pchannels e (m_socketFd c) = Some pa" and "events c \<noteq> 0"
    and "\<not> eventHandling c"
  shows "\<exists>h' i. Acceptor_delete pa h = Inr h' \<and> i < length (pollfds e) \<and> pfd_fd (pollfds e ! i) = m_socketFd c \<and>
    poll_poll 1 ((replicate (length (pollfds e)) 0)[i := ucast POLLNVAL]) h' e = Inl BadDeref"
proof -
  obtain d i where i: "h pa = Some d" "m_socketFd d = m_socketFd c" "i < length (pollfds e)" "slot_ok (pollfds e ! i) d"
    by (rule poll_ok_known [OF assms(1,3)]) blast
  then have fd: "pfd_fd (pollfds e ! i) = m_socketFd c" using assms(2,4) by (simp add: slot_ok_def)
  let ?rs = "(replicate (length (pollfds e)) 0)[i := ucast POLLNVAL]"
  let ?pfds = "map2 (\<lambda>pfd r. pfd\<lparr>pfd_revents := r\<rparr>) (pollfds e) ?rs"
  have len: "length ?pfds = length (pollfds e)" by simp
  have at_i: "?pfds ! i = (pollfds e ! i)\<lparr>pfd_revents := ucast POLLNVAL\<rparr>" using i(3) by simp
  have split: "?pfds = take i ?pfds @ ?pfds ! i # drop (Suc i) ?pfds" using i(3) len by (intro id_take_nth_drop) simp
  have "\<not> sint (pfd_revents x) > 0" if "x \<in> set (take i ?pfds)" for x
    using that i(3) by (auto simp: in_set_conv_nth)
  moreover have "sint (ucast POLLNVAL :: 16 word) > 0" by (simp add: POLLNVAL_def)
  ultimately have "poll_fillActiveChannels 1 (take i ?pfds @ ?pfds ! i # drop (Suc i) ?pfds) (pchannels e) (h(pa := None)) =
      Inl BadDeref"
    using poll_fill_dead [of "take i ?pfds" "?pfds ! i" "pchannels e" pa "h(pa := None)" 1] at_i fd assms(3) by simp
  then have "poll_poll 1 ?rs (h(pa := None)) e = Inl BadDeref"
    using split by (simp add: poll_poll_def Let_def)
  moreover have "Acceptor_delete pa h = Inr (h(pa := None))"
    using assms(2,5) by (simp add: Acceptor_delete_def channel_delete_def)
  ultimately show ?thesis using i(3) fd by blast
qed

theorem acceptor_delete_dangles_witness:
  "\<exists>h e. poll_updateChannel True 7 (set_interest EnableReadEvent (Channel 0 3 :: nat channel)) PollPoller = Inr (h, e) \<and>
     poll_poll 1 [ucast POLLNVAL] Map.empty e = (Inl BadDeref :: (nat list \<times> (nat \<rightharpoonup> nat channel) \<times> ppoller) result)"
proof -
  let ?c0 = "set_interest EnableReadEvent (Channel 0 3) :: nat channel"
  obtain c e where r: "poll_updateChannel True 7 ?c0 PollPoller = Inr (c, e)"
    by (simp add: run_pollers)
  then have c: "m_socketFd c = 3" "events c = 3" "\<not> eventHandling c" "pchannels e 3 = Some 7" "length (pollfds e) = 1"
    by (auto simp: run_pollers)
  have "poll_ok [7 \<mapsto> c] e"
    using r by (auto simp: run_pollers poll_ok_def slot_ok_def valid_events_def mask_eq_exp_minus_1 split: if_splits)
  from acceptor_delete_dangles [OF this, of 7 c] c r show ?thesis
    by (auto simp: Acceptor_delete_def channel_delete_def)
qed

end
