(* ===== verification/Current_Thread.thy ===== *)
theory Current_Thread
  imports Prelude
begin

text \<open>
  \<open>net/utils/CurrentThread.h\<close> and the identity of a loop in \<open>net/Eventloop.cpp\<close>: each thread caches its own id, a
  loop keeps the id of the thread that constructs it and its number, and \<open>isInLoopThread\<close> compares. Every
  \<open>inLoop\<close> argument of the other theories is the answer of this comparison.

  Threads are numbers and so are their ids; 0 is the id \<open>std::thread::id()\<close> of no thread. \<open>get_id\<close> is
  \<open>std::this_thread::get_id\<close>: the standard library promises that it is never that value and differs for two threads
  that are alive. The loops of the program live in threads that do not end (\<open>thread_destructor\<close>).
\<close>

section \<open>Operations\<close>

text \<open>\<open>made\<close> is not in the code: the loops constructed, each with the thread that did it.\<close>

record loop_id =
  threadId :: nat
  loopIdx :: int

record cthreads =
  t_cacheTid :: "nat \<Rightarrow> nat"
  loopNextIdx :: int
  made :: "(loop_id \<times> nat) list"

definition no_thread :: nat where
  "no_thread = 0"

definition cthreads_start :: cthreads where
  "cthreads_start = \<lparr>t_cacheTid = (\<lambda>_. no_thread), loopNextIdx = 0, made = []\<rparr>"

definition cacheTid :: "(nat \<Rightarrow> nat) \<Rightarrow> nat \<Rightarrow> cthreads \<Rightarrow> cthreads" where
  "cacheTid get_id t s = s\<lparr>t_cacheTid := (t_cacheTid s)(t := get_id t)\<rparr>"

definition tid :: "(nat \<Rightarrow> nat) \<Rightarrow> nat \<Rightarrow> cthreads \<Rightarrow> nat \<times> cthreads" where
  "tid get_id t s =
     (let s' = (if t_cacheTid s t = no_thread then cacheTid get_id t s else s)
      in (t_cacheTid s' t, s'))"

text \<open>The members \<open>threadId_\<close> and \<open>loopIdx_\<close> in the constructor of a loop. The counter is not locked; the program
  constructs its loops one after another, since \<open>startLoop\<close> waits for each.\<close>

definition loop_identity :: "(nat \<Rightarrow> nat) \<Rightarrow> nat \<Rightarrow> cthreads \<Rightarrow> loop_id \<times> cthreads" where
  "loop_identity get_id t s =
     (let (i, s1) = tid get_id t s;
          l = \<lparr>threadId = i, loopIdx = loopNextIdx s1\<rparr>
      in (l, s1\<lparr>loopNextIdx := loopNextIdx s1 + 1, made := made s1 @ [(l, t)]\<rparr>))"

definition isInLoopThread :: "(nat \<Rightarrow> nat) \<Rightarrow> loop_id \<Rightarrow> nat \<Rightarrow> cthreads \<Rightarrow> bool \<times> cthreads" where
  "isInLoopThread get_id l t s = (let (i, s') = tid get_id t s in (threadId l = i, s'))"

definition loop_assertInLoopThread :: "(nat \<Rightarrow> nat) \<Rightarrow> loop_id \<Rightarrow> nat \<Rightarrow> cthreads \<Rightarrow> cthreads result" where
  "loop_assertInLoopThread get_id l t s =
     (let (b, s') = isInLoopThread get_id l t s in assertInLoopThread b (Inr s'))"

definition isIoLoop :: "loop_id \<Rightarrow> bool" where
  "isIoLoop l \<longleftrightarrow> loopIdx l \<noteq> 0"

section \<open>Histories\<close>

text \<open>What any thread does that touches these variables: ask for its id, construct a loop, ask a loop whether this is
  its thread.\<close>

datatype tcall =
    AskTid nat
  | NewLoop nat
  | AskLoop nat nat

fun tcall_exec :: "(nat \<Rightarrow> nat) \<Rightarrow> tcall \<Rightarrow> cthreads \<Rightarrow> cthreads" where
  "tcall_exec get_id (AskTid t) s = snd (tid get_id t s)"
| "tcall_exec get_id (NewLoop t) s = snd (loop_identity get_id t s)"
| "tcall_exec get_id (AskLoop i t) s =
     (if i < length (made s) then snd (isInLoopThread get_id (fst (made s ! i)) t s) else s)"

definition thread_inv :: "(nat \<Rightarrow> nat) \<Rightarrow> cthreads \<Rightarrow> bool" where
  "thread_inv get_id s \<longleftrightarrow>
     (\<forall>t. t_cacheTid s t \<in> {no_thread, get_id t}) \<and> loopNextIdx s = int (length (made s)) \<and>
     (\<forall>i < length (made s). threadId (fst (made s ! i)) = get_id (snd (made s ! i)) \<and> loopIdx (fst (made s ! i)) = int i)"

lemma tid_spec:
  assumes "thread_inv get_id s"
  shows "fst (tid get_id t s) = get_id t" "thread_inv get_id (snd (tid get_id t s))" "made (snd (tid get_id t s)) = made s"
    "loopNextIdx (snd (tid get_id t s)) = loopNextIdx s"
proof -
  have "t_cacheTid s t \<in> {no_thread, get_id t}" using assms unfolding thread_inv_def by blast
  then show "fst (tid get_id t s) = get_id t" by (auto simp: tid_def cacheTid_def Let_def)
  show "thread_inv get_id (snd (tid get_id t s))" using assms by (simp add: tid_def cacheTid_def Let_def thread_inv_def)
qed (simp_all add: tid_def cacheTid_def Let_def)

lemma isInLoopThread_spec:
  assumes "thread_inv get_id s"
  shows "isInLoopThread get_id l t s = (threadId l = get_id t, snd (tid get_id t s))"
  using tid_spec(1) [OF assms, of t] by (cases "tid get_id t s") (simp add: isInLoopThread_def)

lemma loop_identity_inv:
  assumes "thread_inv get_id s"
  shows "thread_inv get_id (snd (loop_identity get_id t s))"
proof -
  note spec = tid_spec [OF assms, of t]
  have "snd (loop_identity get_id t s) = (snd (tid get_id t s))\<lparr>loopNextIdx := loopNextIdx s + 1,
      made := made s @ [(\<lparr>threadId = get_id t, loopIdx = loopNextIdx s\<rparr>, t)]\<rparr>"
    using spec by (cases "tid get_id t s") (simp add: loop_identity_def Let_def)
  then show ?thesis using spec(2,3) assms by (auto simp: thread_inv_def nth_append less_Suc_eq)
qed

lemma tcall_inv: "thread_inv get_id s \<Longrightarrow> thread_inv get_id (tcall_exec get_id a s)"
  by (cases a) (simp_all add: tid_spec(2) loop_identity_inv isInLoopThread_spec)

lemma thread_inv_reach: "thread_inv get_id (fold (tcall_exec get_id) as cthreads_start)"
proof (rule fold_invariant [where Q = "\<lambda>_. True" and P = "thread_inv get_id"])
  show "thread_inv get_id cthreads_start" by (simp add: thread_inv_def cthreads_start_def)
qed (simp_all add: tcall_inv)

section \<open>Every loop knows its thread\<close>

text \<open>after any calls by any threads, \<open>isInLoopThread\<close> is true, and \<open>assertInLoopThread\<close> returns instead of ending the
  process, exactly in the thread that constructed the loop, whatever the caches hold; the loops are numbered in the
  order they were constructed, so every one but the first is an I/O loop.\<close>

theorem loop_thread_exact:
  assumes alive: "inj get_id" "\<forall>t. get_id t \<noteq> no_thread"
    and s: "s = fold (tcall_exec get_id) as cthreads_start" and i: "i < length (made s)" "made s ! i = (l, maker)"
  shows "fst (isInLoopThread get_id l t s) = (t = maker) \<and>
    loop_assertInLoopThread get_id l t s = (if t = maker then Inr (snd (tid get_id t s)) else Inl ProcessExit) \<and>
    isIoLoop l = (i \<noteq> 0)"
proof -
  have inv: "thread_inv get_id s" unfolding s by (rule thread_inv_reach)
  have l: "threadId l = get_id maker" "loopIdx l = int i" using inv i by (auto simp: thread_inv_def)
  have "get_id maker = get_id t \<longleftrightarrow> t = maker" using alive(1) by (auto dest: injD)
  then show ?thesis
    using l by (simp add: isInLoopThread_spec [OF inv] loop_assertInLoopThread_def isIoLoop_def)
qed

theorem loop_thread_exact_witness:
  "let s = fold (tcall_exec Suc) [NewLoop 0, AskTid 1, NewLoop 1, AskLoop 0 1] cthreads_start; l = \<lparr>threadId = 2, loopIdx = 1\<rparr>
   in isInLoopThread Suc l 1 s = (True, snd (tid Suc 1 s)) \<and> loop_assertInLoopThread Suc l 0 s = Inl ProcessExit \<and> isIoLoop l"
proof -
  define s where "s = fold (tcall_exec Suc) [NewLoop 0, AskTid 1, NewLoop 1, AskLoop 0 1] cthreads_start"
  let ?l = "\<lparr>threadId = 2, loopIdx = 1\<rparr>"
  have m: "made s = [(\<lparr>threadId = 1, loopIdx = 0\<rparr>, 0), (?l, 1)]"
    by (simp add: s_def cthreads_start_def loop_identity_def tid_def cacheTid_def isInLoopThread_def Let_def no_thread_def)
  have h: "inj Suc" "\<forall>t. Suc t \<noteq> no_thread" "1 < length (made s)" "made s ! 1 = (?l, 1)"
    by (simp_all add: m no_thread_def)
  note exact = loop_thread_exact [OF h(1,2) s_def h(3,4)]
  have "isInLoopThread Suc ?l 1 s = (True, snd (tid Suc 1 s))"
    using exact [of 1] by (cases "tid Suc 1 s") (simp add: isInLoopThread_def)
  moreover have "loop_assertInLoopThread Suc ?l 0 s = Inl ProcessExit" "isIoLoop ?l" using exact [of 0] by simp_all
  ultimately show ?thesis unfolding s_def [symmetric] Let_def by blast
qed

end
