(* ===== verification/Loop_Refine.thy ===== *)
theory Loop_Refine
  imports Loop_Wakeup Teardown
begin

text \<open>
  The two models of \<open>net/Eventloop.cpp\<close> together: every history of the detailed loop of \<open>Event_Loop\<close> - its turns,
  with their timers, callbacks and functors, and what other threads queue in between - is a run of the hand-over
  protocol of \<open>Loop_Wakeup\<close> with the same pending functors, flag and counter. A turn takes many steps of the protocol.
\<close>

section \<open>Correspondence\<close>

text \<open>The counter of the \<open>eventfd\<close> stops at \<open>2^64 - 2\<close>; \<open>Event_Loop\<close> counts the writes.\<close>

definition counter :: "nat \<Rightarrow> nat" where
  "counter n = min n (2 ^ 64 - 2)"

definition corresponds :: "'u loop_functor loop_phase \<Rightarrow> 'u evloop \<Rightarrow> 'u loop_functor lq \<Rightarrow> bool" where
  "corresponds ph s q \<longleftrightarrow>
     phase q = ph \<and> pendingFunctors q = pending s \<and> isCallingPendingFunctors q = callingPending s \<and>
     eventfd q = counter (wakeups s) \<and> writers q = 0 \<and> \<not> preQueued q"

definition simulates ::
    "'u loop_functor loop_phase \<Rightarrow> 'u evloop \<Rightarrow> 'u loop_functor loop_phase \<Rightarrow> 'u evloop \<Rightarrow> bool" where
  "simulates ph s ph' s' \<longleftrightarrow>
     (\<forall>q. corresponds ph s q \<longrightarrow> (\<exists>ls q'. lq_run ls q = Some q' \<and> corresponds ph' s' q'))"

lemma counter_simps [simp]:
  "eventfd_write (counter n) = counter (Suc n)" "counter 0 = 0" "0 < counter n \<longleftrightarrow> 0 < n"
  by (simp_all add: eventfd_write_def counter_def min_def)

lemma simulates_trans: "simulates ph s ph' s' \<Longrightarrow> simulates ph' s' ph'' s'' \<Longrightarrow> simulates ph s ph'' s''"
  unfolding simulates_def by (metis (no_types, lifting) lq_run_append option.simps(5))

lemma simulates_steps:
  assumes "\<And>q. corresponds ph s q \<Longrightarrow> \<exists>q'. lq_run ls q = Some q' \<and> corresponds ph' s' q'"
  shows "simulates ph s ph' s'"
  using assms unfolding simulates_def by blast

lemma simulates_same:
  assumes "pending s' = pending s" "callingPending s' = callingPending s" "wakeups s' = wakeups s"
  shows "simulates ph s ph s'"
  by (rule simulates_steps [where ls = "[]"]) (simp add: corresponds_def assms)

lemma simulates_refl [simp]: "simulates ph s ph s"
  by (rule simulates_same) simp_all

lemma simulates_more: "tqueue.more s' = tqueue.more s \<Longrightarrow> simulates ph s ph s'"
  by (intro simulates_same) (simp_all add: evloop_more [of s' s])

lemma simulates_rfold:
  assumes "\<And>x s s'. f x s = Inr s' \<Longrightarrow> simulates ph s ph s'" and "rfold f xs s = Inr s'"
  shows "simulates ph s ph s'"
  by (rule rfold_inv [where I = "\<lambda>_. simulates ph s ph", OF assms(2)]) (auto intro: simulates_trans assms(1))

section \<open>In the loop's thread\<close>

definition own_phase :: "'f loop_phase \<Rightarrow> bool" where
  "own_phase ph \<longleftrightarrow> (\<exists>w. ph = Handling w) \<or> (\<exists>fs. ph = Calling fs)"

lemma simulates_queue: "own_phase ph \<Longrightarrow> simulates ph s ph (queueInLoop True f s)"
  by (rule simulates_steps [where ls = "[OwnQueue f]"])
    (auto simp: corresponds_def own_phase_def lq_steps queueInLoop_def wakeup_def)

lemma simulates_ucall:
  assumes "own_phase ph" "exec_ucall c s = Inr s'"
  shows "simulates ph s ph s'"
proof (cases c)
  case (CQueue u)
  then show ?thesis using assms simulates_queue by auto
qed (use assms(2) in \<open>auto simp: timer_calls result_iffs intro: simulates_more addTimer_more cancelInLoop_more\<close>)

lemma simulates_user:
  assumes "own_phase ph" "run_user calls u s = Inr s'"
  shows "simulates ph s ph s'"
proof -
  have "simulates ph s ph (s\<lparr>trace := trace s @ [u]\<rparr>)" by (rule simulates_same) simp_all
  moreover have "simulates ph (s\<lparr>trace := trace s @ [u]\<rparr>) ph s'"
    using simulates_rfold [OF simulates_ucall [OF assms(1)]] assms(2) by (simp add: run_user_def)
  ultimately show ?thesis by (rule simulates_trans)
qed

lemma simulates_handelRead:
  assumes "own_phase ph" "handelRead True (run_user calls) now clk s = Inr s'"
  shows "simulates ph s ph s'"
proof -
  let ?f = "\<lambda>(e :: timestamp \<times> nat) r. deref (timer_heap r) (snd e) (\<lambda>tm. run_user calls (timer.callback tm) r)"
  obtain es s1 s2 where s: "getExpired now s = Inr (es, s1)"
    "rfold ?f es (s1\<lparr>callingExpiredTimers := True, cancelingTimers := []\<rparr>) = Inr s2"
    "tq_reset True clk es now (s2\<lparr>callingExpiredTimers := False\<rparr>) = Inr s'"
    using assms(2) by (auto simp: handelRead_def result_iffs)
  have "simulates ph s ph (s1\<lparr>callingExpiredTimers := True, cancelingTimers := []\<rparr>)"
    using getExpired_more [OF s(1)] by (intro simulates_more) simp
  moreover have "simulates ph (s1\<lparr>callingExpiredTimers := True, cancelingTimers := []\<rparr>) ph s2"
    by (rule simulates_rfold [OF _ s(2)]) (auto simp: deref_Inr_iff intro: simulates_user [OF assms(1)])
  moreover have "simulates ph s2 ph s'"
    using tq_reset_more [OF s(3)] by (intro simulates_more) simp
  ultimately show ?thesis by (blast intro: simulates_trans)
qed

lemma simulates_handler:
  assumes "own_phase ph" "exec_handler env f s = Inr s'" "f \<noteq> HWakeup"
  shows "simulates ph s ph s'"
  using assms by (cases f) (auto intro: simulates_handelRead simulates_user)

lemma simulates_handlers:
  assumes "own_phase ph" "rfold (exec_handler env) fs s = Inr s'" "HWakeup \<notin> set fs"
  shows "simulates ph s ph s'"
  using assms(2,3)
proof (induction fs arbitrary: s)
  case (Cons f fs)
  then obtain t where "exec_handler env f s = Inr t" "rfold (exec_handler env) fs t = Inr s'" by (auto simp: rbind_Inr_iff)
  moreover have "f \<noteq> HWakeup" "HWakeup \<notin> set fs" using Cons.prems(2) by auto
  ultimately show ?case using Cons.IH [of t] simulates_handler [OF assms(1)] by (blast intro: simulates_trans)
qed simp

lemma simulates_functor:
  assumes "own_phase ph" "exec_functor env f s = Inr s'"
  shows "simulates ph s ph s'"
  using assms by (cases f) (auto intro: simulates_more addTimerInLoop_more cancelInLoop_more simulates_user)

text \<open>The functors of one batch, each after the step that takes it.\<close>

lemma simulates_batch: "rfold (exec_functor env) fs s = Inr s' \<Longrightarrow> simulates (Calling fs) s (Calling []) s'"
proof (induction fs arbitrary: s)
  case (Cons f fs)
  then obtain t where t: "exec_functor env f s = Inr t" "rfold (exec_functor env) fs t = Inr s'"
    by (auto simp: rbind_Inr_iff)
  have "simulates (Calling (f # fs)) s (Calling fs) s"
    by (rule simulates_steps [where ls = "[RunPending]"]) (auto simp: corresponds_def lq_steps)
  moreover have "simulates (Calling fs) s (Calling fs) t"
    by (rule simulates_functor [OF _ t(1)]) (simp add: own_phase_def)
  ultimately show ?case using Cons.IH [OF t(2)] by (blast intro: simulates_trans)
qed simp

lemma simulates_pending:
  assumes "handlePendingFunctors env s = Inr s'"
  shows "simulates (Handling False) s Polling s'"
proof -
  let ?s = "s\<lparr>callingPending := True, pending := []\<rparr>"
  obtain t where t: "rfold (exec_functor env) (pending s) ?s = Inr t" "s' = t\<lparr>callingPending := False\<rparr>"
    using assms by (auto simp: handlePendingFunctors_def rbind_Inr_iff)
  have "simulates (Handling False) s (Calling (pending s)) ?s"
    by (rule simulates_steps [where ls = "[BeginPending, SwapPending]"]) (auto simp: corresponds_def lq_steps)
  moreover have "simulates (Calling []) t Polling s'"
    by (rule simulates_steps [where ls = "[EndPending]"]) (auto simp: corresponds_def lq_steps t(2))
  ultimately show ?thesis using simulates_batch [OF t(1)] by (blast intro: simulates_trans)
qed

section \<open>The channels of a turn\<close>

definition due :: "(nat \<rightharpoonup> 'u handler channel) \<Rightarrow> nat \<Rightarrow> 'u handler list" where
  "due h p = (case h p of None \<Rightarrow> [] | Some c \<Rightarrow> due_callbacks c)"

lemma due_handled: "due (set_handling p b h) = due h"
  by (auto simp: due_def set_handling_def due_callbacks_def close_due_def read_due_def write_due_def fun_eq_iff
      split: option.splits)

lemma handle_active_run:
  assumes "handle_active env p s = Inr s'"
  shows "\<exists>t. rfold (exec_handler env) (due (chan_heap s) p) (chan_heap_update (set_handling p True) s) = Inr t \<and>
    s' = chan_heap_update (set_handling p False) t \<and> due (chan_heap s') = due (chan_heap s)"
proof (cases "chan_heap s p")
  case None
  then show ?thesis using assms by (simp add: handle_active_def HandleEvent_def)
next
  case (Some c)
  obtain t where t: "rfold (exec_handler env) (due_callbacks c) (chan_heap_update (set_handling p True) s) = Inr t"
    "s' = chan_heap_update (set_handling p False) t"
    using assms ch.HandleEvent_eq [of s p c env, OF Some] by (auto simp: handle_active_def rbind_Inr_iff)
  have "loop_frame t = loop_frame (chan_heap_update (set_handling p True) s)"
    by (rule rfold_same [where f = "exec_handler env" and m = loop_frame, OF _ t(1)]) (rule exec_handler_frame)
  then have "due (chan_heap s') = due (chan_heap s)" using t(2) by (simp add: loop_frame_def due_handled)
  then show ?thesis using t Some by (simp add: due_def)
qed

text \<open>At most one of the active channels has the wakeup handler to run, and that once.\<close>

lemma simulates_actives:
  assumes "rfold (handle_active env) ps s = Inr s'" and "distinct ps"
    and "\<And>p. p \<noteq> pw \<Longrightarrow> HWakeup \<notin> set (due (chan_heap s) p)" and "due (chan_heap s) pw \<in> {[], [HWakeup]}"
  shows "simulates (Handling (pw \<in> set ps \<and> due (chan_heap s) pw \<noteq> [])) s (Handling False) s'"
  using assms
proof (induction ps arbitrary: s)
  case (Cons p ps)
  define wake where "wake = (\<lambda>qs. pw \<in> set qs \<and> due (chan_heap s) pw \<noteq> [])"
  obtain r where r: "handle_active env p s = Inr r" "rfold (handle_active env) ps r = Inr s'"
    using Cons.prems(1) by (auto simp: rbind_Inr_iff)
  let ?t = "chan_heap_update (set_handling p True) s"
  obtain t where t: "rfold (exec_handler env) (due (chan_heap s) p) ?t = Inr t" "r = chan_heap_update (set_handling p False) t"
    "due (chan_heap r) = due (chan_heap s)" using handle_active_run [OF r(1)] by blast
  have ends: "simulates ph s ph ?t" "simulates ph t ph r" for ph by (rule simulates_same; simp add: t(2))+
  have "simulates (Handling (wake (p # ps))) ?t (Handling (wake ps)) t"
  proof (cases "HWakeup \<in> set (due (chan_heap s) p)")
    case True
    then have p: "p = pw" using Cons.prems(3) by blast
    moreover have "due (chan_heap s) p = [HWakeup]" using True Cons.prems(4) p by auto
    ultimately have "t = ?t\<lparr>wakeups := 0\<rparr>" "wake (p # ps)" "\<not> wake ps"
      using t(1) Cons.prems(2) by (auto simp: wake_def)
    then show ?thesis
      by (intro simulates_steps [where ls = "[ReadWakeup]"]) (auto simp: corresponds_def lq_steps)
  next
    case False
    then have "wake (p # ps) = wake ps" using Cons.prems(4) by (auto simp: wake_def)
    moreover have "simulates (Handling b) ?t (Handling b) t" for b
      by (rule simulates_handlers [OF _ t(1) False]) (simp add: own_phase_def)
    ultimately show ?thesis by simp
  qed
  moreover have "simulates (Handling (wake ps)) r (Handling False) s'"
    using Cons.IH [OF r(2)] Cons.prems(2-4) t(3) by (simp add: wake_def)
  ultimately show ?case using ends unfolding wake_def by (blast intro: simulates_trans)
qed simp

section \<open>Histories\<close>

text \<open>What \<open>poll\<close> reports of the loop's channels: each at most once, and the wakeup channel at \<open>pw\<close> only when its counter is
  not zero.\<close>

fun wakeup_honest :: "nat \<Rightarrow> 'u loop_input \<Rightarrow> 'u evloop \<Rightarrow> bool" where
  "wakeup_honest pw (Turn env) s \<longleftrightarrow>
     kernel_ok env (poller s) \<and>
     (case poller_poll env (chan_heap s) (poller s) of
        Inl _ \<Rightarrow> True
      | Inr (as, _, _) \<Rightarrow> distinct as \<and> (pw \<in> set as \<longrightarrow> 0 < wakeups s))"
| "wakeup_honest pw _ s \<longleftrightarrow> True"

lemma wakeup_honest_ok: "wakeup_honest pw x s \<Longrightarrow> input_ok x s"
  by (cases x) simp_all

lemma own_channel_callbacks:
  "readCallback (SetReceiveEvent r (own_channel fd f)) = Some f" "writeCallback (SetReceiveEvent r (own_channel fd f)) = None"
  "closeCallback (SetReceiveEvent r (own_channel fd f)) = None"
  by (simp_all add: SetReceiveEvent_def own_channel_def)

lemma due_callbacks_own: "due_callbacks (SetReceiveEvent r (own_channel fd f)) =
    (if rEvents (SetReceiveEvent r (own_channel fd f)) AND (POLLIN OR POLLPRI OR POLLRDHUP) \<noteq> 0 then [f] else [])"
  by (simp only: due_callbacks_def close_due_def read_due_def write_due_def own_channel_callbacks option.case if_cancel append.simps append_Nil2)

lemma due_own:
  assumes "quiet h = [pt \<mapsto> own_channel tfd HTimer, pw \<mapsto> own_channel wfd HWakeup]" "pt \<noteq> pw"
  shows "p \<noteq> pw \<Longrightarrow> HWakeup \<notin> set (due h p)" "due h pw \<in> {[], [HWakeup]}"
proof -
  obtain rt rw where h: "h = [pt \<mapsto> SetReceiveEvent rt (own_channel tfd HTimer), pw \<mapsto> SetReceiveEvent rw (own_channel wfd HWakeup)]"
    by (rule own_channels [OF assms])
  have at: "h q = (if q = pw then Some (SetReceiveEvent rw (own_channel wfd HWakeup))
      else if q = pt then Some (SetReceiveEvent rt (own_channel tfd HTimer)) else None)" for q
    unfolding h by (simp only: fun_upd_apply)
  have never: "f \<noteq> HWakeup \<Longrightarrow> HWakeup \<notin> set (due_callbacks (SetReceiveEvent r (own_channel fd f)))" for r fd and f :: "'a handler"
    by (simp add: due_callbacks_own)
  show "HWakeup \<notin> set (due h p)" if "p \<noteq> pw"
  proof (cases "p = pt")
    case True
    then have "due h p = due_callbacks (SetReceiveEvent rt (own_channel tfd HTimer))" using that by (simp add: at due_def)
    then show ?thesis using never by simp
  next
    case False
    then show ?thesis using that by (simp add: at due_def)
  qed
  show "due h pw \<in> {[], [HWakeup]}" by (simp add: at due_def due_callbacks_own)
qed

lemma simulates_turn:
  assumes "loop_body env s = Inr s'" and "wakeup_honest pw (Turn env) s"
    and "quiet (chan_heap s) = [pt \<mapsto> own_channel tfd HTimer, pw \<mapsto> own_channel wfd HWakeup]" "pt \<noteq> pw"
  shows "simulates Polling s Polling s'"
proof -
  obtain as h po t where p: "poller_poll env (chan_heap s) (poller s) = Inr (as, h, po)"
    and t: "rfold (handle_active env) as (s\<lparr>activeChanels := as, chan_heap := h, poller := po\<rparr>) = Inr t"
    and e: "handlePendingFunctors env t = Inr s'"
    using assms(1) by (auto simp: loop_body_def rbind_Inr_iff)
  let ?s = "s\<lparr>activeChanels := as, chan_heap := h, poller := po\<rparr>"
  have "quiet h = [pt \<mapsto> own_channel tfd HTimer, pw \<mapsto> own_channel wfd HWakeup]"
    using poller_poll_shape [OF p] assms(2,3) by simp
  note d = due_own [OF this assms(4)]
  let ?w = "pw \<in> set as \<and> due (chan_heap ?s) pw \<noteq> []"
  have honest: "distinct as" "?w \<Longrightarrow> 0 < wakeups s" using assms(2) p by simp_all
  have "simulates Polling s (Handling ?w) ?s"
    by (rule simulates_steps [where ls = "[PollReturn ?w]"]) (use honest(2) in \<open>auto simp: corresponds_def lq_steps\<close>)
  moreover have "simulates (Handling ?w) ?s (Handling False) t"
    using simulates_actives [OF t honest(1), of pw] d by simp
  ultimately show ?thesis using simulates_pending [OF e] by (blast intro: simulates_trans)
qed

lemma simulates_other: "simulates Polling s Polling (queueInLoop False f s)"
  by (rule simulates_steps [where ls = "[OtherPush f, OtherWake]"])
    (auto simp: corresponds_def lq_steps queueInLoop_def wakeup_def)

lemma simulates_input:
  assumes "loop_exec x s = Inr s'" and "wakeup_honest pw x s"
    and "quiet (chan_heap s) = [pt \<mapsto> own_channel tfd HTimer, pw \<mapsto> own_channel wfd HWakeup]" "pt \<noteq> pw"
  shows "simulates Polling s Polling s'"
proof (cases x)
  case (Turn env)
  then show ?thesis using assms simulates_turn by simp
next
  case (OtherAddTimer p cb expir iv)
  then obtain r where "new_timer p cb expir iv s = Inr r" "s' = queueInLoop False (FAddTimer p) r"
    using assms(1) by (auto simp: other_addTimer_def rbind_Inr_iff)
  then show ?thesis
    using simulates_trans [OF simulates_more [OF new_timer_more] simulates_other [of r "FAddTimer p"]] by simp
qed (use assms(1) simulates_other in auto)

lemma simulates_history:
  assumes "rfold loop_exec xs s = Inr s'" and "legal_run loop_exec (wakeup_honest pw) xs s"
    and "ev_inv s" "resting (chan_heap s)" "pt \<noteq> pw"
    and "loop_shape s = ([pt \<mapsto> own_channel tfd HTimer, pw \<mapsto> own_channel wfd HWakeup], po)"
  shows "simulates Polling s Polling s'"
  using assms
proof (induction xs arbitrary: s)
  case (Cons x xs)
  then obtain t where t: "loop_exec x s = Inr t" "rfold loop_exec xs t = Inr s'" by (auto simp: rbind_Inr_iff)
  have x: "wakeup_honest pw x s" "legal_run loop_exec (wakeup_honest pw) xs t" using Cons.prems(2) t(1) by simp_all
  have "ev_inv t \<and> resting (chan_heap t) \<and> loop_shape t = loop_shape s"
    using shape.legal_step [of s "loop_shape s" x] Cons.prems(3,4) wakeup_honest_ok [OF x(1)] t(1) by simp
  then have "simulates Polling t Polling s'" using Cons.IH [OF t(2) x(2)] Cons.prems(5,6) by simp
  moreover have "quiet (chan_heap s) = [pt \<mapsto> own_channel tfd HTimer, pw \<mapsto> own_channel wfd HWakeup]"
    using Cons.prems(6) unfolding loop_shape_def by (simp only: prod.inject)
  then have "simulates Polling s Polling t" by (rule simulates_input [OF t(1) x(1) _ Cons.prems(5)])
  ultimately show ?case by (rule simulates_trans [rotated])
qed simp

text \<open>C19: every history of the detailed loop, whatever its timers, callbacks and functors do and whatever
  other threads queue in between, is a run of the hand-over protocol that ends in \<open>poll\<close> with the same pending
  functors and counter; so when the loop goes back to \<open>poll\<close> with functors pending, the \<open>eventfd\<close> is readable.\<close>

theorem loop_refines_wakeup:
  assumes "0 \<le> timefd" "0 \<le> wakeupFd" "timefd \<noteq> wakeupFd" "pt \<noteq> pw"
    and "EventLoop pollerType timefd wakeupFd pt pw = Inr s0"
    and "legal_run loop_exec (wakeup_honest pw) xs s0" and "rfold loop_exec xs s0 = Inr s"
  shows "(\<exists>ls q. lq_run ls lq_new = Some q \<and> phase q = Polling \<and> pendingFunctors q = pending s \<and>
      isCallingPendingFunctors q = callingPending s \<and> eventfd q = min (wakeups s) (2 ^ 64 - 2)) \<and>
    (pending s \<noteq> [] \<longrightarrow> 0 < wakeups s)"
proof -
  note start = new_loop_shape [OF assms(3-5)]
  have "ev_inv s0" by (rule EventLoop_inv [OF assms(1-5)])
  then have sim: "simulates Polling s0 Polling s"
    by (rule simulates_history [OF assms(7,6) _ conjunct2 [OF start] assms(4) conjunct1 [OF start]])
  have "corresponds Polling s0 (lq_new\<lparr>phase := Polling\<rparr>)"
    using assms(5)
    by (auto simp: EventLoop_def loop_updateChannel_def rbind_Inr_iff corresponds_def lq_new_def evloop.defs tqueue.defs
        tqueue_new_def Let_def)
  then obtain ls q where q: "lq_run ls (lq_new\<lparr>phase := Polling\<rparr>) = Some q" "corresponds Polling s q"
    using sim unfolding simulates_def by blast
  have run: "lq_run (EnterLoop # ls) lq_new = Some q" using q(1) by (simp add: loop_enter_def lq_new_def)
  have "lq_inv q" by (rule lq.reach_inv [OF lq_run_reach [OF run reach_lq_new]])
  then have "pending s \<noteq> [] \<longrightarrow> 0 < wakeups s" using q(2) by (auto simp: lq_inv_def corresponds_def)
  then show ?thesis using run q(2) unfolding corresponds_def counter_def by blast
qed

theorem loop_refines_wakeup_witness:
  "\<exists>s. rfold loop_exec [OtherQueue 7, Turn (quiet_env [(1, 2)] 5), OtherQueue 8] new_loop = Inr s \<and> pending s = [FUser 8] \<and>
     0 < wakeups s"
proof -
  let ?xs = "[OtherQueue 7, Turn (quiet_env [(1, 2)] 5), OtherQueue 8]"
  have s: "EventLoop None 3 4 1 2 = Inr new_loop" by (simp add: run_loop)
  have ok: "legal_run loop_exec (wakeup_honest 2) ?xs new_loop"
    by (simp add: run_loop epoll_watched_def ctl_replay_def exI [of _ 4] split: sum.splits)
  have "\<exists>t. rfold loop_exec ?xs new_loop = Inr t \<and> pending t = [FUser 8]"
    by (simp add: run_loop)
  then obtain t where t: "rfold loop_exec ?xs new_loop = Inr t" "pending t = [FUser 8]" by blast
  from loop_refines_wakeup [OF _ _ _ _ s ok t(1)] t show ?thesis by auto
qed

end
