(* ===== verification/Singletons.thy ===== *)
theory Singletons
  imports Prelude
begin

text \<open>
  The two objects the program makes once: the logger of \<open>net/utils/log.h\<close>, behind \<open>std::call_once\<close>, and the
  instance of \<open>threadpool/threadpool.cpp\<close>, behind a plain test. Each \<open>GetInstance\<close> is a step relation of any number of
  threads. What is logged stays with the spdlog library; its loggers are what \<open>GetInstance\<close> sets of them.
\<close>

section \<open>The logger\<close>

text \<open>The settings of a logger that the function makes. What \<open>spdlog::stdout_color_mt\<close> returns, with its own
  settings, is the argument \<open>fresh\<close>.\<close>

datatype log_level = Trace | Debug | Info | Warn | Err | Critical | Off

record spd_logger =
  log_level :: log_level
  log_pattern :: string

text \<open>A \<open>std::once_flag\<close>: nobody has run the function, a thread is in it, it has returned.\<close>

datatype once_flag = NotRun | Active nat | Done

text \<open>Where a thread is in \<open>GetInstance\<close>: outside, about to enter \<open>call_once\<close>, before each line of the function it calls
  and before its end, about to return, or back with a pointer.\<close>

datatype log_phase = LOutside | LOnce | LMake | LLevel | LPattern | LDone | LReturn | LGot "nat option"

text \<open>\<open>loggers\<close> are the loggers made, \<open>logger_\<close> points to one of them.\<close>

record log_state =
  flag :: once_flag
  logger_ptr :: "nat option"
  loggers :: "spd_logger list"
  log_at :: "nat \<Rightarrow> log_phase"

definition log_start :: log_state where
  "log_start = \<lparr>flag = NotRun, logger_ptr = None, loggers = [], log_at = (\<lambda>_. LOutside)\<rparr>"

definition log_goto :: "nat \<Rightarrow> log_phase \<Rightarrow> log_state \<Rightarrow> log_state" where
  "log_goto t ph s = s\<lparr>log_at := (log_at s)(t := ph)\<rparr>"

text \<open>The logger that \<open>logger_\<close> points to is changed in place.\<close>

definition on_logger :: "(spd_logger \<Rightarrow> spd_logger) \<Rightarrow> log_state \<Rightarrow> log_state" where
  "on_logger f s =
     (case logger_ptr s of None \<Rightarrow> s | Some i \<Rightarrow> s\<lparr>loggers := (loggers s)[i := f (loggers s ! i)]\<rparr>)"

text \<open>The next step of thread \<open>t\<close> in \<open>Logger::GetInstance\<close>; \<open>None\<close> while it waits for another thread in \<open>call_once\<close>.\<close>

definition Logger_GetInstance :: "spd_logger \<Rightarrow> nat \<Rightarrow> log_state \<Rightarrow> log_state option" where
  "Logger_GetInstance fresh t s =
     (case log_at s t of
        LOnce \<Rightarrow>
          (case flag s of
             NotRun \<Rightarrow> Some (log_goto t LMake (s\<lparr>flag := Active t\<rparr>))
           | Active _ \<Rightarrow> None
           | Done \<Rightarrow> Some (log_goto t LReturn s))
      | LMake \<Rightarrow> Some (log_goto t LLevel (s\<lparr>logger_ptr := Some (length (loggers s)), loggers := loggers s @ [fresh]\<rparr>))
      | LLevel \<Rightarrow> Some (log_goto t LPattern (on_logger (log_level_update (\<lambda>_. Trace)) s))
      | LPattern \<Rightarrow> Some (log_goto t LDone (on_logger (log_pattern_update (\<lambda>_. ''[%H:%M:%S] [%^%l%$] %v'')) s))
      | LDone \<Rightarrow> Some (log_goto t LReturn (s\<lparr>flag := Done\<rparr>))
      | LReturn \<Rightarrow> Some (log_goto t (LGot (logger_ptr s)) s)
      | _ \<Rightarrow> Some (log_goto t LOnce s))"

inductive log_step :: "spd_logger \<Rightarrow> log_state \<Rightarrow> log_state \<Rightarrow> bool" for fresh where
  "Logger_GetInstance fresh t s = Some s' \<Longrightarrow> log_step fresh s s'"

inductive_simps log_step_iff: "log_step fresh s s'"

definition log_init :: "log_state \<Rightarrow> bool" where
  "log_init s \<longleftrightarrow> s = log_start"

definition console :: spd_logger where
  "console = \<lparr>log_level = Trace, log_pattern = ''[%H:%M:%S] [%^%l%$] %v''\<rparr>"

text \<open>What has been made when the thread in the function is at some line of it.\<close>

fun log_made :: "spd_logger \<Rightarrow> log_phase \<Rightarrow> spd_logger list option" where
  "log_made fresh LMake = Some []"
| "log_made fresh LLevel = Some [fresh]"
| "log_made fresh LPattern = Some [fresh\<lparr>log_level := Trace\<rparr>]"
| "log_made fresh LDone = Some [console]"
| "log_made fresh _ = None"

definition log_thread :: "once_flag \<Rightarrow> nat \<Rightarrow> log_phase \<Rightarrow> bool" where
  "log_thread f t ph \<longleftrightarrow>
     (case ph of
        LOutside \<Rightarrow> True
      | LOnce \<Rightarrow> True
      | LReturn \<Rightarrow> f = Done
      | LGot p \<Rightarrow> f = Done \<and> p = Some 0
      | _ \<Rightarrow> f = Active t)"

definition log_inv :: "spd_logger \<Rightarrow> log_state \<Rightarrow> bool" where
  "log_inv fresh s \<longleftrightarrow>
     logger_ptr s = (if loggers s = [] then None else Some 0) \<and>
     (\<forall>t. log_thread (flag s) t (log_at s t)) \<and>
     (case flag s of
        NotRun \<Rightarrow> loggers s = []
      | Active t \<Rightarrow> log_made fresh (log_at s t) = Some (loggers s)
      | Done \<Rightarrow> loggers s = [console])"

text \<open>While no thread has been through the function, all others are outside or before \<open>call_once\<close>.\<close>

lemma log_thread_other: "log_thread f u ph \<Longrightarrow> f = NotRun \<or> f = Active t \<Longrightarrow> u \<noteq> t \<Longrightarrow> log_thread f' u ph"
  by (cases ph) (auto simp: log_thread_def)

lemma log_inv_goto:
  assumes "log_inv fresh s" and "log_at r = log_at s" and "flag r = flag s \<or> flag s = NotRun \<or> flag s = Active t"
    and "log_thread (flag r) t ph" and "logger_ptr r = (if loggers r = [] then None else Some 0)"
    and "case flag r of
        NotRun \<Rightarrow> loggers r = []
      | Active u \<Rightarrow> log_made fresh (if u = t then ph else log_at s u) = Some (loggers r)
      | Done \<Rightarrow> loggers r = [console]"
  shows "log_inv fresh (log_goto t ph r)"
proof -
  have "log_thread (flag r) u ((if u = t then ph else log_at s u))" for u
    using assms(1,3,4) log_thread_other [of "flag s" u "log_at s u" t "flag r"] by (auto simp: log_inv_def)
  then show ?thesis
    using assms(2,5,6) by (cases "flag r") (simp_all add: log_inv_def log_goto_def)
qed

lemmas log_run_simps = Logger_GetInstance_def on_logger_def console_def

lemma log_inv_step:
  assumes inv: "log_inv fresh s" and step: "Logger_GetInstance fresh t s = Some s'"
  shows "log_inv fresh s'"
proof -
  have ptr: "logger_ptr s = (if loggers s = [] then None else Some 0)" and mine: "log_thread (flag s) t (log_at s t)"
    and made: "case flag s of NotRun \<Rightarrow> loggers s = [] | Active u \<Rightarrow> log_made fresh (log_at s u) = Some (loggers s)
      | Done \<Rightarrow> loggers s = [console]" using inv by (simp_all add: log_inv_def)
  have outside: "log_inv fresh (log_goto t LOnce s)" if "log_made fresh (log_at s t) = None"
    using ptr made that by (intro log_inv_goto [OF inv]) (auto simp: log_thread_def split: once_flag.splits)
  show ?thesis
  proof (cases "log_at s t")
    case LOnce
    show ?thesis
    proof (cases "flag s")
      case NotRun
      then have "s' = log_goto t LMake (s\<lparr>flag := Active t\<rparr>)" using LOnce step by (simp add: Logger_GetInstance_def)
      then show ?thesis
        using NotRun ptr made by (simp only:, intro log_inv_goto [OF inv]) (simp_all add: log_thread_def)
    next
      case Done
      then have "s' = log_goto t LReturn s" using LOnce step by (simp add: Logger_GetInstance_def)
      then show ?thesis
        using Done ptr made by (simp only:, intro log_inv_goto [OF inv]) (simp_all add: log_thread_def)
    qed (use LOnce step in \<open>simp add: Logger_GetInstance_def\<close>)
  next
    case LReturn
    then have "flag s = Done" "s' = log_goto t (LGot (logger_ptr s)) s"
      using mine step by (simp_all add: log_thread_def Logger_GetInstance_def)
    then show ?thesis
      using ptr made by (simp only:, intro log_inv_goto [OF inv]) (simp_all add: log_thread_def)
  next
    case LMake
    then have f: "flag s = Active t" using mine by (simp add: log_thread_def)
    then have "loggers s = []" using made LMake by simp
    then have "s' = log_goto t LLevel (s\<lparr>logger_ptr := Some 0, loggers := [fresh]\<rparr>)"
      using step LMake by (simp add: Logger_GetInstance_def)
    then show ?thesis
      using f by (simp only:, intro log_inv_goto [OF inv]) (simp_all add: log_thread_def)
  next
    case LLevel
    then have f: "flag s = Active t" using mine by (simp add: log_thread_def)
    then have l: "loggers s = [fresh]" using made LLevel by simp
    then have "s' = log_goto t LPattern (s\<lparr>loggers := [fresh\<lparr>log_level := Trace\<rparr>]\<rparr>)"
      using step LLevel ptr by (simp add: Logger_GetInstance_def on_logger_def)
    then show ?thesis
      using f ptr l by (simp only:, intro log_inv_goto [OF inv]) (simp_all add: log_thread_def)
  next
    case LPattern
    then have f: "flag s = Active t" using mine by (simp add: log_thread_def)
    then have l: "loggers s = [fresh\<lparr>log_level := Trace\<rparr>]" using made LPattern by simp
    then have "s' = log_goto t LDone (s\<lparr>loggers := [console]\<rparr>)"
      using step LPattern ptr by (cases fresh) (simp add: log_run_simps)
    then show ?thesis
      using f ptr l by (simp only:, intro log_inv_goto [OF inv]) (simp_all add: log_thread_def)
  next
    case LDone
    then have f: "flag s = Active t" using mine by (simp add: log_thread_def)
    then have l: "loggers s = [console]" using made LDone by simp
    have "s' = log_goto t LReturn (s\<lparr>flag := Done\<rparr>)" using step LDone by (simp add: Logger_GetInstance_def)
    then show ?thesis
      using f ptr l by (simp only:, intro log_inv_goto [OF inv]) (simp_all add: log_thread_def)
  qed (use outside step in \<open>simp_all add: Logger_GetInstance_def\<close>)
qed

interpretation lg: invariant_system log_init "log_step fresh" "log_inv fresh" for fresh
proof
  show "log_init s \<Longrightarrow> log_inv fresh s" for s by (simp add: log_init_def log_start_def log_inv_def log_thread_def)
  show "log_inv fresh s \<Longrightarrow> log_step fresh s t \<Longrightarrow> log_inv fresh t" for s t by (auto simp: log_step_iff intro: log_inv_step)
qed

text \<open>C30: Whatever threads call \<open>Logger::GetInstance\<close> at the same time, at most one logger is made; whoever gets a
  pointer gets that one, with its level and pattern set; and a thread that waits in \<open>call_once\<close> waits for one that can go
  on.\<close>

theorem logger_once:
  assumes "reach log_init (log_step fresh) s"
  shows "length (loggers s) \<le> 1 \<and>
    (\<forall>t p. log_at s t = LGot p \<longrightarrow> p = Some 0 \<and> loggers s = [console]) \<and>
    (\<forall>t. Logger_GetInstance fresh t s = None \<longrightarrow> (\<exists>u. flag s = Active u \<and> Logger_GetInstance fresh u s \<noteq> None))"
proof (intro conjI allI impI)
  have inv: "log_inv fresh s" by (rule lg.reach_inv [OF assms])
  then have made: "flag s = Active u \<Longrightarrow> log_made fresh (log_at s u) = Some (loggers s)" for u by (simp add: log_inv_def)
  show "length (loggers s) \<le> 1"
  proof (cases "flag s")
    case (Active u)
    have "length ls \<le> 1" if "log_made fresh ph = Some ls" for ph ls using that by (cases ph) auto
    then show ?thesis using made [OF Active] by blast
  qed (use inv in \<open>auto simp: log_inv_def\<close>)
  show "p = Some 0" "loggers s = [console]" if "log_at s t = LGot p" for t p
  proof -
    have "log_thread (flag s) t (log_at s t)" using inv by (simp add: log_inv_def)
    then have "flag s = Done" "p = Some 0" using that by (simp_all add: log_thread_def)
    then show "p = Some 0" "loggers s = [console]" using inv by (simp_all add: log_inv_def)
  qed
  fix t assume "Logger_GetInstance fresh t s = None"
  then obtain u where u: "flag s = Active u"
    by (auto simp: Logger_GetInstance_def split: log_phase.splits once_flag.splits)
  then have "Logger_GetInstance fresh u s \<noteq> None"
    using made [OF u] by (cases "log_at s u") (auto simp: Logger_GetInstance_def)
  then show "\<exists>u. flag s = Active u \<and> Logger_GetInstance fresh u s \<noteq> None" using u by blast
qed

definition log_run :: "spd_logger \<Rightarrow> nat list \<Rightarrow> log_state option" where
  "log_run fresh ts = fold (\<lambda>t s. Option.bind s (Logger_GetInstance fresh t)) ts (Some log_start)"

lemma log_run_reach: "log_run fresh ts = Some s \<Longrightarrow> reach log_init (log_step fresh) s"
proof (induction ts arbitrary: s rule: rev_induct)
  case (snoc t ts)
  then obtain r where "log_run fresh ts = Some r" "Logger_GetInstance fresh t r = Some s"
    by (auto simp: log_run_def Option.bind_eq_Some_conv)
  then show ?case using snoc.IH by (blast intro: reach_step log_step.intros)
qed (auto simp: log_run_def log_init_def intro: reach_init)

definition quiet_logger :: spd_logger where
  "quiet_logger = \<lparr>log_level = Off, log_pattern = []\<rparr>"

theorem logger_once_witness:
  "\<exists>s. log_run quiet_logger [0, 1, 0, 0, 0, 0, 0, 1, 1, 0] = Some s \<and> log_at s 0 = LGot (Some 0) \<and> loggers s = [console]"
proof -
  have "\<exists>s. log_run quiet_logger [0, 1, 0, 0, 0, 0, 0, 1, 1, 0] = Some s \<and> log_at s 0 = LGot (Some 0)"
    by (simp add: log_run_def log_start_def log_run_simps log_goto_def quiet_logger_def)
  then obtain s where s: "log_run quiet_logger [0, 1, 0, 0, 0, 0, 0, 1, 1, 0] = Some s" "log_at s 0 = LGot (Some 0)" by blast
  then show ?thesis using logger_once [OF log_run_reach [OF s(1)]] by blast
qed

section \<open>The instance of the thread pool\<close>

text \<open>Where a thread is in \<open>ThreadPool::GetInstance\<close>: outside, before the test of \<open>m_pInstance\<close>, before \<open>new\<close>, before the
  assignment of the object it made, before the static \<open>guard\<close>, about to return, or back with a pointer.\<close>

datatype inst_phase = IOutside | ITest | INew | IAssign nat | IGuard | IReturn | IGot "nat option"

text \<open>\<open>instances\<close> are the pools made, and whether each one is still alive; \<open>guard\<close> whether the static object exists, whose
  destructor runs when the program ends.\<close>

record inst_state =
  m_pInstance :: "nat option"
  instances :: "bool list"
  guard :: bool
  inst_at :: "nat \<Rightarrow> inst_phase"

definition inst_start :: inst_state where
  "inst_start = \<lparr>m_pInstance = None, instances = [], guard = False, inst_at = (\<lambda>_. IOutside)\<rparr>"

definition inst_goto :: "nat \<Rightarrow> inst_phase \<Rightarrow> inst_state \<Rightarrow> inst_state" where
  "inst_goto t ph s = s\<lparr>inst_at := (inst_at s)(t := ph)\<rparr>"

definition ThreadPool_GetInstance :: "nat \<Rightarrow> inst_state \<Rightarrow> inst_state" where
  "ThreadPool_GetInstance t s =
     (case inst_at s t of
        ITest \<Rightarrow> inst_goto t (if m_pInstance s = None then INew else IReturn) s
      | INew \<Rightarrow> inst_goto t (IAssign (length (instances s))) (s\<lparr>instances := instances s @ [True]\<rparr>)
      | IAssign i \<Rightarrow> inst_goto t IGuard (s\<lparr>m_pInstance := Some i\<rparr>)
      | IGuard \<Rightarrow> inst_goto t IReturn (s\<lparr>guard := True\<rparr>)
      | IReturn \<Rightarrow> inst_goto t (IGot (m_pInstance s)) s
      | _ \<Rightarrow> inst_goto t ITest s)"

text \<open>\<open>~ThreadPoolMemGuard\<close>, at the end of the program.\<close>

definition guard_delete :: "inst_state \<Rightarrow> inst_state" where
  "guard_delete s =
     (if guard s
      then case m_pInstance s of
             None \<Rightarrow> s
           | Some i \<Rightarrow> s\<lparr>instances := (instances s)[i := False], m_pInstance := None\<rparr>
      else s)"

definition inst_run :: "nat list \<Rightarrow> inst_state" where
  "inst_run ts = fold ThreadPool_GetInstance ts inst_start"

text \<open>The first thread alone in \<open>GetInstance\<close> makes the instance and every later one alone gets the same; the end of the
  program frees it.\<close>

fun idle_phase :: "inst_phase \<Rightarrow> bool" where
  "idle_phase IOutside = True"
| "idle_phase (IGot p) = True"
| "idle_phase _ = False"

lemma inst_call:
  assumes "m_pInstance s = None \<and> instances s = [] \<or> m_pInstance s = Some 0 \<and> instances s = [True] \<and> guard s"
    and "idle_phase (inst_at s t)"
  shows "\<exists>n r. (ThreadPool_GetInstance t ^^ n) s = r \<and> inst_at r = (inst_at s)(t := IGot (Some 0)) \<and>
    m_pInstance r = Some 0 \<and> instances r = [True] \<and> guard r"
proof -
  have start: "ThreadPool_GetInstance t s = inst_goto t ITest s"
    using assms(2) by (cases "inst_at s t") (simp_all add: ThreadPool_GetInstance_def)
  show ?thesis
  proof (cases "m_pInstance s")
    case None
    then have "(ThreadPool_GetInstance t ^^ 6) s =
        s\<lparr>m_pInstance := Some 0, instances := [True], guard := True, inst_at := (inst_at s)(t := IGot (Some 0))\<rparr>"
      using assms(1) start by (simp add: funpow_swap1 eval_nat_numeral ThreadPool_GetInstance_def inst_goto_def)
    then show ?thesis by (intro exI [of _ 6]) simp
  next
    case (Some i)
    then have "(ThreadPool_GetInstance t ^^ 3) s = s\<lparr>inst_at := (inst_at s)(t := IGot (Some 0))\<rparr>"
      using assms(1) start by (simp add: funpow_swap1 eval_nat_numeral ThreadPool_GetInstance_def inst_goto_def)
    then show ?thesis using assms(1) Some by (intro exI [of _ 3]) simp
  qed
qed

text \<open>Two threads that call \<open>ThreadPool::GetInstance\<close> at the same time can both find the pointer null and make a
  pool each: they get different pools, and at the end of the program the guard frees the second only.\<close>

theorem pool_instance_race:
  "\<exists>ts s. s = inst_run ts \<and> set ts = {0, 1} \<and> inst_at s 0 = IGot (Some 0) \<and> inst_at s 1 = IGot (Some 1) \<and>
     instances (guard_delete s) = [True, False] \<and> m_pInstance (guard_delete s) = None"
proof -
  have "let s = inst_run [0, 1, 0, 1, 0, 0, 0, 0, 1, 1, 1, 1] in inst_at s 0 = IGot (Some 0) \<and> inst_at s 1 = IGot (Some 1) \<and>
      instances (guard_delete s) = [True, False] \<and> m_pInstance (guard_delete s) = None"
    by (simp add: inst_run_def inst_start_def ThreadPool_GetInstance_def inst_goto_def guard_delete_def Let_def)
  then show ?thesis by (intro exI [of _ "[0, 1, 0, 1, 0, 0, 0, 0, 1, 1, 1, 1]"]) (auto simp: Let_def)
qed

end
