(* ===== verification/Callbacks.thy ===== *)
theory Callbacks
  imports Main
begin

text \<open>
  The registration of user callbacks: the setters of \<open>net/TcpServer.h\<close>, \<open>net/TcpConnection.h\<close> and \<open>net/TcpClient.h\<close>,
  and how \<open>TcpServer::newConnection\<close> and \<open>TcpClient::newConnection\<close> hand the callbacks to a connection. The
  other theories take the callbacks a connection has as given. A \<open>std::function\<close> is an option, \<open>None\<close> when
  it is empty.
\<close>

section \<open>Connections\<close>

datatype 'u cb =
    DefaultConnection | DefaultMessage | DefaultWriteComplete | DefaultHighWaterMark
  | User 'u

record 'u conn_callbacks =
  on_connection :: "'u cb option"
  on_message :: "'u cb option"
  on_writeComplete :: "'u cb option"
  on_highWaterMark :: "'u cb option"
  high_mark :: nat

text \<open>The constructor sets none of them, and not \<open>highWaterMark_\<close>.\<close>

definition no_callbacks :: "nat \<Rightarrow> 'u conn_callbacks" where
  "no_callbacks junk =
     \<lparr>on_connection = None, on_message = None, on_writeComplete = None, on_highWaterMark = None, high_mark = junk\<rparr>"

definition conn_setConnectionCallback :: "'u cb option \<Rightarrow> 'u conn_callbacks \<Rightarrow> 'u conn_callbacks" where
  "conn_setConnectionCallback f c = c\<lparr>on_connection := f\<rparr>"

definition conn_setMessageCallback :: "'u cb option \<Rightarrow> 'u conn_callbacks \<Rightarrow> 'u conn_callbacks" where
  "conn_setMessageCallback f c = c\<lparr>on_message := f\<rparr>"

definition conn_setWriteCompleteCallback :: "'u cb option \<Rightarrow> 'u conn_callbacks \<Rightarrow> 'u conn_callbacks" where
  "conn_setWriteCompleteCallback f c = c\<lparr>on_writeComplete := f\<rparr>"

definition conn_setHighWaterMarkCallback :: "'u cb option \<Rightarrow> nat \<Rightarrow> 'u conn_callbacks \<Rightarrow> 'u conn_callbacks" where
  "conn_setHighWaterMarkCallback f mark c = c\<lparr>on_highWaterMark := f, high_mark := mark\<rparr>"

section \<open>The server\<close>

record 'u srv_callbacks =
  connectionCallback :: "'u cb option"
  messageCallback :: "'u cb option"
  srv_writeCompleteCallback :: "'u cb option"
  srv_highWaterMarkCallback :: "'u cb option"
  srv_highWaterMark :: nat
  threadInitCallback :: "'u cb option"

definition TcpServer_callbacks :: "'u srv_callbacks" where
  "TcpServer_callbacks =
     \<lparr>connectionCallback = Some DefaultConnection, messageCallback = Some DefaultMessage,
      srv_writeCompleteCallback = Some DefaultWriteComplete, srv_highWaterMarkCallback = Some DefaultHighWaterMark,
      srv_highWaterMark = 64 * 1024, threadInitCallback = None\<rparr>"

text \<open>The callbacks that \<open>newConnection\<close> copies into a new connection.\<close>

definition srv_hand_over :: "nat \<Rightarrow> 'u srv_callbacks \<Rightarrow> 'u conn_callbacks" where
  "srv_hand_over junk s =
     conn_setHighWaterMarkCallback (srv_highWaterMarkCallback s) (srv_highWaterMark s)
       (conn_setWriteCompleteCallback (srv_writeCompleteCallback s)
         (conn_setMessageCallback (messageCallback s)
           (conn_setConnectionCallback (connectionCallback s) (no_callbacks junk))))"

text \<open>The calls of a user, and the connections that are accepted in between.\<close>

datatype 'u reg_act =
    SetConnectionCallback "'u cb option"
  | SetMessageCallback "'u cb option"
  | SetWriteCompleteCallback "'u cb option"
  | SetHighWaterMarkCallback "'u cb option" nat
  | SetThreadInitCallback "'u cb option"
  | Accepted nat

fun srv_register :: "'u reg_act \<Rightarrow> 'u srv_callbacks \<Rightarrow> 'u srv_callbacks" where
  "srv_register (SetConnectionCallback f) s = s\<lparr>connectionCallback := f\<rparr>"
| "srv_register (SetMessageCallback f) s = s\<lparr>messageCallback := f\<rparr>"
| "srv_register (SetWriteCompleteCallback f) s = s\<lparr>srv_writeCompleteCallback := f\<rparr>"
| "srv_register (SetHighWaterMarkCallback f mark) s = s\<lparr>srv_highWaterMarkCallback := f, srv_highWaterMark := mark\<rparr>"
| "srv_register (SetThreadInitCallback f) s = s\<lparr>threadInitCallback := f\<rparr>"
| "srv_register (Accepted junk) s = s"

fun reg_exec :: "'u reg_act \<Rightarrow> 'u srv_callbacks \<times> 'u conn_callbacks list \<Rightarrow> 'u srv_callbacks \<times> 'u conn_callbacks list" where
  "reg_exec (Accepted junk) (s, cs) = (s, cs @ [srv_hand_over junk s])"
| "reg_exec a (s, cs) = (srv_register a s, cs)"

text \<open>What a history of calls leaves registered: the argument of the last call of each setter, or what the constructor
  set.\<close>

fun calls_of :: "('u reg_act \<Rightarrow> 'c option) \<Rightarrow> 'u reg_act list \<Rightarrow> 'c list" where
  "calls_of f as = List.map_filter f as"

definition last_set :: "('u reg_act \<Rightarrow> 'c option) \<Rightarrow> 'c \<Rightarrow> 'u reg_act list \<Rightarrow> 'c" where
  "last_set f d as = (if calls_of f as = [] then d else last (calls_of f as))"

fun set_connection :: "'u reg_act \<Rightarrow> 'u cb option option" where
  "set_connection (SetConnectionCallback f) = Some f"
| "set_connection _ = None"

fun set_message :: "'u reg_act \<Rightarrow> 'u cb option option" where
  "set_message (SetMessageCallback f) = Some f"
| "set_message _ = None"

fun set_writeComplete :: "'u reg_act \<Rightarrow> 'u cb option option" where
  "set_writeComplete (SetWriteCompleteCallback f) = Some f"
| "set_writeComplete _ = None"

fun set_highWaterMark :: "'u reg_act \<Rightarrow> ('u cb option \<times> nat) option" where
  "set_highWaterMark (SetHighWaterMarkCallback f mark) = Some (f, mark)"
| "set_highWaterMark _ = None"

fun is_accept :: "'u reg_act \<Rightarrow> bool" where
  "is_accept (Accepted junk) = True"
| "is_accept _ = False"

lemma last_set_simps [simp]:
  "last_set f d [] = d"
  "last_set f d (as @ [a]) = (case f a of None \<Rightarrow> last_set f d as | Some x \<Rightarrow> x)"
  by (auto simp: last_set_def List.map_filter_def split: option.splits)

lemma registered:
  "fst (fold reg_exec as (TcpServer_callbacks, [])) =
     \<lparr>connectionCallback = last_set set_connection (Some DefaultConnection) as,
      messageCallback = last_set set_message (Some DefaultMessage) as,
      srv_writeCompleteCallback = last_set set_writeComplete (Some DefaultWriteComplete) as,
      srv_highWaterMarkCallback = fst (last_set set_highWaterMark (Some DefaultHighWaterMark, 64 * 1024) as),
      srv_highWaterMark = snd (last_set set_highWaterMark (Some DefaultHighWaterMark, 64 * 1024) as),
      threadInitCallback = threadInitCallback (fst (fold reg_exec as (TcpServer_callbacks, [])))\<rparr>"
proof (induction as rule: rev_induct)
  case (snoc a as)
  obtain s cs where "fold reg_exec as (TcpServer_callbacks, []) = (s, cs)" by fastforce
  then show ?case using snoc by (cases s) (cases a; simp)
qed (simp add: TcpServer_callbacks_def)

lemma reg_exec_conns: "\<exists>ds. snd (fold reg_exec as (s, cs)) = cs @ ds \<and> length ds = length (filter is_accept as)"
proof (induction as arbitrary: s cs)
  case (Cons a as)
  show ?case
  proof (cases a)
    case (Accepted junk)
    obtain ds where "snd (fold reg_exec as (s, cs @ [srv_hand_over junk s])) = (cs @ [srv_hand_over junk s]) @ ds"
      "length ds = length (filter is_accept as)" using Cons by blast
    then show ?thesis using Accepted by (intro exI [of _ "srv_hand_over junk s # ds"]) simp
  qed (use Cons in simp_all)
qed simp

text \<open>A connection has, for good, the callbacks and the high-water mark that were registered with the server
  when it was accepted: those of the last call of each setter before, or the defaults; later calls do not touch it.\<close>

theorem callbacks_at_accept:
  "snd (fold reg_exec (before @ Accepted junk # after) (TcpServer_callbacks, [])) ! length (filter is_accept before) =
     \<lparr>on_connection = last_set set_connection (Some DefaultConnection) before,
      on_message = last_set set_message (Some DefaultMessage) before,
      on_writeComplete = last_set set_writeComplete (Some DefaultWriteComplete) before,
      on_highWaterMark = fst (last_set set_highWaterMark (Some DefaultHighWaterMark, 64 * 1024) before),
      high_mark = snd (last_set set_highWaterMark (Some DefaultHighWaterMark, 64 * 1024) before)\<rparr>"
proof -
  obtain s cs where b: "fold reg_exec before (TcpServer_callbacks, []) = (s, cs)" by fastforce
  then have len: "length cs = length (filter is_accept before)"
    using reg_exec_conns [of before TcpServer_callbacks "[]"] by auto
  obtain ds where "snd (fold reg_exec after (s, cs @ [srv_hand_over junk s])) = (cs @ [srv_hand_over junk s]) @ ds"
    using reg_exec_conns by blast
  then have "snd (fold reg_exec (before @ Accepted junk # after) (TcpServer_callbacks, [])) ! length cs = srv_hand_over junk s"
    by (simp add: b nth_append)
  moreover have "s = \<lparr>connectionCallback = last_set set_connection (Some DefaultConnection) before,
      messageCallback = last_set set_message (Some DefaultMessage) before,
      srv_writeCompleteCallback = last_set set_writeComplete (Some DefaultWriteComplete) before,
      srv_highWaterMarkCallback = fst (last_set set_highWaterMark (Some DefaultHighWaterMark, 64 * 1024) before),
      srv_highWaterMark = snd (last_set set_highWaterMark (Some DefaultHighWaterMark, 64 * 1024) before),
      threadInitCallback = threadInitCallback s\<rparr>" using registered [of before] b by simp
  moreover have "srv_hand_over junk s = \<lparr>on_connection = connectionCallback s, on_message = messageCallback s,
      on_writeComplete = srv_writeCompleteCallback s, on_highWaterMark = srv_highWaterMarkCallback s,
      high_mark = srv_highWaterMark s\<rparr>"
    by (simp add: srv_hand_over_def no_callbacks_def conn_setConnectionCallback_def conn_setMessageCallback_def
        conn_setWriteCompleteCallback_def conn_setHighWaterMarkCallback_def)
  ultimately show ?thesis
    by (metis len srv_callbacks.select_convs(1) srv_callbacks.select_convs(2) srv_callbacks.select_convs(3)
        srv_callbacks.select_convs(4) srv_callbacks.select_convs(5))
qed

section \<open>The client\<close>

text \<open>\<open>TcpClient\<close> has no high-water callback, and its \<open>writeCompleteCallback_\<close> starts empty.\<close>

record 'u cl_callbacks =
  cl_connection :: "'u cb option"
  cl_message :: "'u cb option"
  cl_writeComplete :: "'u cb option"

definition TcpClient_callbacks :: "'u cl_callbacks" where
  "TcpClient_callbacks = \<lparr>cl_connection = Some DefaultConnection, cl_message = Some DefaultMessage, cl_writeComplete = None\<rparr>"

text \<open>The first setter takes a reference and moves out of it, so it empties the caller's variable, which is the second
  result; the others move out of a copy.\<close>

definition client_setNewConnectionCallback :: "'u cb option \<Rightarrow> 'u cl_callbacks \<Rightarrow> 'u cl_callbacks \<times> 'u cb option" where
  "client_setNewConnectionCallback f s = (s\<lparr>cl_connection := f\<rparr>, None)"

definition client_setMessageCallback :: "'u cb option \<Rightarrow> 'u cl_callbacks \<Rightarrow> 'u cl_callbacks" where
  "client_setMessageCallback f s = s\<lparr>cl_message := f\<rparr>"

definition client_setWriteComplete :: "'u cb option \<Rightarrow> 'u cl_callbacks \<Rightarrow> 'u cl_callbacks" where
  "client_setWriteComplete f s = s\<lparr>cl_writeComplete := f\<rparr>"

definition client_hand_over :: "nat \<Rightarrow> 'u cl_callbacks \<Rightarrow> 'u conn_callbacks" where
  "client_hand_over junk s =
     conn_setWriteCompleteCallback (cl_writeComplete s)
       (conn_setMessageCallback (cl_message s) (conn_setConnectionCallback (cl_connection s) (no_callbacks junk)))"

text \<open>So a second client given the same variable gets an empty connection callback, and its connections call it.\<close>

lemma client_callback_moved:
  assumes "client_setNewConnectionCallback f TcpClient_callbacks = (s1, f1)"
    and "client_setNewConnectionCallback f1 TcpClient_callbacks = (s2, f2)"
  shows "on_connection (client_hand_over junk s1) = f \<and> on_connection (client_hand_over junk s2) = None"
  using assms
  by (auto simp: client_setNewConnectionCallback_def client_hand_over_def no_callbacks_def conn_setConnectionCallback_def
      conn_setMessageCallback_def conn_setWriteCompleteCallback_def)

end
