(* ===== verification/Lifetime.thy ===== *)
theory Lifetime
  imports Server_Steps
begin

text \<open>
  How long a connection lives, against the functors it queues for itself. \<open>TcpConnection\<close> hands a raw \<open>this\<close> to its
  loop in \<open>send\<close> and \<open>shutdown\<close> (\<open>net/TcpConnection.cpp\<close>); what makes that sound is the order of
  the one queue \<open>pendingFunctors_\<close> of the loop, which \<open>Tcp_Server\<close> leaves open for them. Here each loop has that queue, with
  the functors of the server and those of the connections in the order they were queued (\<open>Loop_Wakeup\<close> shows that
  the loop runs them in it).
\<close>

section \<open>What a connection queues\<close>

fun queued_functor :: "conn_effect \<Rightarrow> conn_functor option" where
  "queued_functor (EQueue f) = Some f"
| "queued_functor _ = None"

definition owed :: "conn_effect list \<Rightarrow> conn_functor list" where
  "owed es = List.map_filter queued_functor es"

lemma owed_simps [simp]:
  "owed [] = []" "owed (xs @ ys) = owed xs @ owed ys"
  "owed (e # es) = (case queued_functor e of None \<Rightarrow> owed es | Some f \<Rightarrow> f # owed es)"
  by (simp_all add: owed_def List.map_filter_def split: option.splits)

lemma owed_mem: "f \<in> set (owed es) \<longleftrightarrow> EQueue f \<in> set es"
proof (induction es)
  case (Cons e es)
  then show ?case by (cases e) auto
qed simp

text \<open>The part of the effects after the close callback was called.\<close>

definition before_close :: "conn_effect list \<Rightarrow> conn_effect list" where
  "before_close = takeWhile (\<lambda>e. e \<noteq> ECall OnClose)"

definition after_close :: "conn_effect list \<Rightarrow> conn_effect list" where
  "after_close = dropWhile (\<lambda>e. e \<noteq> ECall OnClose)"

lemma after_close_none: "closes s = 0 \<Longrightarrow> after_close (effects s) = []"
  by (auto simp: closes_def after_close_def filter_empty_conv)

lemma after_close_append:
  "after_close (xs @ ys) = (if ECall OnClose \<in> set xs then after_close xs @ ys else after_close ys)"
  by (auto simp: after_close_def dropWhile_append split: if_splits)

text \<open>A closed connection has nothing more to queue.\<close>

definition down_ok :: "conn \<Rightarrow> bool" where
  "down_ok s \<longleftrightarrow> close_inv s \<and> owed (after_close (effects s)) = [] \<and>
     (state s = KDisconnected \<longrightarrow> \<not> IsEnableWriteEvent (channel s))"

lemma down_close: "down_ok s \<Longrightarrow> close_inv s"
  by (simp add: down_ok_def)

lemma down_ok_open: "close_inv s \<Longrightarrow> state s \<noteq> KDisconnected \<Longrightarrow> down_ok s"
  by (simp add: down_ok_def close_inv_def after_close_none)

section \<open>A disconnected connection\<close>

lemma down_ucall: "state s = KDisconnected \<Longrightarrow> exec_conn_ucall mem x s = Inr s' \<Longrightarrow> \<exists>ib. s' = s\<lparr>inputBuffer := ib\<rparr>"
  by (cases x)
    (auto simp: logged_send_def send_def shutdown_def forceClose_def forceCloseWithDelay_def defaultMessageCallback_def
      rbind_Inr_iff intro: exI [of _ "inputBuffer s"])

lemma down_ucalls:
  "rfold (exec_conn_ucall mem) xs s = Inr s' \<Longrightarrow> state s = KDisconnected \<Longrightarrow> \<exists>ib. s' = s\<lparr>inputBuffer := ib\<rparr>"
proof (induction xs arbitrary: s)
  case (Cons x xs)
  then obtain t where t: "exec_conn_ucall mem x s = Inr t" "rfold (exec_conn_ucall mem) xs t = Inr s'"
    by (auto simp: rbind_Inr_iff)
  obtain ib where ib: "t = s\<lparr>inputBuffer := ib\<rparr>" using down_ucall [OF Cons.prems(2) t(1)] by blast
  then obtain ib' where "s' = t\<lparr>inputBuffer := ib'\<rparr>" using Cons.IH [OF t(2)] Cons.prems(2) by auto
  then show ?case using ib by auto
qed (auto intro: exI [of _ "inputBuffer s'"])

lemma down_call:
  "call (user_callbacks u) c s = Inr s' \<Longrightarrow> state s = KDisconnected \<Longrightarrow> \<exists>ib. s' = (emit (ECall c) s)\<lparr>inputBuffer := ib\<rparr>"
  unfolding call_def user_callbacks_def by (drule down_ucalls) (simp_all add: emit_def)

text \<open>What may still happen to it: it only changes its input buffer and its list of effects, without queueing.\<close>

definition still_down :: "conn \<Rightarrow> conn \<Rightarrow> bool" where
  "still_down s s' \<longleftrightarrow> state s' = KDisconnected \<and> events (channel s') = events (channel s) \<and>
     owed (effects s') = owed (effects s) \<and> prefix (effects s) (effects s')"

lemma still_down_refl: "state s = KDisconnected \<Longrightarrow> still_down s s"
  by (simp add: still_down_def)

lemma still_down_trans: "still_down s t \<Longrightarrow> still_down t v \<Longrightarrow> still_down s v"
  by (auto simp: still_down_def intro: prefix_order.trans)

lemma down_cb:
  assumes "exec_conn_cb (user_callbacks u) rv w cb s = Inr s'" "state s = KDisconnected" "\<not> IsEnableWriteEvent (channel s)"
  shows "still_down s s'"
proof (cases cb)
  case HandleRead
  then obtain ib where "call (user_callbacks u) OnMessage (s\<lparr>inputBuffer := ib\<rparr>) = Inr s' \<or> s' = s\<lparr>inputBuffer := ib\<rparr>"
    using assms(1,2) by (auto simp: handleRead_def handleClose_def result_iffs Let_def split: if_splits)
  then show ?thesis
    using assms(2) down_call [of u OnMessage "s\<lparr>inputBuffer := ib\<rparr>" s'] by (auto simp: still_down_def emit_def)
next
  case HandleWirte
  then show ?thesis using assms by (simp add: handleWirte_def still_down_refl)
next
  case HandleClose
  then show ?thesis using assms by (simp add: handleClose_def)
qed

lemma down_call_if:
  assumes "call_if b (exec_conn_cb (user_callbacks u) rv w) cb s = Inr s'" "state s = KDisconnected"
    "\<not> IsEnableWriteEvent (channel s)"
  shows "still_down s s'"
  using assms by (auto simp: call_if_def still_down_refl intro: down_cb split: if_splits option.splits)

lemma write_enabled_events: "events c = events d \<Longrightarrow> IsEnableWriteEvent c = IsEnableWriteEvent d"
  by (simp add: IsEnableWriteEvent_def)

lemma down_ok_still:
  assumes "still_down s s'" "down_ok s" "state s = KDisconnected" "close_inv s'"
  shows "down_ok s'"
proof -
  have "closes s = 1" using assms(2,3) by (simp add: down_ok_def close_inv_def)
  then have "filter ((=) (ECall OnClose)) (effects s) \<noteq> []" by (auto simp: closes_def)
  then have "ECall OnClose \<in> set (effects s)" by (auto simp: filter_empty_conv)
  moreover obtain es where es: "effects s' = effects s @ es" "owed es = []"
    using assms(1) by (auto simp: still_down_def prefix_def)
  ultimately have "owed (after_close (effects s')) = []"
    using assms(2) by (simp add: after_close_append down_ok_def)
  then show ?thesis using assms write_enabled_events [of "channel s'" "channel s"]
    by (simp add: down_ok_def still_down_def)
qed

section \<open>Every step keeps it\<close>

lemma down_ok_handleClose:
  assumes "handleClose b (user_callbacks u) s = Inr s'" "close_inv s"
  shows "down_ok s'"
proof -
  let ?t = "upd_channel DisableAllEvent (s\<lparr>state := KDisconnected\<rparr>)"
  obtain s1 where s1: "state s \<noteq> KDisconnected" "call (user_callbacks u) OnConnection ?t = Inr s1"
    "s' = emit (ECall OnClose) s1"
    using assms(1) by (auto simp: handleClose_def result_iffs call_def user_callbacks_def)
  obtain ib where ib: "s1 = (emit (ECall OnConnection) ?t)\<lparr>inputBuffer := ib\<rparr>"
    using down_call [OF s1(2)] by (auto simp: upd_channel_def emit_def)
  have "ECall OnClose \<notin> set (effects s)"
    using assms(2) s1(1) by (auto simp: close_inv_def closes_def filter_empty_conv)
  then have "owed (after_close (effects s')) = []"
    using s1(3) ib by (auto simp: upd_channel_def emit_def after_close_append) (auto simp: after_close_def)
  moreover have "\<not> IsEnableWriteEvent (channel s')"
    using s1(3) ib by (simp add: upd_channel_def emit_def set_interest_def IsEnableWriteEvent_def KNoneEvent_def)
  ultimately show ?thesis using close_inv_handleClose [OF assms] by (simp add: down_ok_def)
qed

lemma down_ok_no_close:
  assumes "no_close s s'" "down_ok s" "state s \<noteq> KDisconnected"
  shows "down_ok s'"
  using assms close_inv_no_close [OF assms(1)] by (intro down_ok_open) (auto simp: down_ok_def no_close_def)

lemma down_ok_cb:
  assumes "exec_conn_cb (user_callbacks u) rv w cb s = Inr s'" "down_ok s"
  shows "down_ok s'"
proof (cases "state s = KDisconnected")
  case True
  have "still_down s s'" by (rule down_cb [OF assms(1) True]) (use True assms(2) in \<open>simp add: down_ok_def\<close>)
  moreover have "close_inv s'" using close_inv_cb [OF assms(1)] assms(2) by (simp add: down_ok_def)
  ultimately show ?thesis by (rule down_ok_still [OF _ assms(2) True])
next
  case False
  show ?thesis
  proof (cases cb)
    case HandleRead
    then obtain ib where "call (user_callbacks u) OnMessage (s\<lparr>inputBuffer := ib\<rparr>) = Inr s' \<or>
        handleClose True (user_callbacks u) (s\<lparr>inputBuffer := ib\<rparr>) = Inr s' \<or> s' = s\<lparr>inputBuffer := ib\<rparr>"
      using assms(1) by (auto simp: handleRead_def rbind_Inr_iff Let_def split: if_splits)
    moreover have "down_ok (s\<lparr>inputBuffer := ib\<rparr>)" "close_inv (s\<lparr>inputBuffer := ib\<rparr>)"
      using assms(2) by (simp_all add: down_ok_def close_inv_def)
    ultimately show ?thesis using False nc.calls [of u OnMessage "s\<lparr>inputBuffer := ib\<rparr>" s']
      by (auto intro: down_ok_handleClose down_ok_no_close)
  next
    case HandleWirte
    then show ?thesis using assms False by (auto dest: nc.writes intro: down_ok_no_close)
  next
    case HandleClose
    then show ?thesis using assms by (auto intro: down_ok_handleClose down_close)
  qed
qed

lemma down_ok_call_if:
  "call_if b (exec_conn_cb (user_callbacks u) rv w) cb s = Inr s' \<Longrightarrow> down_ok s \<Longrightarrow> down_ok s'"
  by (auto simp: call_if_def dest: down_ok_cb split: if_splits option.splits)

lemma down_ok_channel: "events c = events (channel s) \<Longrightarrow> down_ok (s\<lparr>channel := c\<rparr>) = down_ok s"
  by (simp add: down_ok_def write_enabled_events [of c "channel s"])

lemma down_ok_event:
  assumes "conn_HandleEvent (user_callbacks u) rv w s = Inr s'" "down_ok s"
  shows "down_ok s'"
proof -
  have h: "down_ok (conn_upd (set_handling 0 b) t) = down_ok t" for b t
    by (simp add: conn_upd_handling down_ok_channel)
  show ?thesis
    using assms unfolding conn_HandleEvent_eq by (auto simp: rbind_Inr_iff h dest!: down_ok_call_if)
qed

text \<open>Only a connection that is up, or is being established, queues anything.\<close>

lemma down_exec:
  assumes "conn_exec (user_callbacks u) a s = Inr s'" "down_ok s" "state s = KDisconnected" "act_ok a s"
  shows "still_down s s'"
proof (cases a)
  case (ACall mem x)
  then show ?thesis using assms down_ucall [of s mem x s'] by (auto simp: still_down_def)
next
  case (AFunctor f mem w)
  then show ?thesis using assms
    by (cases f) (auto simp: forceCloseInLoop_def logged_sendInLoop_def sendInLoop_def log_handed_def shutdownInLoop_def
        still_down_def emit_def split: if_splits)
qed (use assms in \<open>auto simp: send_def shutdown_def forceClose_def setWriteCompleteCallback_def setHighWaterMarkCallback_def
      still_down_def\<close>)

lemma connecting_exec:
  assumes "conn_exec (user_callbacks u) a s = Inr s'" "state s = KConnecting" "act_ok a s" "a \<noteq> AEstablish"
  shows "owed (effects s') = owed (effects s)"
  using assms
  by (cases a) (auto simp: send_def shutdown_def forceClose_def setWriteCompleteCallback_def setHighWaterMarkCallback_def)

lemma down_ok_exec:
  assumes "conn_exec (user_callbacks u) a s = Inr s'" "down_ok s" "act_ok a s"
  shows "down_ok s'"
proof (cases "state s = KDisconnected")
  case True
  have "close_inv s'" using close_inv_exec [OF assms(1)] assms(2) by (simp add: down_ok_def)
  then show ?thesis using down_ok_still [OF down_exec [OF assms(1,2) True assms(3)] assms(2) True] by simp
next
  case False
  have c: "close_inv s'" "close_inv s" using close_inv_exec [OF assms(1)] assms(2) by (simp_all add: down_ok_def)
  show ?thesis
  proof (cases a)
    case (AEvent r rv w)
    have "down_ok (s\<lparr>channel := SetReceiveEvent r (channel s)\<rparr>)"
      using assms(2) by (simp add: down_ok_channel SetReceiveEvent_def)
    then show ?thesis using AEvent assms(1) down_ok_event by simp
  next
    case (AFunctor f mem w)
    show ?thesis
    proof (cases "f = FForceCloseInLoop")
      case True
      then show ?thesis using AFunctor assms(1) False c
        by (auto simp: forceCloseInLoop_def intro: down_ok_handleClose down_ok_open split: if_splits)
    next
      case other: False
      then have "no_close s s'" using AFunctor assms(1)
        by (cases f) (auto simp: logged_sendInLoop_def rbind_Inr_iff dest!: nc.sends nc.shuts intro: nc.logs)
      then show ?thesis using assms(2) False by (rule down_ok_no_close)
    qed
  next
    case AEstablish
    then obtain t where t: "call (user_callbacks u) OnConnection t = Inr s'" "state t = KConnected"
      using assms(1) by (auto simp: ConnectEstablished_def cassert_Inr_iff upd_channel_def emit_def)
    have "state s' \<noteq> KDisconnected" using nc.calls [OF t(1)] t(2) by (simp add: no_close_def)
    then show ?thesis using c(1) by (intro down_ok_open)
  qed (use assms(1) False c(1) calm_no_close [of a u s s'] assms(2) in \<open>auto intro: down_ok_no_close\<close>)
qed


section \<open>What a step of the server does to one connection\<close>

text \<open>Nothing; an action of the connection itself; or its \<open>ConnectDestoryed\<close>.\<close>

definition moved :: "user_prog \<Rightarrow> sconn \<Rightarrow> sconn \<Rightarrow> bool" where
  "moved u c c' \<longleftrightarrow> \<not> cgone c \<and>
     (\<exists>a b. act_ok a (cbody c) \<and> conn_exec (user_callbacks u) a (cbody c) = Inr b \<and> c' = c\<lparr>cbody := b\<rparr>)"

definition ended :: "srv_act \<Rightarrow> server \<Rightarrow> nat \<Rightarrow> sconn \<Rightarrow> sconn \<Rightarrow> bool" where
  "ended x s p c c' \<longleftrightarrow> state (cbody c) = KDisconnected \<and> c' = c\<lparr>cbody := emit ERemove (cbody c), cgone := True\<rparr> \<and>
     (\<exists>fs. x = SRun (cloop c) \<and> queues s (cloop c) = SDestroy p # fs)"

lemma step_body_run:
  assumes inv: "srv_inv s" and q: "queues s l = f # fs"
    and run: "exec_srv_functor u l f (s\<lparr>queues := (queues s)(l := fs)\<rparr>) = Inr t" and c: "conns s p = Some c"
  shows "\<exists>c'. conns t p = Some c' \<and> (c' = c \<or> moved u c c' \<or> ended (SRun l) s p c c')"
proof (cases f)
  case (SEstablish q')
  then obtain d where d: "conns s q' = Some d" "cloop d = l" "state (cbody d) = KConnecting"
    using srv_invD(2) [OF inv, of f l] q by (auto simp: functor_stage_def)
  have gone: "\<not> cgone d" using srv_invD(3) [OF inv d(1)] d(3) by (auto simp: conn_stage_def)
  obtain b where b: "conn_exec (user_callbacks u) AEstablish (cbody d) = Inr b"
      "t = set_body q' b (s\<lparr>queues := (queues s)(l := fs)\<rparr>)"
    using run SEstablish d(1) by (auto elim!: establish_frame)
  have "moved u d (d\<lparr>cbody := b\<rparr>)" unfolding moved_def using gone b(1) d(3) by (intro conjI exI [of _ AEstablish] exI [of _ b]) auto
  then show ?thesis using b(2) c d(1) by (cases "p = q'") (auto simp: set_body_def)
next
  case (SRemove q')
  then show ?thesis using run c by (auto simp: removeConnectionInLoop_def result_iffs srv_queue_def)
next
  case (SDestroy q')
  then obtain d where d: "conns s q' = Some d" "cloop d = l" "state (cbody d) = KDisconnected" "\<not> cgone d"
    using srv_invD(2) [OF inv, of f l] q by (auto simp: functor_stage_def)
  then have t: "conns t = (conns s)(q' \<mapsto> d\<lparr>cbody := emit ERemove (cbody d), cgone := True\<rparr>)"
    using run SDestroy by (auto simp: destroy_def destroy_body)
  then show ?thesis using c d q SDestroy by (cases "p = q'") (auto simp: ended_def)
qed

lemma step_body:
  assumes inv: "srv_inv s" and ok: "srv_ok x s" and run: "srv_exec u x s = Inr t" and c: "conns s p = Some c"
  shows "\<exists>c'. conns t p = Some c' \<and> (c' = c \<or> moved u c c' \<or> ended x s p c c')"
proof (cases x)
  case (SAccept q fd junk)
  show ?thesis
  proof (cases "0 \<le> fd")
    case True
    obtain c' where "conns t = (conns s)(q \<mapsto> c')" by (rule accept_step [OF run [unfolded SAccept] True])
    then show ?thesis using ok c SAccept by (cases "p = q") auto
  qed (use run c SAccept in \<open>simp add: acceptor_HandleRead_def\<close>)
next
  case (SRun l)
  show ?thesis
  proof (cases "queues s l")
    case Nil
    then show ?thesis using run c SRun by simp
  next
    case (Cons f fs)
    then show ?thesis using step_body_run [OF inv Cons] run c SRun by simp
  qed
next
  case (SConn q a)
  then obtain d where d: "conns s q = Some d" "\<not> cgone d" "act_ok a (cbody d)" using ok by (auto split: option.splits)
  obtain b where b: "conn_exec (user_callbacks u) a (cbody d) = Inr b"
    and r: "rfold (\<lambda>_. removeConnection (cloop d) q) (replicate (closes b - closes (cbody d)) ()) (set_body q b s) = Inr t"
    using run d(1) SConn by (auto simp: result_iffs)
  have "moved u d (d\<lparr>cbody := b\<rparr>)" unfolding moved_def using d b by (intro conjI exI [of _ a] exI [of _ b]) auto
  then show ?thesis using removeConnections_frame [OF r] c d(1) by (cases "p = q") (auto simp: set_body_def)
qed

text \<open>What it queued on the way.\<close>

definition new_effects :: "conn \<Rightarrow> conn \<Rightarrow> conn_effect list" where
  "new_effects b b' = drop (length (effects b)) (effects b')"

lemma new_effects_prefix: "prefix (effects b) (effects b') \<Longrightarrow> effects b' = effects b @ new_effects b b'"
  by (auto simp: prefix_def new_effects_def)

lemma owed_after_close:
  assumes "prefix (effects b) (effects b')" "down_ok b'"
  shows "owed (after_close (new_effects b b')) = []"
proof (cases "ECall OnClose \<in> set (effects b)")
  case True
  then have "owed (new_effects b b') = []"
    using assms(2) new_effects_prefix [OF assms(1)] by (auto simp: down_ok_def after_close_append)
  then show ?thesis by (auto simp: owed_def List.map_filter_def filter_empty_conv after_close_def dest: set_dropWhileD)
next
  case False
  then show ?thesis using assms(2) new_effects_prefix [OF assms(1)] by (simp add: down_ok_def after_close_append)
qed

lemma moved_queues:
  assumes m: "moved u c c'" and u: "user_ok u" and ok: "conn_ok (cbody c)" "down_ok (cbody c)"
  shows "conn_next c c'" "down_ok (cbody c')" "\<not> cgone c'"
    and "owed (new_effects (cbody c) (cbody c')) \<noteq> [] \<Longrightarrow> state (cbody c) \<noteq> KDisconnected \<and> state (cbody c') \<noteq> KConnecting"
proof -
  obtain a b where a: "act_ok a (cbody c)" "conn_exec (user_callbacks u) a (cbody c) = Inr b" "c' = c\<lparr>cbody := b\<rparr>" "\<not> cgone c"
    using m by (auto simp: moved_def)
  show nxt: "conn_next c c'" unfolding a(3) by (rule body_next [OF u ok(1) a(1,2,4)])
  show "down_ok (cbody c')" using down_ok_exec [OF a(2) ok(2) a(1)] a(3) by simp
  show "\<not> cgone c'" using a(3,4) by simp
  assume new: "owed (new_effects (cbody c) (cbody c')) \<noteq> []"
  have "prefix (effects (cbody c)) (effects b)" using nxt a(3) by (simp add: conn_next_def)
  then have differ: "owed (effects b) \<noteq> owed (effects (cbody c))"
    using new new_effects_prefix [of "cbody c" b] a(3) by simp
  then have "state (cbody c) \<noteq> KDisconnected" using down_exec [OF a(2) ok(2) _ a(1)] by (auto simp: still_down_def)
  moreover have "state b \<noteq> KConnecting"
  proof (cases "state (cbody c) = KConnecting")
    case True
    then have "a = AEstablish" using connecting_exec [OF a(2) True a(1)] differ by auto
    then show ?thesis using establish_body [OF u ok(1) down_close [OF ok(2)] True] a(2) by auto
  next
    case False
    then show ?thesis using nxt a(3) by (cases "state (cbody c)") (auto simp: conn_next_def rank_def)
  qed
  ultimately show "state (cbody c) \<noteq> KDisconnected \<and> state (cbody c') \<noteq> KConnecting" using a(3) by simp
qed

section \<open>The queue of each loop\<close>

datatype item = ISrv srv_functor | IConn nat conn_functor

record life =
  lsrv :: server
  fifo :: "nat \<Rightarrow> item list"

definition life_start :: "server \<Rightarrow> life" where
  "life_start s = \<lparr>lsrv = s, fifo = (\<lambda>l. map ISrv (queues s l))\<rparr>"

text \<open>\<open>LDo\<close> is a step that takes nothing from a queue. \<open>LRun\<close> takes the first functor of a loop, whichever it
  is, with the memory it finds and the answer of the \<open>write\<close> it may make.\<close>

datatype life_act = LDo srv_act | LRun nat memory syswrite

fun srv_act_of :: "life_act \<Rightarrow> life \<Rightarrow> srv_act option" where
  "srv_act_of (LDo x) s = Some x"
| "srv_act_of (LRun l mem w) s =
     (case fifo s l of
        [] \<Rightarrow> None
      | ISrv f # is \<Rightarrow> Some (SRun l)
      | IConn p f # is \<Rightarrow> Some (SConn p (AFunctor f mem w)))"

fun left_over :: "life_act \<Rightarrow> life \<Rightarrow> nat \<Rightarrow> item list" where
  "left_over (LDo x) s k = fifo s k"
| "left_over (LRun l mem w) s k = (if k = l then tl (fifo s l) else fifo s k)"

text \<open>What a step queues to loop \<open>k\<close>: the functors of the connection it is about, those of the server, which come
  with the close callback, and what the connection queued after that.\<close>

definition body_at :: "server \<Rightarrow> nat \<Rightarrow> conn" where
  "body_at s p = (case conns s p of None \<Rightarrow> TcpConnection 0 0 | Some c \<Rightarrow> cbody c)"

definition own_items :: "(conn_effect list \<Rightarrow> conn_effect list) \<Rightarrow> srv_act \<Rightarrow> server \<Rightarrow> server \<Rightarrow> nat \<Rightarrow> item list" where
  "own_items part x s s' k =
     (case touched x s of
        None \<Rightarrow> []
      | Some p \<Rightarrow>
          (case conns s' p of
             None \<Rightarrow> []
           | Some c \<Rightarrow> if cloop c = k then map (IConn p) (owed (part (new_effects (body_at s p) (cbody c)))) else []))"

definition srv_items :: "srv_act \<Rightarrow> server \<Rightarrow> server \<Rightarrow> nat \<Rightarrow> item list" where
  "srv_items x s s' k = map ISrv (drop (length (if x = SRun k then tl (queues s k) else queues s k)) (queues s' k))"

definition queued_by :: "srv_act \<Rightarrow> server \<Rightarrow> server \<Rightarrow> nat \<Rightarrow> item list" where
  "queued_by x s s' k = own_items before_close x s s' k @ srv_items x s s' k @ own_items after_close x s s' k"

definition life_exec :: "user_prog \<Rightarrow> life_act \<Rightarrow> life \<Rightarrow> life result" where
  "life_exec u a s =
     (case srv_act_of a s of
        None \<Rightarrow> Inr s
      | Some x \<Rightarrow> rbind (srv_exec u x (lsrv s)) (\<lambda>t.
          Inr \<lparr>lsrv = t, fifo = (\<lambda>k. left_over a s k @ queued_by x (lsrv s) t k)\<rparr>))"

text \<open>The timer of \<open>forceCloseWithDelay\<close> is no functor of the queue. Of a functor of the queue, only what its arguments
  must satisfy is asked: that its connection is still there is what follows from the order.\<close>

fun takes_functor :: "srv_act \<Rightarrow> bool" where
  "takes_functor (SRun l) \<longleftrightarrow> True"
| "takes_functor (SConn p (AFunctor f mem w)) \<longleftrightarrow> f \<noteq> FForceCloseInLoop"
| "takes_functor x \<longleftrightarrow> False"

fun life_ok :: "life_act \<Rightarrow> life \<Rightarrow> bool" where
  "life_ok (LDo x) s \<longleftrightarrow> \<not> takes_functor x \<and> srv_ok x (lsrv s)"
| "life_ok (LRun l mem w) s \<longleftrightarrow>
     (case fifo s l of IConn p f # is \<Rightarrow> functor_ok mem w f (body_at (lsrv s) p) | _ \<Rightarrow> True)"

abbreviation life_all_ok :: "user_prog \<Rightarrow> life_act list \<Rightarrow> life \<Rightarrow> bool" where
  "life_all_ok u \<equiv> legal_run (life_exec u) life_ok"

section \<open>The invariant\<close>

fun srv_functor_of :: "item \<Rightarrow> srv_functor option" where
  "srv_functor_of (ISrv f) = Some f"
| "srv_functor_of (IConn p f) = None"

definition srv_part :: "item list \<Rightarrow> srv_functor list" where
  "srv_part is = List.map_filter srv_functor_of is"

lemma srv_part_simps [simp]:
  "srv_part [] = []" "srv_part (ISrv f # is) = f # srv_part is" "srv_part (IConn p g # is) = srv_part is"
  "srv_part (is @ js) = srv_part is @ srv_part js" "srv_part (map ISrv fs) = fs" "srv_part (map (IConn p) gs) = []"
  by (simp_all add: srv_part_def List.map_filter_def comp_def)

lemma srv_part_mem: "f \<in> set (srv_part is) \<longleftrightarrow> ISrv f \<in> set is"
proof (induction "is")
  case (Cons i "is")
  then show ?case by (cases i) auto
qed simp

text \<open>No functor of a connection waits behind its \<open>ConnectDestoryed\<close>.\<close>

fun in_order :: "item list \<Rightarrow> bool" where
  "in_order [] \<longleftrightarrow> True"
| "in_order (ISrv (SDestroy p) # is) \<longleftrightarrow> list_all (\<lambda>i. case i of IConn q f \<Rightarrow> q \<noteq> p | _ \<Rightarrow> True) is \<and> in_order is"
| "in_order (_ # is) \<longleftrightarrow> in_order is"

lemma in_order_tl: "in_order is \<Longrightarrow> in_order (tl is)"
  by (induction "is" rule: in_order.induct) auto

lemma in_order_head: "in_order (ISrv (SDestroy p) # is) \<Longrightarrow> IConn p f \<notin> set is"
  by (auto simp: list_all_iff split: item.splits)

lemma in_order_maps: "in_order (map ISrv fs)" "in_order (map (IConn p) gs)"
proof -
  show "in_order (map ISrv fs)"
  proof (induction fs)
    case (Cons f fs)
    then show ?case by (cases f) (auto simp: list_all_iff)
  qed simp
  show "in_order (map (IConn p) gs)" by (induction gs) simp_all
qed

lemma in_order_append:
  "in_order is \<Longrightarrow> in_order js \<Longrightarrow> (\<And>p f. ISrv (SDestroy p) \<in> set is \<Longrightarrow> IConn p f \<notin> set js) \<Longrightarrow> in_order (is @ js)"
  by (induction "is" rule: in_order.induct) (auto simp: list_all_iff split: item.splits)

lemma in_order_srv: "in_order is \<Longrightarrow> in_order (is @ map ISrv fs)"
  by (rule in_order_append) (auto simp: in_order_maps)

lemma in_order_conn: "in_order is \<Longrightarrow> ISrv (SDestroy p) \<notin> set is \<or> gs = [] \<Longrightarrow> in_order (is @ map (IConn p) gs)"
  by (rule in_order_append) (auto simp: in_order_maps)

text \<open>A functor of a connection waits in the connection's loop, was queued by it, and the connection is there.\<close>

definition conn_item :: "server \<Rightarrow> nat \<Rightarrow> item \<Rightarrow> bool" where
  "conn_item s k i \<longleftrightarrow>
     (case i of
        ISrv f \<Rightarrow> True
      | IConn p f \<Rightarrow> (\<exists>c. conns s p = Some c \<and> cloop c = k \<and> \<not> cgone c \<and> state (cbody c) \<noteq> KConnecting \<and>
          EQueue f \<in> set (effects (cbody c))))"

definition downs :: "server \<Rightarrow> bool" where
  "downs s \<longleftrightarrow> (\<forall>p c. conns s p = Some c \<and> \<not> cgone c \<longrightarrow> down_ok (cbody c))"

definition life_inv :: "life \<Rightarrow> bool" where
  "life_inv s \<longleftrightarrow> srv_inv (lsrv s) \<and> downs (lsrv s) \<and>
     (\<forall>k. srv_part (fifo s k) = queues (lsrv s) k \<and> in_order (fifo s k) \<and> (\<forall>i \<in> set (fifo s k). conn_item (lsrv s) k i))"

lemma life_invD:
  assumes "life_inv s"
  shows "srv_inv (lsrv s)" "downs (lsrv s)" "srv_part (fifo s k) = queues (lsrv s) k" "in_order (fifo s k)"
    "i \<in> set (fifo s k) \<Longrightarrow> conn_item (lsrv s) k i"
  using assms by (simp_all add: life_inv_def)

section \<open>Every step keeps it\<close>

lemma fresh_body_ok:
  "conn_ok (fresh_body hw fd junk)" "down_ok (fresh_body hw fd junk)" "state (fresh_body hw fd junk) = KConnecting"
  "effects (fresh_body hw fd junk) = []"
  using conn_ok_new [of fd junk] close_inv_new [of fd junk]
  by (auto simp: fresh_body_def setHighWaterMarkCallback_def setWriteCompleteCallback_def conn_ok_def conn_inv_def wired_def
      close_inv_def closes_def TcpConnection_def intro: down_ok_open)

text \<open>A connection that was not there before.\<close>

lemma step_fresh:
  assumes inv: "srv_inv s" and ok: "srv_ok x s" and run: "srv_exec u x s = Inr t" and u: "user_ok u"
    and c: "conns s p = None" "conns t p = Some c'"
  shows "\<exists>c0. conn_ok (cbody c0) \<and> down_ok (cbody c0) \<and> effects (cbody c0) = [] \<and> \<not> cgone c0 \<and> (c' = c0 \<or> moved u c0 c')"
proof -
  have "srv_frame x s t" by (rule srv_frame_step [OF inv u ok run])
  then obtain fd junk where x: "x = SAccept p fd junk" "0 \<le> fd"
    using c unfolding srv_frame_def by (auto split: if_splits)
  let ?b = "fresh_body (srvHighWaterMark s) fd junk"
  obtain io b where b: "c' = \<lparr>cname = to_string (nextConnId s), cloop = io, cbody = b, cgone = False\<rparr>"
      "b = ?b \<or> conn_exec (user_callbacks u) AEstablish ?b = Inr b"
    by (rule accept_step [OF run [unfolded x(1)] x(2)]) (use c(2) in auto)
  let ?c = "\<lparr>cname = to_string (nextConnId s), cloop = io, cbody = ?b, cgone = False\<rparr>"
  have "c' = ?c \<or> moved u ?c c'"
    unfolding moved_def using b fresh_body_ok(3) [of "srvHighWaterMark s" fd junk]
    by (auto simp del: conn_exec.simps intro!: exI [of _ AEstablish])
  then show ?thesis using fresh_body_ok by (intro exI [of _ ?c]) auto
qed

lemma step_downs:
  assumes inv: "srv_inv s" and ok: "srv_ok x s" and run: "srv_exec u x s = Inr t" and u: "user_ok u" and d: "downs s"
  shows "downs t"
  unfolding downs_def
proof (intro allI impI)
  fix p c' assume c': "conns t p = Some c' \<and> \<not> cgone c'"
  show "down_ok (cbody c')"
  proof (cases "conns s p")
    case None
    show ?thesis using step_fresh [OF inv ok run u None] c' moved_queues(2) [OF _ u] by blast
  next
    case (Some c)
    have c: "conn_ok (cbody c)" "down_ok (cbody c)" if "\<not> cgone c"
      using that srv_invD(3) [OF inv Some] d Some by (auto simp: conn_stage_def downs_def)
    show ?thesis using step_body [OF inv ok run Some] c' c moved_queues(2) [OF _ u]
      by (auto simp: ended_def moved_def)
  qed
qed

text \<open>What the step queued for its connection.\<close>

lemma no_part: "owed es = [] \<Longrightarrow> owed (before_close es) = [] \<and> owed (after_close es) = []"
  by (auto simp: owed_def List.map_filter_def filter_empty_conv before_close_def after_close_def
      dest!: set_takeWhileD set_dropWhileD)

lemma before_part: "set (owed (before_close es)) \<subseteq> set (owed es)"
  using set_takeWhileD by (fastforce simp: owed_mem before_close_def)

lemma new_queued:
  assumes inv: "srv_inv s" and ok: "srv_ok x s" and run: "srv_exec u x s = Inr t" and u: "user_ok u" and d: "downs s"
    and c': "conns t p = Some c'" and es: "es = new_effects (body_at s p) (cbody c')"
  shows "owed (after_close es) = []"
    and "f \<in> set (owed es) \<Longrightarrow> EQueue f \<in> set (effects (cbody c'))"
    and "owed es \<noteq> [] \<Longrightarrow> \<not> cgone c' \<and> state (cbody c') \<noteq> KConnecting \<and>
      (\<forall>c. conns s p = Some c \<longrightarrow> state (cbody c) \<noteq> KDisconnected)"
proof -
  show "f \<in> set (owed es) \<Longrightarrow> EQueue f \<in> set (effects (cbody c'))"
    by (auto simp: owed_mem es new_effects_def dest: in_set_dropD)
  have m: "owed (after_close (new_effects (cbody c) (cbody c'))) = [] \<and>
      (owed (new_effects (cbody c) (cbody c')) \<noteq> [] \<longrightarrow>
        \<not> cgone c' \<and> state (cbody c') \<noteq> KConnecting \<and> state (cbody c) \<noteq> KDisconnected)"
    if "moved u c c'" "conn_ok (cbody c)" "down_ok (cbody c)" for c
    using moved_queues [OF that(1) u that(2,3)] owed_after_close [of "cbody c" "cbody c'"] by (auto simp: conn_next_def)
  have all: "owed (after_close es) = [] \<and> (owed es \<noteq> [] \<longrightarrow> \<not> cgone c' \<and> state (cbody c') \<noteq> KConnecting \<and>
      (\<forall>c. conns s p = Some c \<longrightarrow> state (cbody c) \<noteq> KDisconnected))"
  proof (cases "conns s p")
    case None
    have nil: "effects (body_at s p) = []" using None by (simp add: body_at_def TcpConnection_def)
    obtain c0 where c0: "conn_ok (cbody c0)" "down_ok (cbody c0)" "effects (cbody c0) = []" "c' = c0 \<or> moved u c0 c'"
      using step_fresh [OF inv ok run u None c'] by blast
    have "es = new_effects (cbody c0) (cbody c')" using nil c0(3) by (simp add: es new_effects_def)
    then show ?thesis using c0 m [of c0] None no_part [of es] by (auto simp: new_effects_def)
  next
    case (Some c)
    have same: "es = new_effects (cbody c) (cbody c')" using Some by (simp add: es body_at_def)
    have c: "conn_ok (cbody c)" "down_ok (cbody c)" if "\<not> cgone c"
      using that srv_invD(3) [OF inv Some] d Some by (auto simp: conn_stage_def downs_def)
    consider "c' = c" | "moved u c c'" | "ended x s p c c'" using step_body [OF inv ok run Some] c' by auto
    then show ?thesis
    proof cases
      case 1
      then show ?thesis by (simp add: same new_effects_def after_close_def)
    next
      case 2
      then show ?thesis using m [OF 2] c Some same by (simp add: moved_def)
    next
      case 3
      then show ?thesis by (simp add: same new_effects_def ended_def emit_def after_close_def)
    qed
  qed
  then show "owed (after_close es) = []" and "owed es \<noteq> [] \<Longrightarrow> \<not> cgone c' \<and> state (cbody c') \<noteq> KConnecting \<and>
      (\<forall>c. conns s p = Some c \<longrightarrow> state (cbody c) \<noteq> KDisconnected)" by blast+
qed

lemma queued_by_step:
  assumes inv: "srv_inv s" and ok: "srv_ok x s" and run: "srv_exec u x s = Inr t" and u: "user_ok u" and d: "downs s"
  obtains p gs where "queued_by x s t k = map (IConn p) gs @ srv_items x s t k"
    and "\<forall>f \<in> set gs. conn_item t k (IConn p f)" and "SDestroy p \<in> set (queues s l) \<Longrightarrow> gs = []"
proof (cases "\<exists>p c'. touched x s = Some p \<and> conns t p = Some c' \<and> cloop c' = k")
  case True
  then obtain p c' where p: "touched x s = Some p" "conns t p = Some c'" "cloop c' = k" by blast
  define es where "es = new_effects (body_at s p) (cbody c')"
  note new = new_queued [OF inv ok run u d p(2) es_def]
  have "queued_by x s t k = map (IConn p) (owed (before_close es)) @ srv_items x s t k"
    using p new(1) by (simp add: queued_by_def own_items_def es_def)
  moreover have "conn_item t k (IConn p f)" if f: "f \<in> set (owed (before_close es))" for f
  proof -
    have "f \<in> set (owed es)" using f before_part by blast
    moreover from this have "owed es \<noteq> []" by auto
    ultimately show ?thesis using new(2,3) p(2,3) by (auto simp: conn_item_def)
  qed
  moreover have "owed (before_close es) = []" if q: "SDestroy p \<in> set (queues s l)"
  proof -
    obtain c where "conns s p = Some c" "state (cbody c) = KDisconnected"
      using srv_invD(2) [OF inv q] by (auto simp: functor_stage_def)
    then show ?thesis using new(3) no_part by blast
  qed
  ultimately show ?thesis using that by blast
next
  case False
  then have "own_items part x s t k = []" for part
    by (auto simp: own_items_def split: option.splits)
  then show ?thesis by (intro that [of undefined "[]"]) (simp_all add: queued_by_def)
qed

text \<open>The order of the queue is what makes a functor legal when its turn comes.\<close>

lemma life_act_legal:
  assumes inv: "life_inv s" and ok: "life_ok a s" and x: "srv_act_of a s = Some x"
  shows "srv_ok x (lsrv s)"
    and "srv_part (left_over a s k) = (if x = SRun k then tl (queues (lsrv s) k) else queues (lsrv s) k)"
    and "in_order (left_over a s k)" "set (left_over a s k) \<subseteq> set (fifo s k)"
    and "x = SRun k \<Longrightarrow> queues (lsrv s) k = SDestroy p # fs \<Longrightarrow> IConn p f \<notin> set (left_over a s k)"
proof -
  note I = life_invD [OF inv]
  have all: "srv_ok x (lsrv s) \<and>
    srv_part (left_over a s k) = (if x = SRun k then tl (queues (lsrv s) k) else queues (lsrv s) k) \<and>
    in_order (left_over a s k) \<and> set (left_over a s k) \<subseteq> set (fifo s k) \<and>
    (x = SRun k \<and> queues (lsrv s) k = SDestroy p # fs \<longrightarrow> IConn p f \<notin> set (left_over a s k))"
  proof (cases a)
    case (LDo y)
    then show ?thesis using ok x I(3,4) [of k] by (cases y) auto
  next
    case (LRun l mem w)
    obtain i js where js: "fifo s l = i # js" using x LRun by (cases "fifo s l") auto
    have rest: "in_order (left_over a s k)" "set (left_over a s k) \<subseteq> set (fifo s k)"
      using LRun js I(4) [of k] in_order_tl [of "fifo s l"] by auto
    show ?thesis
    proof (cases i)
      case (ISrv g)
      have x: "x = SRun l" using x LRun js ISrv by simp
      have q: "queues (lsrv s) l = g # srv_part js" using I(3) [of l] js ISrv by simp
      have "IConn p f \<notin> set js" if "g = SDestroy p"
        using in_order_head [of p js f] I(4) [of l] js ISrv that by simp
      then show ?thesis using rest x q js LRun I(3) [of k] by auto
    next
      case (IConn r g)
      have x: "x = SConn r (AFunctor g mem w)" using x LRun js IConn by simp
      obtain c where c: "conns (lsrv s) r = Some c" "\<not> cgone c" "state (cbody c) \<noteq> KConnecting"
          "EQueue g \<in> set (effects (cbody c))"
        using I(5) [of i l] js IConn by (auto simp: conn_item_def)
      have "functor_ok mem w g (cbody c)" using ok LRun js IConn c(1) by (simp add: body_at_def)
      then have "srv_ok x (lsrv s)" using c x by (simp add: functor_pending_def)
      moreover have "srv_part (left_over a s k) = queues (lsrv s) k" using I(3) [of k] I(3) [of l] js IConn LRun by auto
      ultimately show ?thesis using rest x by simp
    qed
  qed
  then show "srv_ok x (lsrv s)"
    and "srv_part (left_over a s k) = (if x = SRun k then tl (queues (lsrv s) k) else queues (lsrv s) k)"
    and "in_order (left_over a s k)" "set (left_over a s k) \<subseteq> set (fifo s k)"
    and "x = SRun k \<Longrightarrow> queues (lsrv s) k = SDestroy p # fs \<Longrightarrow> IConn p f \<notin> set (left_over a s k)" by blast+
qed

lemma item_stays:
  assumes i: "conn_item s k i" and inv: "srv_inv s" and ok: "srv_ok x s" and run: "srv_exec u x s = Inr t" and u: "user_ok u"
    and order: "\<And>p f fs. i = IConn p f \<Longrightarrow> x = SRun k \<Longrightarrow> queues s k \<noteq> SDestroy p # fs"
  shows "conn_item t k i"
proof (cases i)
  case (IConn p f)
  then obtain c where c: "conns s p = Some c" "cloop c = k" "\<not> cgone c" "state (cbody c) \<noteq> KConnecting"
      "EQueue f \<in> set (effects (cbody c))"
    using i by (auto simp: conn_item_def)
  obtain c' where c': "conns t p = Some c'" "conn_next c c'"
    using frame_next [OF srv_frame_step [OF inv u ok run] c(1)] by blast
  have "\<not> cgone c'" using step_body [OF inv ok run c(1)] c'(1) c order [OF IConn] by (auto simp: ended_def moved_def)
  moreover have "state (cbody c') \<noteq> KConnecting"
    using c'(2) c(4) by (cases "state (cbody c)") (auto simp: conn_next_def rank_def)
  moreover have "EQueue f \<in> set (effects (cbody c'))"
    using c'(2) c(5) by (auto simp: conn_next_def dest: set_mono_prefix)
  ultimately show ?thesis using IConn c' c(2) by (simp add: conn_item_def conn_next_def)
qed (simp add: conn_item_def)

lemma life_step:
  assumes inv: "life_inv s" and u: "user_ok u" and ok: "life_ok a s"
  shows "case life_exec u a s of Inl e \<Rightarrow> e = LengthError | Inr s' \<Rightarrow> life_inv s'"
proof (cases "srv_act_of a s")
  case None
  then show ?thesis using inv by (simp add: life_exec_def)
next
  case (Some x)
  note I = life_invD [OF inv] and L = life_act_legal [OF inv ok Some]
  show ?thesis
  proof (cases "srv_exec u x (lsrv s)")
    case (Inl e)
    then show ?thesis using srv_step [OF I(1) u L(1)] Some by (simp add: life_exec_def)
  next
    case (Inr t)
    have d: "downs t" by (rule step_downs [OF I(1) L(1) Inr u I(2)])
    let ?f = "\<lambda>k. left_over a s k @ queued_by x (lsrv s) t k"
    have queue: "srv_part (?f k) = queues t k \<and> in_order (?f k) \<and> (\<forall>i \<in> set (?f k). conn_item t k i)" for k
    proof -
      let ?q = "if x = SRun k then tl (queues (lsrv s) k) else queues (lsrv s) k"
      obtain p gs where q: "queued_by x (lsrv s) t k = map (IConn p) gs @ srv_items x (lsrv s) t k"
          "\<forall>f \<in> set gs. conn_item t k (IConn p f)" "SDestroy p \<in> set (queues (lsrv s) k) \<Longrightarrow> gs = []"
        by (rule queued_by_step [OF I(1) L(1) Inr u I(2)]) blast
      have "prefix ?q (queues t k)" using queues_map_step [OF Inr, of k] by simp
      then have "queues t k = ?q @ drop (length ?q) (queues t k)" by (auto simp: prefix_def)
      then have "srv_part (?f k) = queues t k" using L(2) [of k] q(1) by (simp add: srv_items_def)
      moreover have "ISrv (SDestroy p) \<notin> set (left_over a s k) \<or> gs = []"
        using L(4) [of k] q(3) I(3) [of k] srv_part_mem [of "SDestroy p" "fifo s k"] by auto
      then have "in_order (?f k)"
        using in_order_srv [OF in_order_conn [OF L(3) [of k], of p gs]] q(1) by (simp add: srv_items_def)
      moreover have "conn_item t k i" if i: "i \<in> set (left_over a s k)" for i
      proof (rule item_stays [OF I(5) I(1) L(1) Inr u])
        show "i \<in> set (fifo s k)" using i L(4) by blast
        show "i = IConn p f \<Longrightarrow> x = SRun k \<Longrightarrow> queues (lsrv s) k \<noteq> SDestroy p # fs" for p f fs
          using L(5) i by blast
      qed
      moreover have "conn_item t k i" if "i \<in> set (queued_by x (lsrv s) t k)" for i
        using that q(1,2) by (auto simp: srv_items_def) (simp add: conn_item_def)
      ultimately show ?thesis by auto
    qed
    have "srv_inv t" using srv_step [OF I(1) u L(1)] Inr by simp
    then show ?thesis using d queue Some Inr by (simp add: life_exec_def life_inv_def)
  qed
qed

text \<open>A step is a step of the server, so a history is one of the server.\<close>

definition refines :: "user_prog \<Rightarrow> server \<Rightarrow> life \<Rightarrow> bool" where
  "refines u s0 s \<longleftrightarrow> (\<exists>xs. srv_all_ok u xs s0 \<and> rfold (srv_exec u) xs s0 = Inr (lsrv s))"

lemma legal_run_snoc:
  "legal_run ex lg as s \<Longrightarrow> rfold ex as s = Inr t \<Longrightarrow> lg a t \<Longrightarrow> legal_run ex lg (as @ [a]) s"
proof (induction as arbitrary: s)
  case (Cons b as)
  then show ?case by (auto simp: rbind_Inr_iff)
qed (simp split: sum.splits)

lemma rfold_snoc: "rfold ex as s = Inr t \<Longrightarrow> rfold ex (as @ [a]) s = ex a t"
proof (induction as arbitrary: s)
  case Nil
  then show ?case by (cases "ex a s") simp_all
next
  case (Cons b as)
  then obtain v where "ex b s = Inr v" "rfold ex as v = Inr t" by (auto simp: rbind_Inr_iff)
  then show ?case using Cons.IH [of v] by simp
qed

lemma refines_step:
  assumes "life_inv s" "life_ok a s" "life_exec u a s = Inr s'" "refines u s0 s"
  shows "refines u s0 s'"
proof (cases "srv_act_of a s")
  case (Some x)
  obtain xs where xs: "srv_all_ok u xs s0" "rfold (srv_exec u) xs s0 = Inr (lsrv s)" using assms(4) by (auto simp: refines_def)
  have "srv_ok x (lsrv s)" by (rule life_act_legal(1) [OF assms(1,2) Some])
  moreover have "srv_exec u x (lsrv s) = Inr (lsrv s')" using assms(3) Some by (auto simp: life_exec_def rbind_Inr_iff)
  ultimately show ?thesis
    using legal_run_snoc [OF xs] rfold_snoc [OF xs(2), of x] by (auto simp: refines_def intro!: exI [of _ "xs @ [x]"])
qed (use assms in \<open>simp add: life_exec_def\<close>)

interpretation lf: legal_system "life_exec u" life_ok "\<lambda>s. user_ok u \<and> life_inv s \<and> refines u s0 s" "\<lambda>e. e = LengthError" for u s0
proof
  fix s a
  assume s: "user_ok u \<and> life_inv s \<and> refines u s0 s" and ok: "life_ok a s"
  then show "case life_exec u a s of Inl e \<Rightarrow> e = LengthError | Inr s' \<Rightarrow> user_ok u \<and> life_inv s' \<and> refines u s0 s'"
    using life_step [of s u a] refines_step [of s a u _ s0] by (simp split: sum.splits)
qed

lemma life_inv_start:
  assumes "srv_start True cb addr (srv_setThreadNum n (TcpServer base fd)) = Inr s"
  shows "life_inv (life_start s)" "refines u s (life_start s)"
proof -
  have "queues s l = []" "conns s = Map.empty" for l
    using assms by (auto simp: srv_start_def srv_setThreadNum_def TcpServer_def Let_def result_iffs cassert_Inr_iff split: if_splits)
  then show "life_inv (life_start s)" using srv_inv_start [OF assms] by (simp add: life_inv_def life_start_def downs_def)
  show "refines u s (life_start s)" by (auto simp: refines_def life_start_def intro!: exI [of _ "[]"])
qed

text \<open>A functor of a connection in a queue: the map has the connection, or it is destroyed by a functor behind.\<close>

lemma owned_item:
  assumes inv: "life_inv s" and i: "IConn p f \<in> set (fifo s k)"
  shows "\<exists>c. conns (lsrv s) p = Some c \<and> cloop c = k \<and> \<not> cgone c \<and>
    (in_map (lsrv s) p c \<or> (\<exists>is js. fifo s k = is @ ISrv (SDestroy p) # js \<and> IConn p f \<in> set is \<and> IConn p f \<notin> set js))"
proof -
  note I = life_invD [OF inv]
  obtain c where c: "conns (lsrv s) p = Some c" "cloop c = k" "\<not> cgone c" using I(5) [OF i] by (auto simp: conn_item_def)
  have "\<exists>is js. fifo s k = is @ ISrv (SDestroy p) # js \<and> IConn p f \<in> set is \<and> IConn p f \<notin> set js" if "\<not> in_map (lsrv s) p c"
  proof -
    have "SDestroy p \<in> set (queues (lsrv s) k)"
      using srv_invD(3) [OF I(1) c(1)] c that by (auto simp: conn_stage_def)
    then have "ISrv (SDestroy p) \<in> set (fifo s k)" using I(3) [of k] by (metis srv_part_mem)
    then obtain "is" js where js: "fifo s k = is @ ISrv (SDestroy p) # js" by (meson split_list)
    have "in_order (ISrv (SDestroy p) # js)"
      using I(4) [of k] unfolding js by (induction "is") (auto dest: in_order_tl)
    then have "IConn p f \<notin> set js" by (rule in_order_head)
    then show ?thesis using js i by auto
  qed
  then show ?thesis using c by blast
qed

section \<open>The order of the queue keeps the connection alive\<close>


text \<open>Another thread sends on the connection, which then hangs up: the functor of the send is still to run when
  the server has forgotten the connection.\<close>

definition sent_then_closed :: "life_act list" where
  "sent_then_closed = [LDo (SAccept 5 9 0), LRun 10 (\<lambda>_. None) (Wrote 0), LDo (SConn 5 (AOtherSend 100 3)),
     LDo (SConn 5 (AEvent POLLHUP (ReadOk []) (Wrote 0))), LRun 1 (\<lambda>_. None) (Wrote 0)]"

lemmas life_run = server_run life_exec_def life_start_def queued_by_def own_items_def srv_items_def new_effects_def
  body_at_def before_close_def after_close_def

lemma sent_then_closed_run:
  "\<exists>s0. one_server = Inr s0 \<and> life_all_ok silent_user sent_then_closed (life_start s0) \<and>
     (\<exists>s. rfold (life_exec silent_user) sent_then_closed (life_start s0) = Inr s \<and>
        fifo s 10 = [IConn 5 (FSendInLoop 100 3), ISrv (SDestroy 5)] \<and> connections (lsrv s) = Map.empty)"
  by (simp add: sent_then_closed_def life_run send_def)


section \<open>Every functor has its turn\<close>

fun runs_of :: "nat \<Rightarrow> life_act \<Rightarrow> bool" where
  "runs_of k (LDo x) \<longleftrightarrow> False"
| "runs_of k (LRun l mem w) \<longleftrightarrow> l = k"

abbreviation turns :: "nat \<Rightarrow> life_act list \<Rightarrow> nat" where
  "turns k as \<equiv> length (filter (runs_of k) as)"

lemma fifo_step:
  assumes "life_exec u a s = Inr s'"
  shows "\<exists>is. fifo s' k = (if runs_of k a then tl (fifo s k) else fifo s k) @ is"
proof (cases "srv_act_of a s")
  case None
  then show ?thesis using assms by (cases a) (auto simp: life_exec_def split: list.splits item.splits)
next
  case (Some x)
  then obtain js where "fifo s' k = left_over a s k @ js" using assms by (auto simp: life_exec_def rbind_Inr_iff)
  then show ?thesis by (cases a) auto
qed

lemma fifo_run:
  "rfold (life_exec u) as s = Inr s' \<Longrightarrow> turns k as \<le> length (fifo s k) \<Longrightarrow>
    \<exists>is. fifo s' k = drop (turns k as) (fifo s k) @ is"
proof (induction as arbitrary: s)
  case (Cons a as)
  then obtain t where t: "life_exec u a s = Inr t" "rfold (life_exec u) as t = Inr s'" by (auto simp: rbind_Inr_iff)
  obtain js where js: "fifo t k = (if runs_of k a then tl (fifo s k) else fifo s k) @ js"
    using fifo_step [OF t(1)] by blast
  have "turns k as \<le> length (if runs_of k a then tl (fifo s k) else fifo s k)" using Cons.prems(2) by auto
  then show ?case using Cons.IH [OF t(2)] js by (auto simp: drop_Suc)
qed simp

text \<open>The run that comes after \<open>i\<close> others.\<close>

lemma nth_turn: "i < turns k as \<Longrightarrow> \<exists>xs mem w ys. as = xs @ LRun k mem w # ys \<and> turns k xs = i"
proof (induction as arbitrary: i)
  case (Cons a as)
  show ?case
  proof (cases "runs_of k a")
    case True
    then obtain mem w where a: "a = LRun k mem w" by (cases a) auto
    show ?thesis
    proof (cases i)
      case 0
      then show ?thesis using a by (intro exI [of _ "[]"]) simp
    next
      case (Suc j)
      then obtain xs mem' w' ys where "as = xs @ LRun k mem' w' # ys" "turns k xs = j"
        using Cons.IH [of j] Cons.prems True by auto
      then show ?thesis using Suc True by (intro exI [of _ "a # xs"]) auto
    qed
  next
    case False
    then obtain xs mem w ys where "as = xs @ LRun k mem w # ys" "turns k xs = i"
      using Cons.IH [of i] Cons.prems by auto
    then show ?thesis using False by (intro exI [of _ "a # xs"]) auto
  qed
qed simp

lemma rfold_append_Inr: "rfold ex (xs @ ys) s = Inr v \<Longrightarrow> \<exists>t. rfold ex xs s = Inr t \<and> rfold ex ys t = Inr v"
  by (induction xs arbitrary: s) (auto simp: rbind_Inr_iff)

lemma legal_run_prefix: "legal_run ex lg (xs @ ys) s \<Longrightarrow> legal_run ex lg xs s"
  by (induction xs arbitrary: s) (auto split: sum.splits)

text \<open>What taking a functor of a connection does: it runs it on the connection.\<close>

lemma runs_body:
  assumes "fifo s k = IConn p f # is" "life_exec u (LRun k mem w) s = Inr s'" "conns (lsrv s) p = Some c"
  shows "\<exists>b. exec_conn_functor (user_callbacks u) mem w f (cbody c) = Inr b"
proof -
  have "srv_act_of (LRun k mem w) s = Some (SConn p (AFunctor f mem w))" using assms(1) by simp
  then obtain t where "srv_exec u (SConn p (AFunctor f mem w)) (lsrv s) = Inr t"
    using assms(2) unfolding life_exec_def by (auto simp only: option.case rbind_Inr_iff)
  then show ?thesis using assms(3) by (auto simp only: srv_exec.simps conn_exec.simps deref_Inr_iff rbind_Inr_iff)
qed

lemma legal_run_mid:
  "legal_run ex lg (xs @ a # ys) s \<Longrightarrow> rfold ex xs s = Inr t \<Longrightarrow> lg a t"
  by (induction xs arbitrary: s) (auto simp: rbind_Inr_iff)


text \<open>The three bytes that another thread sends are written when the loop takes the functor.\<close>

lemmas functor_ok_run = functor_pending_def shut_write_fails_def vec_max_size_def logged_sendInLoop_def sendInLoop_def
  send_direct_def log_handed_def writes_direct_def IsEnableWriteEvent_def size_sub_def buffer_new_def readableBytes_def
  numeral_3_eq_3 write_ok_def

definition sent_only :: "life_act list" where
  "sent_only = [LDo (SAccept 5 9 0), LRun 10 (\<lambda>_. None) (Wrote 0), LDo (SConn 5 (AOtherSend 100 3))]"

lemma sent_only_run:
  "\<exists>s0. one_server = Inr s0 \<and> life_all_ok silent_user sent_only (life_start s0) \<and>
     (\<exists>s. rfold (life_exec silent_user) sent_only (life_start s0) = Inr s \<and> fifo s 10 = [IConn 5 (FSendInLoop 100 3)] \<and>
        life_all_ok silent_user [LRun 10 (\<lambda>_. Some 7) (Wrote 3)] s \<and>
        (\<exists>s'. rfold (life_exec silent_user) [LRun 10 (\<lambda>_. Some 7) (Wrote 3)] s = Inr s' \<and>
           wire (body_at (lsrv s') 5) = [7, 7, 7]))"
  by (simp add: sent_only_def life_run send_def functor_ok_run)


section \<open>And where it does not\<close>

text \<open>In another thread \<open>send\<close> tests \<open>state_\<close> first and queues the functor after that; nothing makes the two one
  step, as the action \<open>AOtherSend\<close> has them. Here they are apart.\<close>

definition send_test :: "nat \<Rightarrow> life \<Rightarrow> bool" where
  "send_test p s \<longleftrightarrow> isConnected (body_at (lsrv s) p)"

definition send_push :: "nat \<Rightarrow> int \<Rightarrow> nat \<Rightarrow> life \<Rightarrow> life" where
  "send_push p data len s =
     (case conns (lsrv s) p of
        None \<Rightarrow> s
      | Some c \<Rightarrow> s\<lparr>fifo := (fifo s)(cloop c := fifo s (cloop c) @ [IConn p (FSendInLoop data len)])\<rparr>)"

lemma send_apart:
  assumes "conns (lsrv s) p = Some c" "state (cbody c) \<noteq> KDisconnected"
  shows "fifo (projr (life_exec u (LDo (SConn p (AOtherSend data len))) s)) =
    (if send_test p s then fifo (send_push p data len s) else fifo s)"
  using assms
  by (auto simp: life_exec_def queued_by_def own_items_def srv_items_def new_effects_def body_at_def before_close_def
      after_close_def send_test_def isConnected_def send_def send_push_def emit_def closes_def set_body_def fun_eq_iff)

definition until_test :: "life_act list" where
  "until_test = [LDo (SAccept 5 9 0), LRun 10 (\<lambda>_. None) (Wrote 0)]"

definition between :: "life_act list" where
  "between = [LDo (SConn 5 (AEvent POLLHUP (ReadOk []) (Wrote 0))), LRun 1 (\<lambda>_. None) (Wrote 0), LRun 10 (\<lambda>_. None) (Wrote 0)]"


end
