(* ===== verification/Pool_Program.thy ===== *)
theory Pool_Program
  imports Thread_Pool Decimal
begin

text \<open>
  The functions of \<open>main.cpp\<close> that try out the thread pool and the timers: \<open>testThreadpool\<close> with its two tasks, and
  \<open>TestTimer\<close>. A task is the function with its arguments, which \<open>addTask\<close> copies into its lambda.
\<close>

section \<open>The tasks\<close>

datatype demo_task = PrintHello int | Func2 int int

definition printHello :: "int \<Rightarrow> string" where
  "printHello num = ''Hello from thread func1'' @ to_string num"

text \<open>The sum is one of two \<open>int\<close>s; its overflow is undefined.\<close>

definition func2 :: "int \<Rightarrow> int \<Rightarrow> (int \<times> string) result" where
  "func2 num1 num2 =
     (let res = num1 + num2
      in if - (2 ^ 31) \<le> res \<and> res < 2 ^ 31 then Inr (res, ''Hello from thread func2 '' @ to_string res) else Inl Undefined)"

text \<open>\<open>std::invoke\<close> in the lambda; the result of the function is dropped.\<close>

fun task_line :: "demo_task \<Rightarrow> string result" where
  "task_line (PrintHello i) = Inr (printHello i)"
| "task_line (Func2 a b) = rbind (func2 a b) (\<lambda>(res, line). Inr line)"

definition testThreadpool :: "demo_task list" where
  "testThreadpool = map (\<lambda>i. PrintHello (int i)) [0..<8] @ map (\<lambda>i. Func2 (int i) (int i * 2)) [0..<8]"

definition demo_lines :: "string list" where
  "demo_lines = map (\<lambda>i. printHello (int i)) [0..<8] @ map (\<lambda>i. ''Hello from thread func2 '' @ to_string (3 * int i)) [0..<8]"

lemma demo_tasks_lines: "map task_line testThreadpool = map Inr demo_lines"
  by (simp add: testThreadpool_def demo_lines_def func2_def Let_def)

text \<open>The argument is the static counter \<open>times\<close>.\<close>

definition TestTimer :: "int \<Rightarrow> (int \<times> string) result" where
  "TestTimer n = (if n + 1 < 2 ^ 31 then Inr (n + 1, ''TestTimer call '' @ to_string (n + 1)) else Inl Undefined)"

section \<open>What the pool prints\<close>

lemma finished_all:
  assumes "pool_inv s" "taskQueue s = []" "\<forall>ph \<in> set (threads s). running ph = []"
  shows "mset (finished s) = mset (pushed s)"
proof -
  have "concat (map running (threads s)) = []" using assms(3) by simp
  then show ?thesis using assms(1,2) by (simp add: pool_inv_def)
qed

lemma finished_some: "pool_inv s \<Longrightarrow> mset (finished s) \<subseteq># mset (pushed s)"
  by (auto simp: pool_inv_def)

text \<open>However the four workers and the caller interleave: no task fails, a line is printed at most as often as it was
  asked for, and when the queue is empty and no worker is in a task, the sixteen lines have been printed, each once.\<close>

theorem testThreadpool_prints:
  assumes "reach (\<lambda>s. s = GetInstance None) pool_step s" "pushed s = testThreadpool"
  shows "\<exists>out. map task_line (finished s) = map Inr out \<and> mset out \<subseteq># mset demo_lines \<and>
    (taskQueue s = [] \<and> (\<forall>ph \<in> set (threads s). running ph = []) \<longrightarrow> mset out = mset demo_lines)"
proof -
  have "reach pool_init pool_step s"
    using assms(1) by (induction) (auto intro: reach.intros simp: pool_init_def GetInstance_def)
  then have inv: "pool_inv s" by (rule pool.reach_inv)
  define out where "out = map (projr \<circ> task_line) (finished s)"
  have sub: "mset (finished s) \<subseteq># mset testThreadpool" using finished_some [OF inv] assms(2) by simp
  have fine: "task_line t = Inr (projr (task_line t))" if "t \<in> set testThreadpool" for t
  proof -
    have "task_line t \<in> set (map Inr demo_lines)" using that unfolding demo_tasks_lines [symmetric] by auto
    then show ?thesis by auto
  qed
  have lines: "mset demo_lines = image_mset (projr \<circ> task_line) (mset testThreadpool)"
  proof -
    have "demo_lines = map projr (map task_line testThreadpool)" unfolding demo_tasks_lines by (simp add: comp_def)
    then show ?thesis by (metis map_map mset_map)
  qed
  have "set (finished s) \<subseteq> set testThreadpool" using set_mset_mono [OF sub] by simp
  then have "map task_line (finished s) = map Inr out" using fine by (auto simp: out_def)
  moreover have "mset out \<subseteq># mset demo_lines"
    unfolding lines out_def mset_map by (rule image_mset_subseteq_mono [OF sub])
  moreover have "mset out = mset demo_lines" if "taskQueue s = []" "\<forall>ph \<in> set (threads s). running ph = []"
    unfolding lines out_def mset_map using finished_all [OF inv that] assms(2) by simp
  ultimately show ?thesis by blast
qed

text \<open>All tasks added, one worker takes the first and prints its line.\<close>

definition demo_steps :: "demo_task plabel list" where
  "demo_steps = map (Add None None) testThreadpool @ [Lock 0, Predicate 0, Take 0, Finish 0]"

lemma run_labels_reach_from:
  "run_labels ls s = Some s' \<Longrightarrow> reach init pool_step s \<Longrightarrow> reach init pool_step s'"
  by (induction ls s rule: run_labels.induct)
    (auto split: option.splits sum.splits intro: reach_step pool_step.intros)

theorem testThreadpool_prints_witness:
  "\<exists>s out. run_labels demo_steps (GetInstance None) = Some s \<and> pushed s = testThreadpool \<and>
     map task_line (finished s) = map Inr out \<and> mset out \<subseteq># mset demo_lines \<and> out = [printHello 0]"
proof -
  have "\<exists>s. run_labels demo_steps (GetInstance None) = Some s \<and> pushed s = testThreadpool \<and> finished s = [PrintHello 0]"
    by (simp add: demo_steps_def testThreadpool_def GetInstance_def ThreadNum_def pool_new_def addTask_def at_phase_def
        worker_lock_def worker_test_def worker_fetch_def worker_finish_def goto_def numeral_nat upt_rec)
  then obtain s where s: "run_labels demo_steps (GetInstance None) = Some s" "pushed s = testThreadpool"
      "finished s = [PrintHello 0]" by blast
  have "reach (\<lambda>s. s = GetInstance None) pool_step s"
    by (rule run_labels_reach_from [OF s(1)]) (rule reach_init, rule refl)
  from testThreadpool_prints [OF this s(2)] obtain out where
    "map task_line (finished s) = map Inr out" "mset out \<subseteq># mset demo_lines" by blast
  moreover from this(1) have "out = [printHello 0]" using s(3) by auto
  ultimately show ?thesis using s by blast
qed

text \<open>The second that the function sleeps promises nothing: all tasks added, no worker has run yet.\<close>

lemma testThreadpool_may_print_nothing:
  "\<exists>s. run_labels (map (Add None None) testThreadpool) (GetInstance None) = Some s \<and> pushed s = testThreadpool \<and> finished s = []"
  by (simp add: testThreadpool_def GetInstance_def ThreadNum_def pool_new_def addTask_def numeral_nat upt_rec)

end
