(* ===== verification/Descriptors.thy ===== *)
theory Descriptors
  imports Loop_Wakeup Tcp_Connection
begin

text \<open>
  What the process sets up in the kernel around the loops, and what it makes of a refusal: the eventfd and the timerfd
  (\<open>createEventFd\<close> in \<open>net/Eventloop.cpp\<close>, \<open>createTimerfd\<close> and \<open>readTimeFd\<close> in \<open>net/TimerQueue.cpp\<close>), and the handler
  of \<open>SIGPIPE\<close> (\<open>IgnoreSigPipe\<close> in \<open>net/Eventloop.cpp\<close>). The answers of the kernel are arguments.
\<close>

section \<open>The eventfd and the timerfd\<close>

text \<open>The branch for a negative answer is empty in both.\<close>

definition createEventFd :: "int \<Rightarrow> int" where
  "createEventFd answer = answer"

definition createTimerfd :: "int \<Rightarrow> int" where
  "createTimerfd answer = answer"

text \<open>The count that is read is dropped, and a short read or an error is not noticed: what is left is the read itself.
  An answer is the number of expirations since the last one, which a successful read takes.\<close>

definition readTimeFd :: "int \<Rightarrow> nat \<Rightarrow> nat" where
  "readTimeFd answer expirations = (if answer = 8 then 0 else expirations)"

text \<open>The hand-over protocol over the descriptor that \<open>createEventFd\<close> returned. Writing to a negative one
  fails, and no poller ever reports it.\<close>

definition lq_exec_fd :: "int \<Rightarrow> 'f lq_label \<Rightarrow> 'f lq \<Rightarrow> 'f lq option" where
  "lq_exec_fd wakeupFd l s = map_option (\<lambda>t. if wakeupFd < 0 then t\<lparr>eventfd := 0\<rparr> else t) (lq_exec l s)"

fun lq_run_fd :: "int \<Rightarrow> 'f lq_label list \<Rightarrow> 'f lq \<Rightarrow> 'f lq option" where
  "lq_run_fd fd [] s = Some s"
| "lq_run_fd fd (l # ls) s = Option.bind (lq_exec_fd fd l s) (lq_run_fd fd ls)"

lemma lq_run_fd_ok: "0 \<le> fd \<Longrightarrow> lq_run_fd fd ls s = lq_run ls s"
proof (induction ls arbitrary: s)
  case (Cons l ls)
  then show ?case by (cases "lq_exec l s") (simp_all add: lq_exec_fd_def)
qed simp

lemma no_eventfd: "lq_run_fd fd ls s = Some s' \<Longrightarrow> fd < 0 \<Longrightarrow> eventfd s = 0 \<Longrightarrow> eventfd s' = 0"
  by (induction ls arbitrary: s) (auto simp: lq_exec_fd_def bind_eq_Some_conv)

text \<open>A loop whose eventfd could not be made goes on without wakeups: in no history does \<open>poll\<close> return for one, and
  a functor of another thread waits, although that thread has written its wakeup.\<close>

theorem no_eventfd_no_wakeup:
  fixes ls :: "'f lq_label list"
  assumes "answer < 0" and "lq_run_fd (createEventFd answer) ls lq_new = Some s"
  shows "eventfd s = 0" and "lq_exec_fd (createEventFd answer) (PollReturn True) s = None"
    and "\<exists>t. lq_run_fd (createEventFd answer) [EnterLoop, OtherPush f, OtherWake] lq_new = Some (t :: 'f lq) \<and>
      phase t = Polling \<and> pendingFunctors t = [f] \<and> writers t = 0 \<and> eventfd t = 0"
proof -
  show z: "eventfd s = 0" using no_eventfd [OF assms(2)] assms(1) by (simp add: createEventFd_def lq_new_def)
  show "lq_exec_fd (createEventFd answer) (PollReturn True) s = None" by (simp add: lq_exec_fd_def lq_steps z)
  show "\<exists>t. lq_run_fd (createEventFd answer) [EnterLoop, OtherPush f, OtherWake] lq_new = Some (t :: 'f lq) \<and>
      phase t = Polling \<and> pendingFunctors t = [f] \<and> writers t = 0 \<and> eventfd t = 0"
    using assms(1) by (simp add: lq_exec_fd_def lq_steps lq_new_def createEventFd_def)
qed

section \<open>SIGPIPE\<close>

text \<open>What becomes of the process when it writes to a socket whose peer has closed: the default ends it.\<close>

datatype disposition = DefaultAction | SignalHandler

definition kernel_write :: "disposition \<Rightarrow> syswrite \<Rightarrow> syswrite option" where
  "kernel_write d w = (if d = DefaultAction \<and> w = WriteErr EPIPE then None else Some w)"

text \<open>The constructor of \<open>g_ignoreSigPipe\<close>, with the answer of \<open>sigaction\<close>: \<open>Inl\<close> is the status the process exits with.\<close>

definition IgnoreSigPipe :: "int \<Rightarrow> int + disposition" where
  "IgnoreSigPipe answer = (if answer = - 1 then Inl (- 1) else Inr SignalHandler)"

text \<open>So a process that gets past its start survives such a write, and a direct write that meets it leaves the connection
  as it was; its bytes are dropped.\<close>

lemma broken_pipe_survived:
  assumes "IgnoreSigPipe answer = Inr d"
  shows "kernel_write d (WriteErr EPIPE) = Some (WriteErr EPIPE)"
  using assms by (auto simp: IgnoreSigPipe_def kernel_write_def split: if_splits)

lemma broken_pipe_send:
  assumes "state s \<noteq> KDisconnected" "writes_direct s" "read_mem mem data len = Inr bytes"
  shows "sendInLoop True mem data len (WriteErr EPIPE) s = Inr s"
  using assms by (simp add: sendInLoop_def writes_direct_def send_direct_def EPIPE_def EWOULDBLOCK_def ECONNRESET_def)

end
