(* ===== verification/Forwarding.thy ===== *)
theory Forwarding
  imports Event_Loop Tcp_Server Tcp_Stream Sockets
begin

text \<open>
  The operations through which one component only hands a call to another: of the loop to its poller and its timer queue
  (\<open>net/Eventloop.cpp\<close>, \<open>net/TimerQueue.cpp\<close>), of a connection to its socket and to its \<open>send\<close> of bytes
  (\<open>net/TcpConnection.cpp\<close>), the accessors of \<open>net/Channel.cpp\<close> and \<open>net/Acceptor.cpp\<close>, and the name of an
  operation of \<open>net/poller/EpollPoller.cpp\<close>.
\<close>

section \<open>Accessors\<close>

definition isListening_acceptor :: "acceptor \<Rightarrow> bool" where
  "isListening_acceptor a = isListening a"

definition GetAllEvents :: "'cb channel \<Rightarrow> events" where
  "GetAllEvents c = events c"

definition GetSocketFd :: "'cb channel \<Rightarrow> int" where
  "GetSocketFd c = m_socketFd c"

definition reventsToString :: "'cb channel \<Rightarrow> string" where
  "reventsToString c = eventsToString (m_socketFd c) (rEvents c)"

definition eventsToString_own :: "'cb channel \<Rightarrow> string" where
  "eventsToString_own c = eventsToString (m_socketFd c) (events c)"

definition operationToString :: "ctl_op \<Rightarrow> string" where
  "operationToString op =
     (case op of EPOLL_CTL_ADD \<Rightarrow> ''ADD'' | EPOLL_CTL_DEL \<Rightarrow> ''DEL'' | EPOLL_CTL_MOD \<Rightarrow> ''MOD'')"

lemma operationToString_inj: "operationToString a = operationToString b \<Longrightarrow> a = b"
  by (cases a; cases b) (simp_all add: operationToString_def)

text \<open>A channel without events is logged with its descriptor and no event.\<close>

lemma eventsToString_none: "IsNoneEvent c \<Longrightarrow> eventsToString_own c = ''sockFd:'' @ to_string (GetSocketFd c) @ '',events happen:''"
  by (simp add: eventsToString_own_def eventsToString_def GetSocketFd_def IsNoneEvent_def KNoneEvent_def)

section \<open>The loop\<close>

definition loop_HasChannel :: "nat \<Rightarrow> 'u evloop \<Rightarrow> bool result" where
  "loop_HasChannel p s = deref (chan_heap s) p (\<lambda>c. Inr (HasChannel p c (poller s)))"

text \<open>\<open>TimerQueue::cancle\<close>, through \<open>runInLoop\<close>: at once in the loop's thread, else as a functor.\<close>

definition TimerQueue_cancle :: "bool \<Rightarrow> timer_id \<Rightarrow> 'u evloop \<Rightarrow> 'u evloop result" where
  "TimerQueue_cancle inLoop tid s = (if inLoop then cancelInLoop True tid s else Inr (queueInLoop False (FCancel tid) s))"

lemma TimerQueue_cancle_own: "TimerQueue_cancle True tid s = cancle tid s"
  by (simp add: TimerQueue_cancle_def cancle_def)

text \<open>From another thread it queues the cancellation behind what is pending, with a wakeup; when the functor
  comes to run after the timer has fired for the last time and been freed, it changes nothing.\<close>

lemma TimerQueue_cancle_other:
  assumes "TimerQueue_cancle False tid s = Inr s'"
  shows "pending s' = pending s @ [FCancel tid] \<and> wakeups s' = wakeups s + 1"
  using assms by (auto simp: TimerQueue_cancle_def queueInLoop_def wakeup_def Let_def)

lemma late_cancel:
  assumes "\<not> oset_find tid (activeTimers s)" "\<not> callingExpiredTimers s" "length (timers s) = length (activeTimers s)"
  shows "exec_functor env (FCancel tid) s = Inr s"
  using assms by (simp add: cancelInLoop_def)

section \<open>The connection\<close>

definition conn_setTcpNoDelay :: "(syscall \<Rightarrow> int) \<Rightarrow> bool \<Rightarrow> conn \<Rightarrow> syscall list \<Rightarrow> syscall list" where
  "conn_setTcpNoDelay answer on s tr = setTcpNoDelay answer on (Socket (m_socketFd (channel s))) tr"

definition conn_setKeepAlive :: "(syscall \<Rightarrow> int) \<Rightarrow> bool \<Rightarrow> conn \<Rightarrow> syscall list \<Rightarrow> syscall list" where
  "conn_setKeepAlive answer on s tr = setKeepAlive answer on (Socket (m_socketFd (channel s))) tr"

text \<open>\<open>send\<close> of a \<open>std::string\<close>: \<open>a\<close> is the address of its bytes, which \<open>mem\<close> holds.\<close>

definition send_string :: "bool \<Rightarrow> memory \<Rightarrow> int \<Rightarrow> byte list \<Rightarrow> syswrite \<Rightarrow> conn \<Rightarrow> conn result" where
  "send_string inLoop mem a message w s = (let len = length message in send inLoop mem a len w s)"

definition sendInLoop_string :: "bool \<Rightarrow> memory \<Rightarrow> int \<Rightarrow> byte list \<Rightarrow> syswrite \<Rightarrow> conn \<Rightarrow> conn result" where
  "sendInLoop_string inLoop mem a message w s = (let len = length message in sendInLoop inLoop mem a len w s)"

text \<open>In the loop's thread the string is sent as its bytes are; a disconnected or closing connection drops it.\<close>

lemma send_string_own:
  "state s = KConnected \<Longrightarrow> send_string True mem a message w s = sendInLoop_string True mem a message w s"
  "state s \<noteq> KConnected \<Longrightarrow> send_string b mem a message w s = Inr s"
  by (simp_all add: send_string_def sendInLoop_string_def send_def Let_def)

text \<open>From another thread only its address is queued: when the string is gone before the functor runs,
  the loop reads memory that is no longer there.\<close>

lemma send_string_gone:
  assumes "send_string False mem a message w s = Inr s'" "state s = KConnected" "message \<noteq> []"
    and "mem' a = None" "state r \<noteq> KDisconnected"
    and "writes_direct r"
  shows "EQueue (FSendInLoop a (length message)) \<in> set (effects s') \<and>
    exec_conn_functor cbs mem' w' (FSendInLoop a (length message)) r = Inl Undefined"
proof -
  obtain b bs where "message = b # bs" using assms(3) by (cases message) auto
  then have "read_mem mem' a (length message) = Inl Undefined" using assms(4) by simp
  then show ?thesis
    using assms by (auto simp: send_string_def send_def emit_def logged_sendInLoop_def sendInLoop_def send_direct_def writes_direct_def)
qed

end
