(* ===== verification/Spec2Isabelle.thy ===== *)
theory Spec2Isabelle
  imports Prelude Net_Buffer Timer_Queue Thread_Pool Pollers Loop_Wakeup Event_Loop Tcp_Stream Tcp_Server Tcp_Client
    Sockets Conn_Poller Server_Steps Reactor Echo_Server Programs Teardown Current_Thread
    Loop_Refine Singletons Callbacks Lifetime Pool_Program Descriptors
    Forwarding
begin

text \<open>
  A verification development for oula_server, a C++ network library in the reactor style (after muduo)
  with a server, a client and a thread pool.

  \<^bold>\<open>The program.\<close> An \<open>EventLoop\<close> belongs to one thread. It waits in a \<open>Poller\<close> (epoll or
  poll) for the descriptors of its \<open>Channel\<close>s, calls their handlers, then runs the functors that any thread
  may have queued to it; a \<open>TimerQueue\<close>, itself a channel over a timerfd, runs timers in it. A
  \<open>TcpServer\<close> accepts connections in its base loop and hands each to a loop of its \<open>EventLoopThreadPool\<close>;
  a \<open>TcpConnection\<close> moves bytes between its socket, two \<open>Buffer\<close>s and the user's callbacks, in its loop; its end
  goes back through the base loop's map and is finished in its own loop. A \<open>TcpClient\<close> has a \<open>Connector\<close> that
  connects, with back-off, and at most one connection. The \<open>ThreadPool\<close> runs tasks of any kind.

  \<^bold>\<open>Conventions.\<close> A failed \<open>assert\<close>, the dereference of a dead pointer, a vector over \<open>max_size\<close> and
  undefined behaviour are errors on the left of a sum (\<open>Prelude\<close>: \<open>fault\<close>, \<open>rbind\<close>, \<open>cassert\<close>, \<open>deref\<close>,
  \<open>rfold\<close>); \<open>assertInLoopThread\<close> takes whether the caller is the loop's thread. Objects are at addresses
  of explicit heaps. What the kernel, the clock and the allocator answer is an argument. Names are the source's.

  \<^bold>\<open>Theories and sources.\<close>
  \<^item> \<open>Prelude\<close>: errors, folds over fallible steps; \<open>reach\<close> and the locale \<open>invariant_system\<close> for step relations,
    \<open>legal_run\<close> and the locale \<open>legal_system\<close> for histories of legal operations.
  \<^item> \<open>Decimal\<close>, \<open>Ord_Set\<close>: \<open>std::to_string\<close> and \<open>printf\<close> on integers; \<open>std::set\<close> as a sorted list.
  \<^item> \<open>Net_Buffer\<close>: \<open>net/Buffer.h\<close>, \<open>net/Buffer.cpp\<close>, index by index. Locale \<open>byte_fifo\<close> is the contract;
    the buffer refines it.
  \<^item> \<open>Timestamp\<close>: \<open>net/utils/Timestamp\<close>, with the 32-bit product of \<open>getNow\<close>.
  \<^item> \<open>Timer_Queue\<close>: \<open>net/Timer\<close>, \<open>net/TimerId.h\<close>, \<open>net/TimerQueue\<close>: the timers' heap, the three
    sets, the timerfd.
  \<^item> \<open>Channel\<close>, \<open>Pollers\<close>: \<open>net/Channel\<close>, \<open>net/Poller\<close>, \<open>net/poller/EpollPoller\<close>, \<open>net/poller/PollPoller\<close>. Locale
    \<open>poller_contract\<close> states what a poller promises for a legal operation; both back ends interpret it.
  \<^item> \<open>Loop_Wakeup\<close>: the hand-over of functors between threads (\<open>net/Eventloop.cpp\<close>: \<open>queueInLoop\<close>,
    \<open>handlePendingFunctors\<close>, the eventfd) as a step relation of the loop and other threads.
  \<^item> \<open>Event_Loop\<close>: \<open>net/Eventloop\<close> in its own thread: a turn of the loop with its poller, channels, timers and
    functors, with user code as a bounded program.
  \<^item> \<open>Loop_Refine\<close>: a turn of \<open>Event_Loop\<close> is a run of \<open>Loop_Wakeup\<close>.
  \<^item> \<open>Tcp_Connection\<close>, \<open>Tcp_Stream\<close>, \<open>Tcp_Close\<close>: \<open>net/TcpConnection\<close> and the echo of \<open>net/Callback.cpp\<close>; the
    byte stream; when the close callback is called. Locale \<open>conn_user\<close> is what the user's callbacks may do, locale
    \<open>conn_relation\<close> carries a relation over every operation.
  \<^item> \<open>Conn_Poller\<close>: a connection against \<open>poller_contract\<close>.
  \<^item> \<open>Loop_Pool\<close>: \<open>net/EventLoopThread\<close> as a step relation of two threads, \<open>net/EventLoopThreadPool\<close>.
  \<^item> \<open>Tcp_Server\<close>: \<open>net/Acceptor\<close>, \<open>net/TcpServer\<close>, all loops together.
  \<^item> \<open>Server_Steps\<close>: what one step of the server changes; locale \<open>fifo_progress\<close> carries a queued functor to its
    run, and with it a closed connection to its destruction.
  \<^item> \<open>Lifetime\<close>: \<open>Tcp_Server\<close> with one queue per loop that holds the functors of the server and those of its connections
    (\<open>send\<close>, \<open>shutdown\<close>, \<open>forceClose\<close> of \<open>net/TcpConnection.cpp\<close>), in the order of queueing; \<open>send\<close> of another thread as
    two steps.
  \<^item> \<open>Callbacks\<close>: the setters of user callbacks in \<open>net/TcpServer.h\<close>, \<open>net/TcpConnection.h\<close>, \<open>net/TcpClient.h\<close>, and what
    \<open>newConnection\<close> hands to a connection.
  \<^item> \<open>Reactor\<close>: the server with the pollers and turns of all its loops: \<open>EventLoop::loop\<close> over the channels of the
    connections, which \<open>Tcp_Server\<close> alone leaves to a legality condition.
  \<^item> \<open>Connector\<close>, \<open>Tcp_Client\<close>: \<open>net/Connector\<close>, \<open>net/TcpClient\<close>.
  \<^item> \<open>Sockets\<close>: \<open>net/utils/InetAddress\<close>, \<open>net/SocketHelper\<close>, \<open>net/Socket\<close>; the calls whose answer the code ignores are
    a trace.
  \<^item> \<open>Current_Thread\<close>: \<open>net/utils/CurrentThread\<close> and the identity of a loop: where the \<open>inLoop\<close> arguments come from.
  \<^item> \<open>Teardown\<close>: the destructors of the loop with its timer queue and poller, of the server and of the acceptor.
  \<^item> \<open>Echo_Server\<close>, \<open>Programs\<close>: the server and the client of \<open>main.cpp\<close>, \<open>client.cpp\<close>, \<open>logic/logic\<close>.
  \<^item> \<open>Thread_Pool\<close>: \<open>threadpool/threadpool\<close>, mutex and condition variable included, all interleavings.
    \<open>Pool_Program\<close>: the functions of \<open>main.cpp\<close> that try out the pool and the timers.
  \<^item> \<open>Singletons\<close>: \<open>Logger::GetInstance\<close> of \<open>net/utils/log.h\<close> and \<open>ThreadPool::GetInstance\<close>, as steps of any number of
    threads; what \<open>spdlog::stdout_color_mt\<close> returns is an argument.
  \<^item> \<open>Forwarding\<close>: the operations that only hand a call on: \<open>send\<close> of a string, options of the socket, \<open>cancle\<close>, accessors.
  \<^item> \<open>Descriptors\<close>: the eventfd and the timerfd, and the handler of \<open>SIGPIPE\<close> (\<open>net/Eventloop.cpp\<close>, \<open>net/TimerQueue.cpp\<close>), when
    the kernel refuses them or not.

  \<^bold>\<open>What the theorems show.\<close> Each component has an invariant that every operation keeps, and the
  properties are read off it over all histories of legal operations.
  \<^item> Data: the buffer is a byte queue; time stamps and addresses print and read back; bounds of the clock.
  \<^item> Timers: every due timer runs once, in deadline order, and is rescheduled or freed; none is used after
    its end; the timerfd is armed for the earliest.
  \<^item> Pollers: what the kernel watches is what the channels ask for, for both back ends, which agree.
  \<^item> Loop: no wakeup is lost, functors run in order and once; a turn fails no assertion; the detailed loop refines
    the hand-over protocol.
  \<^item> Connections: bytes are neither lost, duplicated nor reordered; writing is enabled exactly while bytes wait;
    a shutdown comes after them; the close callback is called exactly once.
  \<^item> Server and client: the map, or \<open>connection_\<close>, holds exactly the connections that are alive; a closed one is
    taken through removal and destruction exactly once, and does get there; every poller watches what its
    connections ask for, through all turns of all loops. The functors that a connection queues with a raw \<open>this\<close> do run,
    and while it is alive, because its destruction is queued behind them; a connection keeps the callbacks that were
    registered when it was accepted.
  \<^item> Programs: the server of \<open>main.cpp\<close> echoes every connection's bytes in order; its client never gives up.
  \<^item> Threads: \<open>startLoop\<close> returns; every task of the pool runs exactly once; the destructor drains it; a loop is used in
    the thread that constructed it; one logger is made, whatever threads ask for it.
  \<^item> Ends: a loop is destroyed cleanly after any history.
  The error properties show where the code departs from this: a hangup that closes twice, a partial write
  before \<open>EWOULDBLOCK\<close>, a delayed close among the handlers of a turn, a timer added or bytes sent from another thread, a lost wakeup at the
  pool's end, two instances of the pool, a loop without its eventfd, the destructors of a started \<open>EventLoopThread\<close> and of
  a server with connections.

  \<^bold>\<open>Bounds and termination.\<close> All operations are total functions; no fuel is needed. The loops of the program that do
  not end by design (\<open>EventLoop::loop\<close>, the workers) are step relations, or one turn. Liveness is stated by a measure or
  by the number of steps that suffices. Sizes are bounded by \<open>vec_max_size\<close> (\<open>2^63 - 1\<close>), integers wrap or are
  undefined as their type says.

  \<^bold>\<open>Legality.\<close> Histories assume what the code relies on: a connection gets events only while it is up, which
  \<open>Reactor\<close> proves of the pollers and turns, provided no delayed close comes between; memory passed to \<open>send\<close> stays readable until it is used; a connector is started while idle;
  addresses of new objects are fresh; connection numbers stay below \<open>2^31 - 1\<close>. Where the code itself can break such an
  assumption, an error property says so.

  \<^bold>\<open>Not modelled.\<close> What is logged and how spdlog writes it, the base class \<open>nocopyable\<close>, which only deletes the copy
  operations, \<open>test/\<close> and the build files.
  Open: one state for the detailed loop of \<open>Event_Loop\<close> (timers, wakeup) and the turns of \<open>Reactor\<close>; the merged queues of
  \<open>Lifetime\<close> for the client; the ownership by \<open>shared_ptr\<close> beyond the map and the queued functors.
\<close>

end
